theory Spec2Isabelle
  imports Main "HOL-Library.Word" "HOL-Library.Log_Nat"
begin

unbundle bit_operations_syntax

section \<open>Buffers and JavaScript integer operators\<close>

text \<open>
  A Node \<open>Buffer\<close> is a sequence of bytes. JavaScript numbers that hold integers are
  modelled by \<open>int\<close>: every integer the cipher computes stays far below \<open>2 ^ 53\<close>
  (lemma \<open>crypt_values_safe\<close>), where double arithmetic on integers is exact.
  The bitwise operators first convert to a 32-bit two's complement integer (ToInt32),
  operate there, and give the signed result back.
\<close>

type_synonym byte = "8 word"
type_synonym buffer = "byte list"

definition js_and :: "int \<Rightarrow> int \<Rightarrow> int" where
  "js_and a b = sint ((word_of_int a :: 32 word) AND word_of_int b)"

definition js_xor :: "int \<Rightarrow> int \<Rightarrow> int" where
  "js_xor a b = sint ((word_of_int a :: 32 word) XOR word_of_int b)"

text \<open>The remainder operator \<open>%\<close>: the result has the sign of the dividend.\<close>

definition js_rem :: "int \<Rightarrow> int \<Rightarrow> int" where
  "js_rem a b = (if a < 0 then - ((- a) mod \<bar>b\<bar>) else a mod \<bar>b\<bar>)"

section \<open>The Top10 cipher: \<open>Level.cryptTop10\<close>\<close>

text \<open>
  One round of the loop body, on the two key variables \<open>ebp8\<close> and \<open>ebp10\<close>.
\<close>

definition next_ebp10 :: "int \<Rightarrow> int \<Rightarrow> int" where
  "next_ebp10 ebp8 ebp10 = ebp10 + js_rem ebp8 0xD3D * 0xD3D"

definition next_ebp8 :: "int \<Rightarrow> int" where
  "next_ebp8 ebp10 =
     (let ebp8 = ebp10 * 0x1F + 0xD3D
      in js_and ebp8 0xFFFF - 2 * js_and ebp8 0x8000)"

text \<open>
  \<open>output[i] ^= ebp8 & 0xFF\<close> on a \<open>Uint8Array\<close>: the stored value is reduced to a
  byte, and a store past the end of the array is ignored.
\<close>

definition xor_at :: "buffer \<Rightarrow> nat \<Rightarrow> int \<Rightarrow> buffer" where
  "xor_at output i ebp8 =
     (if i < length output
      then output[i := word_of_int (js_xor (uint (output ! i)) (js_and ebp8 0xFF))]
      else output)"

function crypt_loop :: "nat \<Rightarrow> int \<Rightarrow> int \<Rightarrow> buffer \<Rightarrow> buffer" where
  "crypt_loop i ebp8 ebp10 output =
     (if i < 688
      then (let output' = xor_at output i ebp8;
                ebp10' = next_ebp10 ebp8 ebp10;
                ebp8' = next_ebp8 ebp10'
            in crypt_loop (i + 1) ebp8' ebp10' output')
      else output)"
  by pat_completeness auto
termination
  by (relation "measure (\<lambda>(i, ebp8, ebp10, output). 688 - i)") auto

declare crypt_loop.simps [simp del]

text \<open>The key variables after \<open>n\<close> rounds of the loop.\<close>

fun key_after :: "nat \<Rightarrow> int \<Rightarrow> int \<Rightarrow> int \<times> int" where
  "key_after 0 ebp8 ebp10 = (ebp8, ebp10)"
| "key_after (Suc n) ebp8 ebp10 =
     key_after n (next_ebp8 (next_ebp10 ebp8 ebp10)) (next_ebp10 ebp8 ebp10)"

text \<open>
  \<open>cryptTop10\<close> on values: \<open>Buffer.from(buffer)\<close> is a copy of the argument, and the
  loop runs on the copy.
\<close>

definition cryptTop10 :: "buffer \<Rightarrow> buffer" where
  "cryptTop10 buffer = crypt_loop 0 0x15 0x2637 buffer"

text \<open>
  The same function on a store of buffers, to say what it writes. A store is a list of
  buffers and a reference is an index into it. \<open>Buffer.from\<close> allocates a new buffer
  holding a copy; the loop writes to the new buffer only.
\<close>

type_synonym store = "buffer list"

definition Buffer_from :: "store \<Rightarrow> nat \<Rightarrow> store \<times> nat" where
  "Buffer_from s r = (s @ [s ! r], length s)"

definition cryptTop10_store :: "store \<Rightarrow> nat \<Rightarrow> store \<times> nat" where
  "cryptTop10_store s r =
     (case Buffer_from s r of
        (s', output) \<Rightarrow> (s'[output := crypt_loop 0 0x15 0x2637 (s' ! output)], output))"

subsection \<open>The recurrence as the specification words it\<close>

text \<open>
  Two accumulators \<open>key1 = 0x15\<close> and \<open>key2 = 0x2637\<close>; for each byte position the
  output byte is the input byte XOR \<open>key1 & 0xFF\<close>; then
  \<open>key2 = key2 + (key1 mod 0xD3D) * 0xD3D\<close> in truncating integer arithmetic with
  32-bit signed wrap-around; then \<open>key1 = key2 * 0x1F + 0xD3D\<close> masked to 16 bits and
  read as a signed 16-bit value.
\<close>

definition wrap_int32 :: "int \<Rightarrow> int" where
  "wrap_int32 v = (v + 2 ^ 31) mod 2 ^ 32 - 2 ^ 31"

definition trunc_mod :: "int \<Rightarrow> int \<Rightarrow> int" where
  "trunc_mod a m = sgn a * (\<bar>a\<bar> mod m)"

definition spec_key2 :: "int \<Rightarrow> int \<Rightarrow> int" where
  "spec_key2 key1 key2 = wrap_int32 (key2 + trunc_mod key1 0xD3D * 0xD3D)"

definition spec_key1 :: "int \<Rightarrow> int" where
  "spec_key1 key2 =
     (let masked = (key2 * 0x1F + 0xD3D) mod 0x10000
      in if masked \<ge> 0x8000 then masked - 0x10000 else masked)"

fun spec_stream :: "nat \<Rightarrow> int \<Rightarrow> int \<Rightarrow> buffer \<Rightarrow> buffer" where
  "spec_stream 0 key1 key2 bs = bs"
| "spec_stream (Suc n) key1 key2 [] = []"
| "spec_stream (Suc n) key1 key2 (b # bs) =
     (b XOR word_of_int (key1 AND 0xFF)) #
       spec_stream n (spec_key1 (spec_key2 key1 key2)) (spec_key2 key1 key2) bs"

fun spec_key_after :: "nat \<Rightarrow> int \<Rightarrow> int \<Rightarrow> int \<times> int" where
  "spec_key_after 0 key1 key2 = (key1, key2)"
| "spec_key_after (Suc n) key1 key2 =
     spec_key_after n (spec_key1 (spec_key2 key1 key2)) (spec_key2 key1 key2)"

definition spec_cipher :: "buffer \<Rightarrow> buffer" where
  "spec_cipher input = spec_stream 688 0x15 0x2637 input"


section \<open>Errors, integers in buffers, fixed-width strings\<close>

text \<open>
  The outcomes of a failed decode or encode. The source rejects its promise with a
  message, or a \<open>Buffer\<close> method throws a \<open>RangeError\<close> inside the promise's executor,
  which rejects the promise with that error:
  \<^item> \<open>InvalidFormat\<close>: \<open>'Not valid Elma level.'\<close>;
  \<^item> \<open>UnsupportedLegacyFormat\<close>: \<open>'Across levels are not supported'\<close>;
  \<^item> \<open>UnexpectedEndOfData\<close>: the \<open>RangeError\<close> of a read past the end of the buffer;
  \<^item> \<open>InvalidObjectType\<close>: \<open>'Invalid object value'\<close>;
  \<^item> \<open>InvalidGravityValue\<close>: \<open>'Invalid gravity value'\<close> (decode), \<open>'Invalid gravity'\<close> (encode);
  \<^item> \<open>InvalidClipValue\<close>: \<open>'Invalid clip value'\<close>;
  \<^item> \<open>EndOfDataMarkerMismatch\<close>: \<open>'End of data marker error'\<close>;
  \<^item> \<open>EndOfFileMarkerMismatch\<close>: \<open>'End of file marker error'\<close>;
  \<^item> \<open>UnsupportedFormatForWrite\<close>: \<open>'Only Elma levels are supported'\<close>;
  \<^item> \<open>WriteOutOfRange\<close>: the \<open>RangeError\<close> of a write whose value does not fit the
    integer type, or whose offset is outside the buffer.
\<close>

datatype error =
    InvalidFormat
  | UnsupportedLegacyFormat
  | UnexpectedEndOfData
  | InvalidObjectType
  | InvalidGravityValue
  | InvalidClipValue
  | EndOfDataMarkerMismatch
  | EndOfFileMarkerMismatch
  | UnsupportedFormatForWrite
  | WriteOutOfRange

text \<open>Sequencing of steps that can fail: the first error ends the computation.\<close>

definition and_then :: "error + 'a \<Rightarrow> ('a \<Rightarrow> error + 'b) \<Rightarrow> error + 'b" where
  "and_then r f = (case r of Inl e \<Rightarrow> Inl e | Inr v \<Rightarrow> f v)"

subsection \<open>Little-endian integers\<close>

fun le_int :: "byte list \<Rightarrow> int" where
  "le_int [] = 0"
| "le_int (b # bs) = uint b + 256 * le_int bs"

fun le_bytes :: "nat \<Rightarrow> int \<Rightarrow> byte list" where
  "le_bytes 0 v = []"
| "le_bytes (Suc k) v = word_of_int (v mod 256) # le_bytes k (v div 256)"

text \<open>A 32-bit pattern read as a two's complement integer.\<close>

definition to_int32 :: "int \<Rightarrow> int" where
  "to_int32 v = (if v \<ge> 2 ^ 31 then v - 2 ^ 32 else v)"

text \<open>
  \<open>buffer.slice(start, end)\<close> for \<open>0 \<le> start \<le> end\<close>: both ends are clamped to the
  length of the buffer, so a slice past the end is shorter than asked for, or empty.
\<close>

definition slice :: "buffer \<Rightarrow> nat \<Rightarrow> nat \<Rightarrow> buffer" where
  "slice buffer start end = take (end - start) (drop start buffer)"

text \<open>
  The fixed-size reads throw a \<open>RangeError\<close> unless the whole value lies inside the
  buffer. A double is kept as its 64-bit pattern.
\<close>

type_synonym double = "64 word"

definition readUInt32LE :: "buffer \<Rightarrow> nat \<Rightarrow> error + int" where
  "readUInt32LE buffer offset =
     (if offset + 4 \<le> length buffer
      then Inr (le_int (slice buffer offset (offset + 4)))
      else Inl UnexpectedEndOfData)"

definition readInt32LE :: "buffer \<Rightarrow> nat \<Rightarrow> error + int" where
  "readInt32LE buffer offset =
     (if offset + 4 \<le> length buffer
      then Inr (to_int32 (le_int (slice buffer offset (offset + 4))))
      else Inl UnexpectedEndOfData)"

definition readDoubleLE :: "buffer \<Rightarrow> nat \<Rightarrow> error + double" where
  "readDoubleLE buffer offset =
     (if offset + 8 \<le> length buffer
      then Inr (word_of_int (le_int (slice buffer offset (offset + 8))))
      else Inl UnexpectedEndOfData)"

text \<open>
  Writes. \<open>Buffer.alloc(n)\<close> is \<open>n\<close> zero bytes. A write replaces the bytes from
  \<open>offset\<close> on. The integer writes throw a \<open>RangeError\<close> when the value does not fit
  the type or the bytes do not fit the buffer; \<open>buffer.write(string, offset)\<close> writes
  as many bytes of the string as fit, and throws only for an offset past the end.
\<close>

definition Buffer_alloc :: "nat \<Rightarrow> buffer" where
  "Buffer_alloc n = replicate n 0"

definition write_at :: "buffer \<Rightarrow> nat \<Rightarrow> byte list \<Rightarrow> buffer" where
  "write_at buffer offset bs =
     take offset buffer @ take (length buffer - offset) bs @ drop (offset + length bs) buffer"

definition writeUInt16LE :: "buffer \<Rightarrow> int \<Rightarrow> nat \<Rightarrow> error + buffer" where
  "writeUInt16LE buffer v offset =
     (if v < 0 \<or> v > 0xFFFF \<or> offset + 2 > length buffer then Inl WriteOutOfRange
      else Inr (write_at buffer offset (le_bytes 2 v)))"

definition writeUInt32LE :: "buffer \<Rightarrow> int \<Rightarrow> nat \<Rightarrow> error + buffer" where
  "writeUInt32LE buffer v offset =
     (if v < 0 \<or> v > 0xFFFFFFFF \<or> offset + 4 > length buffer then Inl WriteOutOfRange
      else Inr (write_at buffer offset (le_bytes 4 v)))"

definition writeInt32LE :: "buffer \<Rightarrow> int \<Rightarrow> nat \<Rightarrow> error + buffer" where
  "writeInt32LE buffer v offset =
     (if v < - (2 ^ 31) \<or> v > 2 ^ 31 - 1 \<or> offset + 4 > length buffer then Inl WriteOutOfRange
      else Inr (write_at buffer offset (le_bytes 4 (v mod 2 ^ 32))))"

definition writeDoubleLE :: "buffer \<Rightarrow> double \<Rightarrow> nat \<Rightarrow> error + buffer" where
  "writeDoubleLE buffer d offset =
     (if offset + 8 > length buffer then Inl WriteOutOfRange
      else Inr (write_at buffer offset (le_bytes 8 (uint d))))"

subsection \<open>Strings\<close>

text \<open>
  A JavaScript string is modelled by a \<open>string\<close>, a list of 8-bit characters: the level
  format holds ASCII text, and the model covers the strings whose code units are below
  256. Writing with the encoding \<open>'ascii'\<close> stores each code unit as one byte; writing
  with the default encoding (UTF-8) stores a code unit from 128 on as two bytes;
  decoding with \<open>'ascii'\<close> clears the highest bit of each byte.
\<close>

definition ascii_bytes :: "string \<Rightarrow> byte list" where
  "ascii_bytes s = map of_char s"

definition utf8_char :: "char \<Rightarrow> byte list" where
  "utf8_char c =
     (if (of_char c :: nat) < 128 then [of_char c]
      else [word_of_nat (192 + of_char c div 64), word_of_nat (128 + of_char c mod 64)])"

definition utf8_bytes :: "string \<Rightarrow> byte list" where
  "utf8_bytes s = concat (map utf8_char s)"

definition ascii_string :: "byte list \<Rightarrow> string" where
  "ascii_string bs = map (\<lambda>b. char_of (unat (b AND 0x7F))) bs"

definition write_ascii :: "buffer \<Rightarrow> string \<Rightarrow> nat \<Rightarrow> error + buffer" where
  "write_ascii buffer s offset =
     (if offset > length buffer then Inl WriteOutOfRange
      else Inr (write_at buffer offset (ascii_bytes s)))"

definition write_utf8 :: "buffer \<Rightarrow> string \<Rightarrow> nat \<Rightarrow> error + buffer" where
  "write_utf8 buffer s offset =
     (if offset > length buffer then Inl WriteOutOfRange
      else Inr (write_at buffer offset (utf8_bytes s)))"

text \<open>
  Modelled from the spec: \<open>trimString\<close> and \<open>nullpadString\<close> of \<open>util.js\<close>, which is
  not among the sources. The specification's words: trimming "trims trailing
  padding/null bytes on read" and "must stop at the first null byte or trailing-space
  run"; padding "pads with a fill byte to an exact width on write" and "must
  truncate/pad to exactly N bytes, never more", with zero as the fill byte
  ("fixed-width zero-padding for strings").
\<close>

definition drop_trailing_spaces :: "string \<Rightarrow> string" where
  "drop_trailing_spaces s = rev (dropWhile (\<lambda>c. c = CHR '' '') (rev s))"

definition trimString :: "buffer \<Rightarrow> string" where
  "trimString buffer =
     drop_trailing_spaces (ascii_string (takeWhile (\<lambda>b. b \<noteq> 0) buffer))"

definition nullpadString :: "string \<Rightarrow> nat \<Rightarrow> string" where
  "nullpadString str n = take n str @ replicate (n - length str) (CHR 0x00)"

section \<open>The level\<close>

text \<open>
  The objects of the source are property bags; each is a record of the properties the
  codec reads and writes, the field named after the property with the record's name in
  front (\<open>obj_type\<close> is \<open>object.type\<close>). \<open>'n\<close> is the type of the coordinates: a
  double (its 64-bit pattern) in the codec. An object's \<open>gravity\<close> and \<open>animation\<close> are
  set by the decoder for apples only, so they are optional.
\<close>

record 'n vertex =
  vertex_x :: 'n
  vertex_y :: 'n

record 'n polygon =
  poly_grass :: bool
  poly_vertices :: "'n vertex list"

record 'n object =
  obj_x :: 'n
  obj_y :: 'n
  obj_type :: string
  obj_gravity :: "string option"
  obj_animation :: "int option"

record 'n picture =
  pic_name :: string
  pic_texture :: string
  pic_mask :: string
  pic_x :: 'n
  pic_y :: 'n
  pic_distance :: int
  pic_clip :: string

record entry =
  entry_time :: int
  entry_name1 :: string
  entry_name2 :: string

record top10_lists =
  top10_single :: "entry list"
  top10_multi :: "entry list"

record 'n level =
  lev_version :: string
  lev_link :: int
  lev_integrity :: "'n list"
  lev_lgr :: string
  lev_name :: string
  lev_ground :: string
  lev_sky :: string
  lev_polygons :: "'n polygon list"
  lev_objects :: "'n object list"
  lev_pictures :: "'n picture list"
  lev_top10 :: top10_lists

section \<open>The score tables: \<open>_parseTop10\<close> and \<open>_top10ToBuffer\<close>\<close>

text \<open>
  \<open>_parseTop10\<close>: the entry count, then for each entry the time (a read of a 4-byte
  slice, which throws when the slice is shorter) and the two names.
\<close>

function parse_entries :: "buffer \<Rightarrow> int \<Rightarrow> nat \<Rightarrow> entry list \<Rightarrow> error + entry list" where
  "parse_entries buffer top10Count i output =
     (if int i < top10Count
      then and_then (readInt32LE (slice buffer (4 + i * 4) (4 + i * 4 + 4)) 0) (\<lambda>t.
             parse_entries buffer top10Count (i + 1)
               (output @
                [\<lparr>entry_time = t,
                  entry_name1 = trimString (slice buffer (44 + i * 15) (44 + i * 15 + 15)),
                  entry_name2 = trimString (slice buffer (194 + i * 15) (194 + i * 15 + 15))\<rparr>]))
      else Inr output)"
  by pat_completeness auto
termination
  by (relation "measure (\<lambda>(buffer, top10Count, i, output). nat (top10Count - int i))") auto

declare parse_entries.simps [simp del]

definition parseTop10 :: "buffer \<Rightarrow> error + entry list" where
  "parseTop10 buffer =
     and_then (readInt32LE buffer 0) (\<lambda>top10Count. parse_entries buffer top10Count 0 [])"

text \<open>
  \<open>_top10ToBuffer\<close>. The comparator orders by \<open>time\<close>; \<open>Array.prototype.sort\<close> sorts the
  array in place and is stable, which is \<open>sort_key\<close>. The list of the level is
  replaced by the sorted list before anything is written.
\<close>

definition sort_by_time :: "entry list \<Rightarrow> entry list" where
  "sort_by_time list = sort_key entry_time list"

function write_entries :: "entry list \<Rightarrow> nat \<Rightarrow> buffer \<Rightarrow> error + buffer" where
  "write_entries list i buffer =
     (if i < length list
      then (if i < 10
            then and_then (writeUInt32LE buffer (entry_time (list ! i)) (4 + 4 * i)) (\<lambda>buffer.
                 and_then (write_utf8 buffer (nullpadString (entry_name1 (list ! i)) 15) (44 + 15 * i)) (\<lambda>buffer.
                 and_then (write_utf8 buffer (nullpadString (entry_name2 (list ! i)) 15) (194 + 15 * i)) (\<lambda>buffer.
                 write_entries list (i + 1) buffer)))
            else write_entries list (i + 1) buffer)
      else Inr buffer)"
  by pat_completeness auto
termination
  by (relation "measure (\<lambda>(list, i, buffer). length list - i)") auto

declare write_entries.simps [simp del]

text \<open>The body of the inner function \<open>parse\<close> after the sort, on the sorted list.\<close>

definition top10_table :: "entry list \<Rightarrow> error + buffer" where
  "top10_table list =
     and_then (writeUInt32LE (Buffer_alloc 344)
                 (if length list \<ge> 10 then 10 else int (length list)) 0) (\<lambda>buffer.
     write_entries list 0 buffer)"

text \<open>\<open>Buffer.concat(list, totalLength)\<close>: cut or zero-filled to the total length.\<close>

definition Buffer_concat :: "buffer list \<Rightarrow> nat \<Rightarrow> buffer" where
  "Buffer_concat list totalLength =
     take totalLength (concat list) @ replicate (totalLength - length (concat list)) 0"

text \<open>
  The result is the new value of \<open>this.top10\<close> and the buffer, or the error thrown. When
  writing the single-player table throws, the multi-player list is not yet sorted.
\<close>

definition top10ToBuffer :: "top10_lists \<Rightarrow> top10_lists \<times> (error + buffer)" where
  "top10ToBuffer t =
     (let t1 = t\<lparr>top10_single := sort_by_time (top10_single t)\<rparr>
      in case top10_table (top10_single t1) of
           Inl e \<Rightarrow> (t1, Inl e)
         | Inr single \<Rightarrow>
             (let t2 = t1\<lparr>top10_multi := sort_by_time (top10_multi t1)\<rparr>
              in case top10_table (top10_multi t2) of
                   Inl e \<Rightarrow> (t2, Inl e)
                 | Inr multi \<Rightarrow> (t2, Inr (cryptTop10 (Buffer_concat [single, multi] 688)))))"

text \<open>
  The score block in \<open>_parseFile\<close>: decrypt the 688 bytes at \<open>offset\<close> and parse the two
  halves.
\<close>

definition parse_top10_block :: "buffer \<Rightarrow> nat \<Rightarrow> error + top10_lists" where
  "parse_top10_block buffer offset =
     (let top10Data = cryptTop10 (slice buffer offset (offset + 688))
      in and_then (parseTop10 (slice top10Data 0 344)) (\<lambda>single.
         and_then (parseTop10 (slice top10Data 344 (length top10Data))) (\<lambda>multi.
         Inr \<lparr>top10_single = single, top10_multi = multi\<rparr>)))"

text \<open>
  The layout of one 344-byte table as the specification describes it: the count, ten
  4-byte time slots, ten 15-byte slots for the first name and ten for the second, the
  slots after the kept entries zero.
\<close>

definition slots :: "nat \<Rightarrow> buffer list \<Rightarrow> buffer" where
  "slots width filled = concat filled @ replicate (width * (10 - length filled)) 0"

definition table_layout :: "entry list \<Rightarrow> buffer" where
  "table_layout kept =
     le_bytes 4 (int (length kept)) @
     slots 4 (map (\<lambda>e. le_bytes 4 (entry_time e)) kept) @
     slots 15 (map (\<lambda>e. ascii_bytes (nullpadString (entry_name1 e) 15)) kept) @
     slots 15 (map (\<lambda>e. ascii_bytes (nullpadString (entry_name2 e) 15)) kept)"

text \<open>
  A string that survives its fixed-width field of \<open>n\<close> bytes: ASCII, no null character,
  no space at the end, at most \<open>n\<close> characters.
\<close>

definition field_string :: "nat \<Rightarrow> string \<Rightarrow> bool" where
  "field_string n s \<longleftrightarrow>
     length s \<le> n \<and> list_all (\<lambda>c. (of_char c :: nat) < 128 \<and> c \<noteq> CHR 0x00) s \<and>
     (s = [] \<or> last s \<noteq> CHR '' '')"

definition score_entry :: "entry \<Rightarrow> bool" where
  "score_entry e \<longleftrightarrow>
     0 \<le> entry_time e \<and> entry_time e \<le> 0xFFFFFFFF \<and>
     field_string 15 (entry_name1 e) \<and> field_string 15 (entry_name2 e)"

text \<open>What the decoder makes of a written entry: the time read as a signed integer.\<close>

definition read_back :: "entry \<Rightarrow> entry" where
  "read_back e = e\<lparr>entry_time := to_int32 (entry_time e)\<rparr>"

text \<open>Score lists used as concrete inputs below.\<close>

definition scorer :: "int \<Rightarrow> string \<Rightarrow> entry" where
  "scorer t n = \<lparr>entry_time = t, entry_name1 = n, entry_name2 = ''''\<rparr>"

definition fifteen_scores :: "entry list" where
  "fifteen_scores =
     [scorer 20 ''a'', scorer 7 ''b'', scorer 7 ''c'', scorer 30 ''d'', scorer 1 ''e'',
      scorer 12 ''f'', scorer 9 ''g'', scorer 9 ''h'', scorer 25 ''i'', scorer 3 ''j'',
      scorer 18 ''k'', scorer 2 ''l'', scorer 40 ''m'', scorer 5 ''n'', scorer 11 ''o'']"

definition fifteen_long_scores :: "entry list" where
  "fifteen_long_scores = map (\<lambda>e. e\<lparr>entry_time := entry_time e + 2 ^ 31\<rparr>) fifteen_scores"

section \<open>Double-precision numbers\<close>

text \<open>
  The codec does three things with doubles beyond copying their bytes: the encoder adds
  a bias constant to a list length, and the decoder subtracts the constant from the
  stored double and compares the loop counter with the result. These are modelled on
  the values: a double is a rational, an infinity or NaN (the two zeros are one value,
  which none of the three operations distinguishes), and a sum or difference of finite
  values is the exact result rounded to the nearest double, ties to the even mantissa
  (IEEE 754 binary64, the default rounding).
\<close>

datatype jsnum = Finite rat | PosInf | NegInf | NaN

text \<open>The value of a 64-bit pattern: sign, 11 bits of exponent, 52 bits of mantissa.\<close>

definition double_value :: "double \<Rightarrow> jsnum" where
  "double_value d =
     (let negative = bit d 63;
          e = take_bit 11 (drop_bit 52 (uint d));
          m = take_bit 52 (uint d)
      in if e = 2047
         then (if m \<noteq> 0 then NaN else if negative then NegInf else PosInf)
         else Finite ((if negative then - 1 else 1) *
                (if e = 0 then of_int m * 2 powi (- 1074)
                 else of_int (2 ^ 52 + m) * 2 powi (e - 1075))))"

text \<open>
  The exponent of the binade of a positive rational, not below the least normal
  exponent: for \<open>q \<ge> 2 ^ -1022\<close> it is \<open>\<lfloor>log\<^sub>2 q\<rfloor>\<close>.
\<close>

definition binade :: "rat \<Rightarrow> int" where
  "binade q = max (- 1022) (bitlen \<lfloor>q * 2 ^ 1100\<rfloor> - 1101)"

definition round_half_even :: "rat \<Rightarrow> int" where
  "round_half_even r =
     (let f = \<lfloor>r\<rfloor>; d = r - of_int f
      in if d < 1 / 2 then f else if d > 1 / 2 then f + 1 else if even f then f else f + 1)"

definition round_double :: "rat \<Rightarrow> jsnum" where
  "round_double q =
     (if q = 0 then Finite 0
      else let a = \<bar>q\<bar>;
               ulp = 2 powi (binade a - 52);
               r = of_int (round_half_even (a / ulp)) * ulp
           in if r \<ge> 2 ^ 1024 then (if q > 0 then PosInf else NegInf)
              else Finite (if q > 0 then r else - r))"

text \<open>The pattern of a value a double can hold (the positive zero for zero).\<close>

definition double_bits :: "jsnum \<Rightarrow> double" where
  "double_bits v =
     (case v of
        NaN \<Rightarrow> 0x7FF8000000000000
      | PosInf \<Rightarrow> 0x7FF0000000000000
      | NegInf \<Rightarrow> 0xFFF0000000000000
      | Finite q \<Rightarrow>
          (let a = \<bar>q\<bar>;
               e = binade a;
               m = \<lfloor>a / 2 powi (e - 52)\<rfloor>;
               sign = (if q < 0 then 2 ^ 63 else 0)
           in word_of_int (sign + (if m < 2 ^ 52 then m else (e + 1023) * 2 ^ 52 + (m - 2 ^ 52)))))"

text \<open>The operators \<open>+\<close>, \<open>-\<close> and \<open><\<close> on numbers.\<close>

fun js_add :: "jsnum \<Rightarrow> jsnum \<Rightarrow> jsnum" where
  "js_add (Finite a) (Finite b) = round_double (a + b)"
| "js_add NaN _ = NaN"
| "js_add _ NaN = NaN"
| "js_add PosInf NegInf = NaN"
| "js_add NegInf PosInf = NaN"
| "js_add PosInf _ = PosInf"
| "js_add NegInf _ = NegInf"
| "js_add _ PosInf = PosInf"
| "js_add _ NegInf = NegInf"

fun js_neg :: "jsnum \<Rightarrow> jsnum" where
  "js_neg (Finite a) = Finite (- a)"
| "js_neg PosInf = NegInf"
| "js_neg NegInf = PosInf"
| "js_neg NaN = NaN"

definition js_sub :: "jsnum \<Rightarrow> jsnum \<Rightarrow> jsnum" where
  "js_sub a b = js_add a (js_neg b)"

fun js_less :: "jsnum \<Rightarrow> jsnum \<Rightarrow> bool" where
  "js_less (Finite a) (Finite b) = (a < b)"
| "js_less NaN _ = False"
| "js_less _ NaN = False"
| "js_less PosInf _ = False"
| "js_less _ NegInf = False"
| "js_less _ PosInf = True"
| "js_less NegInf _ = True"

text \<open>
  A number literal is the double nearest to the decimal. The two bias constants of the
  format, and a loop counter or list length as a number.
\<close>

definition bias_polygons :: jsnum where
  "bias_polygons = round_double (4643643 / 10000000)"

definition bias_pictures :: jsnum where
  "bias_pictures = round_double (2345672 / 10000000)"

definition js_nat :: "nat \<Rightarrow> jsnum" where
  "js_nat n = Finite (of_nat n)"

section \<open>Decoding: \<open>_parseFile\<close>\<close>

text \<open>
  The constants of \<open>const.js\<close>, which is not among the sources, are parameters of the
  codec: the end-of-data and the end-of-file marker.
\<close>

record markers =
  EOD_MARKER :: int
  EOF_MARKER :: int

text \<open>The inner loop \<open>for (let j = 0; j < vertexCount; j++)\<close>: two doubles a vertex.\<close>

function parse_vertices ::
  "buffer \<Rightarrow> int \<Rightarrow> nat \<Rightarrow> nat \<Rightarrow> double vertex list \<Rightarrow> error + (double vertex list \<times> nat)" where
  "parse_vertices buffer vertexCount j offset vertices =
     (if int j < vertexCount
      then and_then (readDoubleLE buffer offset) (\<lambda>x.
           and_then (readDoubleLE buffer (offset + 8)) (\<lambda>y.
           parse_vertices buffer vertexCount (j + 1) (offset + 16)
             (vertices @ [\<lparr>vertex_x = x, vertex_y = y\<rparr>])))
      else Inr (vertices, offset))"
  by pat_completeness auto
termination
  by (relation "measure (\<lambda>(buffer, vertexCount, j, offset, vertices). nat (vertexCount - int j))")
    auto

declare parse_vertices.simps [simp del]

text \<open>The body of the polygon loop: the grass flag, the vertex count, the vertices.\<close>

definition parse_polygon :: "buffer \<Rightarrow> nat \<Rightarrow> error + (double polygon \<times> nat)" where
  "parse_polygon buffer offset =
     and_then (readInt32LE buffer offset) (\<lambda>grass.
     and_then (readInt32LE buffer (offset + 4)) (\<lambda>vertexCount.
     and_then (parse_vertices buffer vertexCount 0 (offset + 8) []) (\<lambda>(vertices, offset').
     Inr (\<lparr>poly_grass = (grass \<noteq> 0), poly_vertices = vertices\<rparr>, offset'))))"

text \<open>
  The body of the object loop: the five fields are read first, then the type and, for
  an apple, the gravity are mapped; an unknown code rejects.
\<close>

definition object_of_codes ::
  "double \<Rightarrow> double \<Rightarrow> int \<Rightarrow> int \<Rightarrow> int \<Rightarrow> error + double object" where
  "object_of_codes ox oy objType gravity animation =
     (if objType = 1 then
        Inr \<lparr>obj_x = ox, obj_y = oy, obj_type = ''exit'', obj_gravity = None, obj_animation = None\<rparr>
      else if objType = 2 then
        (if gravity = 0 then
           Inr \<lparr>obj_x = ox, obj_y = oy, obj_type = ''apple'', obj_gravity = Some ''normal'',
                obj_animation = Some animation\<rparr>
         else if gravity = 1 then
           Inr \<lparr>obj_x = ox, obj_y = oy, obj_type = ''apple'', obj_gravity = Some ''up'',
                obj_animation = Some animation\<rparr>
         else if gravity = 2 then
           Inr \<lparr>obj_x = ox, obj_y = oy, obj_type = ''apple'', obj_gravity = Some ''down'',
                obj_animation = Some animation\<rparr>
         else if gravity = 3 then
           Inr \<lparr>obj_x = ox, obj_y = oy, obj_type = ''apple'', obj_gravity = Some ''left'',
                obj_animation = Some animation\<rparr>
         else if gravity = 4 then
           Inr \<lparr>obj_x = ox, obj_y = oy, obj_type = ''apple'', obj_gravity = Some ''right'',
                obj_animation = Some animation\<rparr>
         else Inl InvalidGravityValue)
      else if objType = 3 then
        Inr \<lparr>obj_x = ox, obj_y = oy, obj_type = ''killer'', obj_gravity = None, obj_animation = None\<rparr>
      else if objType = 4 then
        Inr \<lparr>obj_x = ox, obj_y = oy, obj_type = ''start'', obj_gravity = None, obj_animation = None\<rparr>
      else Inl InvalidObjectType)"

definition parse_object :: "buffer \<Rightarrow> nat \<Rightarrow> error + (double object \<times> nat)" where
  "parse_object buffer offset =
     and_then (readDoubleLE buffer offset) (\<lambda>ox.
     and_then (readDoubleLE buffer (offset + 8)) (\<lambda>oy.
     and_then (readInt32LE buffer (offset + 16)) (\<lambda>objType.
     and_then (readInt32LE buffer (offset + 20)) (\<lambda>gravity.
     and_then (readInt32LE buffer (offset + 24)) (\<lambda>animation.
     and_then (object_of_codes ox oy objType gravity (animation + 1)) (\<lambda>object.
     Inr (object, offset + 28)))))))"

text \<open>The body of the picture loop.\<close>

definition clip_of_code :: "int \<Rightarrow> error + string" where
  "clip_of_code clip =
     (if clip = 0 then Inr ''unclipped''
      else if clip = 1 then Inr ''ground''
      else if clip = 2 then Inr ''sky''
      else Inl InvalidClipValue)"

definition parse_picture :: "buffer \<Rightarrow> nat \<Rightarrow> error + (double picture \<times> nat)" where
  "parse_picture buffer offset =
     (let pname = trimString (slice buffer offset (offset + 10));
          ptexture = trimString (slice buffer (offset + 10) (offset + 20));
          pmask = trimString (slice buffer (offset + 20) (offset + 30))
      in and_then (readDoubleLE buffer (offset + 30)) (\<lambda>px.
         and_then (readDoubleLE buffer (offset + 38)) (\<lambda>py.
         and_then (readInt32LE buffer (offset + 46)) (\<lambda>pdistance.
         and_then (readInt32LE buffer (offset + 50)) (\<lambda>clip.
         and_then (clip_of_code clip) (\<lambda>pclip.
         Inr (\<lparr>pic_name = pname, pic_texture = ptexture, pic_mask = pmask, pic_x = px,
               pic_y = py, pic_distance = pdistance, pic_clip = pclip\<rparr>, offset + 54)))))))"

text \<open>
  A body that returns has read inside the buffer and moved the offset on, which is why
  the three outer loops end, whatever number their bound is.
\<close>

lemma and_then_eq_Inr:
  "and_then r f = Inr v \<longleftrightarrow> (\<exists>u. r = Inr u \<and> f u = Inr v)"
  by (cases r) (simp_all add: and_then_def)

lemma readInt32LE_bound: "readInt32LE buffer offset = Inr v \<Longrightarrow> offset + 4 \<le> length buffer"
  by (simp add: readInt32LE_def split: if_splits)

lemma readDoubleLE_bound: "readDoubleLE buffer offset = Inr v \<Longrightarrow> offset + 8 \<le> length buffer"
  by (simp add: readDoubleLE_def split: if_splits)

lemma parse_vertices_bound:
  "parse_vertices buffer vertexCount j offset vertices = Inr (vertices', offset') \<Longrightarrow>
   offset \<le> length buffer \<Longrightarrow> offset \<le> offset' \<and> offset' \<le> length buffer"
proof (induction buffer vertexCount j offset vertices rule: parse_vertices.induct)
  case (1 buffer vertexCount j offset vertices)
  show ?case
  proof (cases "int j < vertexCount")
    case True
    with "1.prems"(1) obtain vx vy where
      rx: "readDoubleLE buffer offset = Inr vx" and ry: "readDoubleLE buffer (offset + 8) = Inr vy"
      and rest: "parse_vertices buffer vertexCount (j + 1) (offset + 16)
          (vertices @ [\<lparr>vertex_x = vx, vertex_y = vy\<rparr>]) = Inr (vertices', offset')"
      by (subst (asm) parse_vertices.simps) (auto simp add: and_then_eq_Inr)
    have "offset + 16 \<le> length buffer" using readDoubleLE_bound [OF ry] by simp
    with "1.IH" [OF True rest] show ?thesis by simp
  next
    case False
    with "1.prems" show ?thesis by (subst (asm) parse_vertices.simps) simp
  qed
qed

lemma parse_polygon_bound:
  assumes "parse_polygon buffer offset = Inr (polygon, offset')"
  shows "offset < offset' \<and> offset' \<le> length buffer"
proof -
  from assms obtain g c vs where g: "readInt32LE buffer offset = Inr g"
    and c: "readInt32LE buffer (offset + 4) = Inr c"
    and vs: "parse_vertices buffer c 0 (offset + 8) [] = Inr (vs, offset')"
    by (auto simp add: parse_polygon_def and_then_eq_Inr)
  have "offset + 8 \<le> length buffer" using readInt32LE_bound [OF c] by simp
  with parse_vertices_bound [OF vs] show ?thesis by simp
qed

lemma parse_object_bound:
  assumes "parse_object buffer offset = Inr (object, offset')"
  shows "offset < offset' \<and> offset' \<le> length buffer"
proof -
  from assms obtain a where a: "readInt32LE buffer (offset + 24) = Inr a" and "offset' = offset + 28"
    by (auto simp add: parse_object_def and_then_eq_Inr)
  with readInt32LE_bound [OF a] show ?thesis by simp
qed

lemma parse_picture_bound:
  assumes "parse_picture buffer offset = Inr (picture, offset')"
  shows "offset < offset' \<and> offset' \<le> length buffer"
proof -
  from assms obtain c where c: "readInt32LE buffer (offset + 50) = Inr c" and "offset' = offset + 54"
    by (auto simp add: parse_picture_def Let_def and_then_eq_Inr)
  with readInt32LE_bound [OF c] show ?thesis by simp
qed

text \<open>
  The three outer loops, \<open>for (let i = 0; i < count; i++)\<close> with the bound a double:
  each round reads one record at the offset and pushes it.
\<close>

function parse_polygons ::
  "buffer \<Rightarrow> jsnum \<Rightarrow> nat \<Rightarrow> nat \<Rightarrow> double polygon list \<Rightarrow> error + (double polygon list \<times> nat)" where
  "parse_polygons buffer polyCount i offset polygons =
     (if js_less (js_nat i) polyCount
      then (case parse_polygon buffer offset of
              Inl e \<Rightarrow> Inl e
            | Inr (polygon, offset') \<Rightarrow>
                parse_polygons buffer polyCount (i + 1) offset' (polygons @ [polygon]))
      else Inr (polygons, offset))"
  by pat_completeness auto
termination
  by (relation "measure (\<lambda>(buffer, polyCount, i, offset, polygons). length buffer - offset)")
    (auto dest: parse_polygon_bound)

declare parse_polygons.simps [simp del]

function parse_objects ::
  "buffer \<Rightarrow> jsnum \<Rightarrow> nat \<Rightarrow> nat \<Rightarrow> double object list \<Rightarrow> error + (double object list \<times> nat)" where
  "parse_objects buffer objectCount i offset objects =
     (if js_less (js_nat i) objectCount
      then (case parse_object buffer offset of
              Inl e \<Rightarrow> Inl e
            | Inr (object, offset') \<Rightarrow>
                parse_objects buffer objectCount (i + 1) offset' (objects @ [object]))
      else Inr (objects, offset))"
  by pat_completeness auto
termination
  by (relation "measure (\<lambda>(buffer, objectCount, i, offset, objects). length buffer - offset)")
    (auto dest: parse_object_bound)

declare parse_objects.simps [simp del]

function parse_pictures ::
  "buffer \<Rightarrow> jsnum \<Rightarrow> nat \<Rightarrow> nat \<Rightarrow> double picture list \<Rightarrow> error + (double picture list \<times> nat)" where
  "parse_pictures buffer picCount i offset pictures =
     (if js_less (js_nat i) picCount
      then (case parse_picture buffer offset of
              Inl e \<Rightarrow> Inl e
            | Inr (picture, offset') \<Rightarrow>
                parse_pictures buffer picCount (i + 1) offset' (pictures @ [picture]))
      else Inr (pictures, offset))"
  by pat_completeness auto
termination
  by (relation "measure (\<lambda>(buffer, picCount, i, offset, pictures). length buffer - offset)")
    (auto dest: parse_picture_bound)

declare parse_pictures.simps [simp del]

text \<open>
  \<open>_parseFile\<close> on the level \<open>this\<close>: the result is the level the promise resolves
  with, or the error it rejects with (the message of \<open>reject\<close>, or the \<open>RangeError\<close>
  thrown by a read). The records are pushed onto the lists that \<open>this\<close> holds.
\<close>

definition parseFile :: "markers \<Rightarrow> double level \<Rightarrow> buffer \<Rightarrow> error + double level" where
  "parseFile K this buffer =
     (let version = ascii_string (slice buffer 0 5)
      in if version = ''POT06'' then Inl UnsupportedLegacyFormat
         else if version \<noteq> ''POT14'' then Inl InvalidFormat
         else
           and_then (readUInt32LE buffer 7) (\<lambda>vlink.
           and_then (readDoubleLE buffer 11) (\<lambda>i0.
           and_then (readDoubleLE buffer 19) (\<lambda>i1.
           and_then (readDoubleLE buffer 27) (\<lambda>i2.
           and_then (readDoubleLE buffer 35) (\<lambda>i3.
           and_then (readDoubleLE buffer 130) (\<lambda>d.
           and_then (parse_polygons buffer (js_sub (double_value d) bias_polygons) 0 138
                       (lev_polygons this)) (\<lambda>(vpolygons, offset).
           and_then (readDoubleLE buffer offset) (\<lambda>d.
           and_then (parse_objects buffer (js_sub (double_value d) bias_polygons) 0 (offset + 8)
                       (lev_objects this)) (\<lambda>(vobjects, offset).
           and_then (readDoubleLE buffer offset) (\<lambda>d.
           and_then (parse_pictures buffer (js_sub (double_value d) bias_pictures) 0 (offset + 8)
                       (lev_pictures this)) (\<lambda>(vpictures, offset).
           and_then (readInt32LE buffer offset) (\<lambda>marker.
           if marker \<noteq> EOD_MARKER K then Inl EndOfDataMarkerMismatch
           else
             and_then (parse_top10_block buffer (offset + 4)) (\<lambda>vtop10.
             and_then (readInt32LE buffer (offset + 4 + 688)) (\<lambda>marker.
             if marker \<noteq> EOF_MARKER K then Inl EndOfFileMarkerMismatch
             else
               Inr (this\<lparr>lev_version := ''Elma'',
                          lev_link := vlink,
                          lev_integrity := [i0, i1, i2, i3] @ drop 4 (lev_integrity this),
                          lev_name := trimString (slice buffer 43 94),
                          lev_lgr := trimString (slice buffer 94 110),
                          lev_ground := trimString (slice buffer 110 120),
                          lev_sky := trimString (slice buffer 120 130),
                          lev_polygons := vpolygons,
                          lev_objects := vobjects,
                          lev_pictures := vpictures,
                          lev_top10 := vtop10\<rparr>))))))))))))))))"

text \<open>
  \<open>Level.load\<close> parses into a new level whose default polygons and objects have been
  removed; every other field of the new level is overwritten or empty.
\<close>

definition level_for_load :: "double level" where
  "level_for_load =
     \<lparr>lev_version = ''Elma'', lev_link = 0, lev_integrity = [0, 0, 0, 0],
      lev_lgr = ''default'', lev_name = ''New level'', lev_ground = ''ground'', lev_sky = ''sky'',
      lev_polygons = [], lev_objects = [], lev_pictures = [],
      lev_top10 = \<lparr>top10_single = [], top10_multi = []\<rparr>\<rparr>"

definition decode :: "markers \<Rightarrow> buffer \<Rightarrow> error + double level" where
  "decode K buffer = parseFile K level_for_load buffer"

section \<open>Encoding: \<open>_update\<close>\<close>

text \<open>
  The executor of the promise runs on a buffer and an offset. \<open>reject\<close> settles the
  promise but does not stop the executor: inside a \<open>forEach\<close> callback the \<open>return\<close>
  after it leaves the callback only, and the loop goes on with the next element. So the
  state also holds the first rejection. An exception thrown by a write ends the
  executor; the promise is then rejected with the exception unless it was rejected
  before. \<open>Inl e\<close> is the executor ending by an exception, \<open>e\<close> the reason the promise
  is rejected with.
\<close>

record enc_state =
  es_buffer :: buffer
  es_offset :: nat
  es_rejected :: "error option"

definition first_error :: "enc_state \<Rightarrow> error \<Rightarrow> error" where
  "first_error st e = (case es_rejected st of None \<Rightarrow> e | Some r \<Rightarrow> r)"

definition reject :: "enc_state \<Rightarrow> error \<Rightarrow> enc_state" where
  "reject st e = st\<lparr>es_rejected := Some (first_error st e)\<rparr>"

text \<open>A write at the offset of the state, and the offset moved on by \<open>n\<close>.\<close>

definition put :: "enc_state \<Rightarrow> (buffer \<Rightarrow> nat \<Rightarrow> error + buffer) \<Rightarrow> nat \<Rightarrow> error + enc_state" where
  "put st w n =
     (case w (es_buffer st) (es_offset st) of
        Inl e \<Rightarrow> Inl (first_error st e)
      | Inr b \<Rightarrow> Inr (st\<lparr>es_buffer := b, es_offset := es_offset st + n\<rparr>))"

text \<open>A write at a fixed offset; the offset of the state is not used.\<close>

definition put_at :: "enc_state \<Rightarrow> (buffer \<Rightarrow> error + buffer) \<Rightarrow> error + enc_state" where
  "put_at st w =
     (case w (es_buffer st) of
        Inl e \<Rightarrow> Inl (first_error st e)
      | Inr b \<Rightarrow> Inr (st\<lparr>es_buffer := b\<rparr>))"

text \<open>The size of the buffer, as the loop over the polygons computes it.\<close>

definition bufferSize :: "'n level \<Rightarrow> nat" where
  "bufferSize this =
     fold (\<lambda>polygon size. size + (8 + 16 * length (poly_vertices polygon))) (lev_polygons this) 850
       + (28 * length (lev_objects this) + 54 * length (lev_pictures this))"

text \<open>The loop that writes \<open>this.integrity[i]\<close> at \<open>11 + i * 8\<close>.\<close>

fun write_integrity :: "enc_state \<Rightarrow> nat \<Rightarrow> double list \<Rightarrow> error + enc_state" where
  "write_integrity st i [] = Inr st"
| "write_integrity st i (d # ds) =
     and_then (put_at st (\<lambda>b. writeDoubleLE b d (11 + i * 8))) (\<lambda>st.
     write_integrity st (i + 1) ds)"

text \<open>The callbacks of the three \<open>forEach\<close> loops.\<close>

fun write_vertices :: "enc_state \<Rightarrow> double vertex list \<Rightarrow> error + enc_state" where
  "write_vertices st [] = Inr st"
| "write_vertices st (v # vs) =
     and_then (put st (\<lambda>b off. writeDoubleLE b (vertex_x v) off) 8) (\<lambda>st.
     and_then (put st (\<lambda>b off. writeDoubleLE b (vertex_y v) off) 8) (\<lambda>st.
     write_vertices st vs))"

definition write_polygon :: "enc_state \<Rightarrow> double polygon \<Rightarrow> error + enc_state" where
  "write_polygon st polygon =
     and_then (put st (\<lambda>b off. writeInt32LE b (if poly_grass polygon then 1 else 0) off) 4) (\<lambda>st.
     and_then (put st (\<lambda>b off. writeInt32LE b (int (length (poly_vertices polygon))) off) 4) (\<lambda>st.
     write_vertices st (poly_vertices polygon)))"

fun write_polygons :: "enc_state \<Rightarrow> double polygon list \<Rightarrow> error + enc_state" where
  "write_polygons st [] = Inr st"
| "write_polygons st (p # ps) = and_then (write_polygon st p) (\<lambda>st. write_polygons st ps)"

text \<open>
  The codes of an object: the type, the gravity and the animation to write, or the
  rejection. An apple without an \<open>animation\<close> property gives \<open>undefined - 1\<close>, which is
  \<open>NaN\<close>; \<open>writeInt32LE\<close> lets \<open>NaN\<close> pass its range check and stores zero, so the
  animation to write is optional.
\<close>

definition gravity_code :: "string option \<Rightarrow> error + int" where
  "gravity_code g =
     (if g = Some ''normal'' then Inr 0
      else if g = Some ''up'' then Inr 1
      else if g = Some ''down'' then Inr 2
      else if g = Some ''left'' then Inr 3
      else if g = Some ''right'' then Inr 4
      else Inl InvalidGravityValue)"

definition object_codes :: "double object \<Rightarrow> error + (int \<times> int \<times> int option)" where
  "object_codes object =
     (if obj_type object = ''exit'' then Inr (1, 0, Some 0)
      else if obj_type object = ''apple'' then
        (case gravity_code (obj_gravity object) of
           Inl e \<Rightarrow> Inl e
         | Inr g \<Rightarrow> Inr (2, g, map_option (\<lambda>a. a - 1) (obj_animation object)))
      else if obj_type object = ''killer'' then Inr (3, 0, Some 0)
      else if obj_type object = ''start'' then Inr (4, 0, Some 0)
      else Inl InvalidObjectType)"

definition write_number_Int32LE :: "buffer \<Rightarrow> int option \<Rightarrow> nat \<Rightarrow> error + buffer" where
  "write_number_Int32LE b v offset =
     (case v of
        Some i \<Rightarrow> writeInt32LE b i offset
      | None \<Rightarrow> if offset + 4 > length b then Inl WriteOutOfRange
                else Inr (write_at b offset [0, 0, 0, 0]))"

definition write_object :: "enc_state \<Rightarrow> double object \<Rightarrow> error + enc_state" where
  "write_object st object =
     (case object_codes object of
        Inl e \<Rightarrow> Inr (reject st e)
      | Inr (objectType, gravity, animation) \<Rightarrow>
          and_then (put st (\<lambda>b off. writeDoubleLE b (obj_x object) off) 8) (\<lambda>st.
          and_then (put st (\<lambda>b off. writeDoubleLE b (obj_y object) off) 8) (\<lambda>st.
          and_then (put st (\<lambda>b off. writeInt32LE b objectType off) 4) (\<lambda>st.
          and_then (put st (\<lambda>b off. writeInt32LE b gravity off) 4) (\<lambda>st.
          put st (\<lambda>b off. write_number_Int32LE b animation off) 4)))))"

fun write_objects :: "enc_state \<Rightarrow> double object list \<Rightarrow> error + enc_state" where
  "write_objects st [] = Inr st"
| "write_objects st (object # os) = and_then (write_object st object) (\<lambda>st. write_objects st os)"

definition clip_code :: "string \<Rightarrow> error + int" where
  "clip_code c =
     (if c = ''unclipped'' then Inr 0
      else if c = ''ground'' then Inr 1
      else if c = ''sky'' then Inr 2
      else Inl InvalidClipValue)"

definition write_picture :: "enc_state \<Rightarrow> double picture \<Rightarrow> error + enc_state" where
  "write_picture st picture =
     and_then (put st (\<lambda>b off. write_ascii b (nullpadString (pic_name picture) 10) off) 10) (\<lambda>st.
     and_then (put st (\<lambda>b off. write_ascii b (nullpadString (pic_texture picture) 10) off) 10) (\<lambda>st.
     and_then (put st (\<lambda>b off. write_ascii b (nullpadString (pic_mask picture) 10) off) 10) (\<lambda>st.
     and_then (put st (\<lambda>b off. writeDoubleLE b (pic_x picture) off) 8) (\<lambda>st.
     and_then (put st (\<lambda>b off. writeDoubleLE b (pic_y picture) off) 8) (\<lambda>st.
     and_then (put st (\<lambda>b off. writeInt32LE b (pic_distance picture) off) 4) (\<lambda>st.
     case clip_code (pic_clip picture) of
       Inl e \<Rightarrow> Inr (reject st e)
     | Inr clip \<Rightarrow> put st (\<lambda>b off. writeInt32LE b clip off) 4))))))"

fun write_pictures :: "enc_state \<Rightarrow> double picture list \<Rightarrow> error + enc_state" where
  "write_pictures st [] = Inr st"
| "write_pictures st (picture # ps) =
     and_then (write_picture st picture) (\<lambda>st. write_pictures st ps)"

text \<open>
  The executor up to the score tables: everything it writes before it calls
  \<open>_top10ToBuffer\<close>, the only other place where \<open>this\<close> changes.
\<close>

definition write_level :: "markers \<Rightarrow> double level \<Rightarrow> enc_state \<Rightarrow> error + enc_state" where
  "write_level K this st =
     and_then (put_at st (\<lambda>b. write_ascii b ''POT14'' 0)) (\<lambda>st.
     and_then (put_at st (\<lambda>b. writeUInt16LE b (js_and (lev_link this) 0xFFFF) 5)) (\<lambda>st.
     and_then (put_at st (\<lambda>b. writeUInt32LE b (lev_link this) 7)) (\<lambda>st.
     and_then (write_integrity st 0 (lev_integrity this)) (\<lambda>st.
     and_then (put_at st (\<lambda>b. write_ascii b (nullpadString (lev_name this) 51) 43)) (\<lambda>st.
     and_then (put_at st (\<lambda>b. write_ascii b (nullpadString (lev_lgr this) 16) 94)) (\<lambda>st.
     and_then (put_at st (\<lambda>b. write_ascii b (nullpadString (lev_ground this) 10) 110)) (\<lambda>st.
     and_then (put_at st (\<lambda>b. write_ascii b (nullpadString (lev_sky this) 10) 120)) (\<lambda>st.
     and_then (put_at st (\<lambda>b. writeDoubleLE b
                 (double_bits (js_add (js_nat (length (lev_polygons this))) bias_polygons)) 130)) (\<lambda>st.
     and_then (write_polygons (st\<lparr>es_offset := 138\<rparr>) (lev_polygons this)) (\<lambda>st.
     and_then (put st (\<lambda>b off. writeDoubleLE b
                 (double_bits (js_add (js_nat (length (lev_objects this))) bias_polygons)) off) 8) (\<lambda>st.
     and_then (write_objects st (lev_objects this)) (\<lambda>st.
     and_then (put st (\<lambda>b off. writeDoubleLE b
                 (double_bits (js_add (js_nat (length (lev_pictures this))) bias_pictures)) off) 8) (\<lambda>st.
     and_then (write_pictures st (lev_pictures this)) (\<lambda>st.
     put st (\<lambda>b off. writeInt32LE b (EOD_MARKER K) off) 4))))))))))))))"

text \<open>
  \<open>_update\<close>. \<open>_calculateIntegrity\<close> runs first and stores four doubles, which depend
  on \<open>Math.random\<close>: they are the argument \<open>checksums\<close>. The result is the level \<open>this\<close> after
  the call, and the buffer the promise resolves with or the reason it rejects with.
  \<open>copy\<close> writes the bytes of the score block that fit the buffer.
\<close>

definition update :: "markers \<Rightarrow> double list \<Rightarrow> double level \<Rightarrow> double level \<times> (error + buffer)" where
  "update K checksums this0 =
     (let this = this0\<lparr>lev_integrity := checksums\<rparr>;
          st = \<lparr>es_buffer = Buffer_alloc (bufferSize this), es_offset = 0, es_rejected = None\<rparr>
      in if lev_version this \<noteq> ''Elma'' then (this, Inl UnsupportedFormatForWrite)
         else
           case write_level K this st of
             Inl e \<Rightarrow> (this, Inl e)
           | Inr st \<Rightarrow>
               (case top10ToBuffer (lev_top10 this) of
                  (t, Inl e) \<Rightarrow> (this\<lparr>lev_top10 := t\<rparr>, Inl (first_error st e))
                | (t, Inr block) \<Rightarrow>
                    (this\<lparr>lev_top10 := t\<rparr>,
                     case put (st\<lparr>es_buffer := write_at (es_buffer st) (es_offset st) block,
                                    es_offset := es_offset st + 688\<rparr>)
                            (\<lambda>b off. writeInt32LE b (EOF_MARKER K) off) 0 of
                       Inl e \<Rightarrow> Inl e
                     | Inr st \<Rightarrow>
                         (case es_rejected st of
                            Some e \<Rightarrow> Inl e
                          | None \<Rightarrow> Inr (es_buffer st)))))"

text \<open>\<open>toBuffer\<close> is \<open>_update\<close>; encoding, as a function to the buffer.\<close>

definition encode :: "markers \<Rightarrow> double list \<Rightarrow> double level \<Rightarrow> error + buffer" where
  "encode K checksums this = snd (update K checksums this)"

section \<open>The bytes of a level file\<close>

text \<open>
  The bytes the encoder produces for each part of a level, written as one list: the
  file is the concatenation of the header, the three counted lists of records, the
  end-of-data marker, the encrypted score tables and the end-of-file marker.
\<close>

definition double_bytes :: "double \<Rightarrow> byte list" where
  "double_bytes d = le_bytes 8 (uint d)"

definition int32_bytes :: "int \<Rightarrow> byte list" where
  "int32_bytes v = le_bytes 4 (v mod 2 ^ 32)"

definition vertex_bytes :: "double vertex \<Rightarrow> byte list" where
  "vertex_bytes v = double_bytes (vertex_x v) @ double_bytes (vertex_y v)"

definition polygon_bytes :: "double polygon \<Rightarrow> byte list" where
  "polygon_bytes p =
     int32_bytes (if poly_grass p then 1 else 0) @
     int32_bytes (int (length (poly_vertices p))) @
     concat (map vertex_bytes (poly_vertices p))"

definition object_bytes :: "double object \<Rightarrow> byte list" where
  "object_bytes object =
     (case object_codes object of
        Inr (objectType, gravity, Some animation) \<Rightarrow>
          double_bytes (obj_x object) @ double_bytes (obj_y object) @
          int32_bytes objectType @ int32_bytes gravity @ int32_bytes animation
      | _ \<Rightarrow> [])"

definition picture_bytes :: "double picture \<Rightarrow> byte list" where
  "picture_bytes picture =
     (case clip_code (pic_clip picture) of
        Inr clip \<Rightarrow>
          ascii_bytes (nullpadString (pic_name picture) 10) @
          ascii_bytes (nullpadString (pic_texture picture) 10) @
          ascii_bytes (nullpadString (pic_mask picture) 10) @
          double_bytes (pic_x picture) @ double_bytes (pic_y picture) @
          int32_bytes (pic_distance picture) @ int32_bytes clip
      | Inl e \<Rightarrow> [])"

definition count_bytes :: "nat \<Rightarrow> jsnum \<Rightarrow> byte list" where
  "count_bytes n bias = double_bytes (double_bits (js_add (js_nat n) bias))"

definition header_bytes :: "double level \<Rightarrow> byte list" where
  "header_bytes this =
     ascii_bytes ''POT14'' @
     le_bytes 2 (js_and (lev_link this) 0xFFFF) @
     le_bytes 4 (lev_link this) @
     concat (map double_bytes (lev_integrity this)) @
     ascii_bytes (nullpadString (lev_name this) 51) @
     ascii_bytes (nullpadString (lev_lgr this) 16) @
     ascii_bytes (nullpadString (lev_ground this) 10) @
     ascii_bytes (nullpadString (lev_sky this) 10)"

definition score_block :: "top10_lists \<Rightarrow> byte list" where
  "score_block t = (case snd (top10ToBuffer t) of Inr block \<Rightarrow> block | Inl e \<Rightarrow> [])"

definition level_bytes :: "markers \<Rightarrow> double level \<Rightarrow> byte list" where
  "level_bytes K this =
     header_bytes this @
     count_bytes (length (lev_polygons this)) bias_polygons @
     concat (map polygon_bytes (lev_polygons this)) @
     count_bytes (length (lev_objects this)) bias_polygons @
     concat (map object_bytes (lev_objects this)) @
     count_bytes (length (lev_pictures this)) bias_pictures @
     concat (map picture_bytes (lev_pictures this)) @
     int32_bytes (EOD_MARKER K) @
     score_block (lev_top10 this) @
     int32_bytes (EOF_MARKER K)"

text \<open>The same bytes up to the end-of-data marker.\<close>

definition data_bytes :: "markers \<Rightarrow> double level \<Rightarrow> byte list" where
  "data_bytes K this =
     header_bytes this @
     count_bytes (length (lev_polygons this)) bias_polygons @
     concat (map polygon_bytes (lev_polygons this)) @
     count_bytes (length (lev_objects this)) bias_polygons @
     concat (map object_bytes (lev_objects this)) @
     count_bytes (length (lev_pictures this)) bias_pictures @
     concat (map picture_bytes (lev_pictures this)) @
     int32_bytes (EOD_MARKER K)"

text \<open>
  The levels that the format can hold: what \<open>Level\<close> constructs and \<open>_parseFile\<close>
  returns, within the ranges of the fields of the file.
  \<^item> Strings fit their fields; the link is an unsigned 32-bit integer.
  \<^item> An object is an exit, a killer or a start without further properties, or an apple
    with one of the five gravity directions and an animation number whose code
    \<open>animation - 1\<close> is a signed 32-bit integer.
  \<^item> A picture has one of the three clipping modes and a signed 32-bit distance.
  \<^item> The lengths of the lists fit a signed 32-bit integer.
\<close>

definition is_int32 :: "int \<Rightarrow> bool" where
  "is_int32 v \<longleftrightarrow> - (2 ^ 31) \<le> v \<and> v \<le> 2 ^ 31 - 1"

definition valid_polygon :: "double polygon \<Rightarrow> bool" where
  "valid_polygon p \<longleftrightarrow> length (poly_vertices p) < 2 ^ 31"

definition valid_object :: "double object \<Rightarrow> bool" where
  "valid_object object \<longleftrightarrow>
     (if obj_type object = ''apple''
      then obj_gravity object \<in> {Some ''normal'', Some ''up'', Some ''down'', Some ''left'', Some ''right''} \<and>
           (case obj_animation object of None \<Rightarrow> False | Some a \<Rightarrow> is_int32 (a - 1))
      else obj_type object \<in> {''exit'', ''killer'', ''start''} \<and>
           obj_gravity object = None \<and> obj_animation object = None)"

definition valid_picture :: "double picture \<Rightarrow> bool" where
  "valid_picture picture \<longleftrightarrow>
     field_string 10 (pic_name picture) \<and> field_string 10 (pic_texture picture) \<and>
     field_string 10 (pic_mask picture) \<and> is_int32 (pic_distance picture) \<and>
     pic_clip picture \<in> {''unclipped'', ''ground'', ''sky''}"

definition valid_level :: "double level \<Rightarrow> bool" where
  "valid_level this \<longleftrightarrow>
     lev_version this = ''Elma'' \<and>
     0 \<le> lev_link this \<and> lev_link this \<le> 0xFFFFFFFF \<and>
     field_string 51 (lev_name this) \<and> field_string 16 (lev_lgr this) \<and>
     field_string 10 (lev_ground this) \<and> field_string 10 (lev_sky this) \<and>
     length (lev_polygons this) < 2 ^ 31 \<and> list_all valid_polygon (lev_polygons this) \<and>
     length (lev_objects this) < 2 ^ 31 \<and> list_all valid_object (lev_objects this) \<and>
     length (lev_pictures this) < 2 ^ 31 \<and> list_all valid_picture (lev_pictures this)"

text \<open>
  The score tables that \<open>_top10ToBuffer\<close> writes without an exception: every time is
  an unsigned 32-bit integer. The names are any strings.
\<close>

definition score_time :: "entry \<Rightarrow> bool" where
  "score_time e \<longleftrightarrow> 0 \<le> entry_time e \<and> entry_time e \<le> 0xFFFFFFFF"

definition valid_scores :: "top10_lists \<Rightarrow> bool" where
  "valid_scores t \<longleftrightarrow> list_all score_time (top10_single t) \<and> list_all score_time (top10_multi t)"

definition valid_markers :: "markers \<Rightarrow> bool" where
  "valid_markers K \<longleftrightarrow> is_int32 (EOD_MARKER K) \<and> is_int32 (EOF_MARKER K)"

text \<open>
  The score tables come back as they were written when they are already what the
  encoder writes: in ascending order of time, at most ten entries, the times below
  \<open>2\<^sup>3\<^sup>1\<close>.
\<close>

definition stored_scores :: "entry list \<Rightarrow> bool" where
  "stored_scores list \<longleftrightarrow>
     sorted (map entry_time list) \<and> length list \<le> 10 \<and>
     list_all (\<lambda>e. entry_time e < 2 ^ 31) list"

text \<open>
  The state of the encoder while it writes one field after the other: the buffer is
  what has been written so far followed by zeros, the offset is the length of what has
  been written, and nothing has been rejected.
\<close>

definition appended :: "enc_state \<Rightarrow> byte list \<Rightarrow> nat \<Rightarrow> bool" where
  "appended st w m \<longleftrightarrow>
     es_buffer st = w @ replicate m 0 \<and> es_offset st = length w \<and> es_rejected st = None"

text \<open>The bytes of a level with three given count fields in place of the encoder's.\<close>

definition file_bytes :: "markers \<Rightarrow> double level \<Rightarrow> double \<Rightarrow> double \<Rightarrow> double \<Rightarrow> byte list" where
  "file_bytes K this c1 c2 c3 =
     header_bytes this @
     double_bytes c1 @ concat (map polygon_bytes (lev_polygons this)) @
     double_bytes c2 @ concat (map object_bytes (lev_objects this)) @
     double_bytes c3 @ concat (map picture_bytes (lev_pictures this)) @
     int32_bytes (EOD_MARKER K) @
     score_block (lev_top10 this) @
     int32_bytes (EOF_MARKER K)"

text \<open>The number of bytes that the polygon records of a list take in a file.\<close>

definition polygons_size :: "'n polygon list \<Rightarrow> nat" where
  "polygons_size ps = sum_list (map (\<lambda>p. 8 + 16 * length (poly_vertices p)) ps)"

text \<open>
  The count as the specification words it: the field less the bias, rounded to the
  nearest integer. The decoder does not compute this number; it is stated here to be
  compared with the number of records that the decoder reads.
\<close>

definition spec_rounded_count :: "double \<Rightarrow> jsnum \<Rightarrow> int option" where
  "spec_rounded_count d bias =
     (case js_sub (double_value d) bias of Finite t \<Rightarrow> Some (round t) | _ \<Rightarrow> None)"

section \<open>Concrete inputs\<close>

text \<open>
  The markers of the format (their values in the game's files), four checksums, and a
  small level with three polygons, three objects, a picture and the given score lists.
\<close>

definition sample_markers :: markers where
  "sample_markers = \<lparr>EOD_MARKER = 0x0067103A, EOF_MARKER = 0x00845D52\<rparr>"

definition sample_checksums :: "double list" where
  "sample_checksums = [0x40C3880000000000, 0x40D1170000000000, 0x40D1170000000000, 0x40D16C0000000000]"

definition sample_level :: "entry list \<Rightarrow> entry list \<Rightarrow> double level" where
  "sample_level single multi =
     \<lparr>lev_version = ''Elma'', lev_link = 12345, lev_integrity = [0, 0, 0, 0],
      lev_lgr = ''default'', lev_name = ''New level'', lev_ground = ''ground'', lev_sky = ''sky'',
      lev_polygons =
        [\<lparr>poly_grass = False,
          poly_vertices =
            [\<lparr>vertex_x = 0x4024000000000000, vertex_y = 0\<rparr>,
             \<lparr>vertex_x = 0x4024000000000000, vertex_y = 0x401C000000000000\<rparr>,
             \<lparr>vertex_x = 0, vertex_y = 0x401C000000000000\<rparr>,
             \<lparr>vertex_x = 0, vertex_y = 0\<rparr>]\<rparr>,
         \<lparr>poly_grass = True,
          poly_vertices =
            [\<lparr>vertex_x = 0x3FF0000000000000, vertex_y = 0x401C000000000000\<rparr>,
             \<lparr>vertex_x = 0x4000000000000000, vertex_y = 0x4018000000000000\<rparr>,
             \<lparr>vertex_x = 0x4008000000000000, vertex_y = 0x401C000000000000\<rparr>]\<rparr>,
         \<lparr>poly_grass = False,
          poly_vertices =
            [\<lparr>vertex_x = 0x4010000000000000, vertex_y = 0x4000000000000000\<rparr>,
             \<lparr>vertex_x = 0x4014000000000000, vertex_y = 0x4000000000000000\<rparr>,
             \<lparr>vertex_x = 0x4014000000000000, vertex_y = 0x4008000000000000\<rparr>]\<rparr>],
      lev_objects =
        [\<lparr>obj_x = 0x4000000000000000, obj_y = 0x401A666666666666, obj_type = ''start'',
          obj_gravity = None, obj_animation = None\<rparr>,
         \<lparr>obj_x = 0x4014000000000000, obj_y = 0x401A666666666666, obj_type = ''apple'',
          obj_gravity = Some ''left'', obj_animation = Some 5\<rparr>,
         \<lparr>obj_x = 0x4020000000000000, obj_y = 0x401A666666666666, obj_type = ''exit'',
          obj_gravity = None, obj_animation = None\<rparr>],
      lev_pictures =
        [\<lparr>pic_name = ''barrel'', pic_texture = '''', pic_mask = '''',
          pic_x = 0x4008000000000000, pic_y = 0x4010000000000000, pic_distance = 380,
          pic_clip = ''sky''\<rparr>],
      lev_top10 = \<lparr>top10_single = single, top10_multi = multi\<rparr>\<rparr>"

text \<open>
  Files that begin like the file of the sample level and go on with one more object
  record, with the given type and gravity codes, or with one more picture record, with
  the given clip code; the counts say that the record is there.
\<close>

definition file_with_object :: "int \<Rightarrow> int \<Rightarrow> buffer" where
  "file_with_object objType gravity =
     (let this = sample_level [] []
      in header_bytes this @
         count_bytes (length (lev_polygons this)) bias_polygons @
         concat (map polygon_bytes (lev_polygons this)) @
         count_bytes (length (lev_objects this) + 1) bias_polygons @
         concat (map object_bytes (lev_objects this)) @
         double_bytes 0x4000000000000000 @ double_bytes 0x4008000000000000 @
         int32_bytes objType @ int32_bytes gravity @ int32_bytes 0)"

definition file_with_picture :: "int \<Rightarrow> buffer" where
  "file_with_picture clip =
     (let this = sample_level [] []
      in header_bytes this @
         count_bytes (length (lev_polygons this)) bias_polygons @
         concat (map polygon_bytes (lev_polygons this)) @
         count_bytes (length (lev_objects this)) bias_polygons @
         concat (map object_bytes (lev_objects this)) @
         count_bytes (length (lev_pictures this) + 1) bias_pictures @
         concat (map picture_bytes (lev_pictures this)) @
         ascii_bytes (nullpadString ''barrel'' 10) @ ascii_bytes (nullpadString [] 10) @
         ascii_bytes (nullpadString [] 10) @
         double_bytes 0x4000000000000000 @ double_bytes 0x4008000000000000 @
         int32_bytes 380 @ int32_bytes clip)"

text \<open>
  A file whose polygon count field is the number 3.5 and which holds four polygons: the
  sample level with one more polygon, the other two count fields as the encoder writes
  them.
\<close>

definition four_polygons :: "double level" where
  "four_polygons =
     (sample_level [] [])\<lparr>lev_polygons :=
        lev_polygons (sample_level [] []) @
        [\<lparr>poly_grass = True,
          poly_vertices =
            [\<lparr>vertex_x = 0x4018000000000000, vertex_y = 0x4000000000000000\<rparr>,
             \<lparr>vertex_x = 0x401C000000000000, vertex_y = 0x4000000000000000\<rparr>,
             \<lparr>vertex_x = 0x401C000000000000, vertex_y = 0x4008000000000000\<rparr>]\<rparr>]\<rparr>"

definition half_count_file :: buffer where
  "half_count_file =
     file_bytes sample_markers four_polygons 0x400C000000000000
       (double_bits (js_add (js_nat 3) bias_polygons))
       (double_bits (js_add (js_nat 1) bias_pictures))"

section \<open>Properties of the Top10 cipher\<close>


lemma js_and_mask: "n < 32 \<Longrightarrow> js_and a (mask n) = take_bit n a"
  unfolding js_and_def
  apply (rule bit_eqI)
  apply (auto simp add: bit_simps)
  done

lemma js_and_FF: "js_and a 0xFF = take_bit 8 a"
  using js_and_mask [of 8 a] by (simp add: mask_eq_exp_minus_1)

lemma js_and_FFFF: "js_and a 0xFFFF = take_bit 16 a"
  using js_and_mask [of 16 a] by (simp add: mask_eq_exp_minus_1)

lemma js_and_exp: "n < 31 \<Longrightarrow> js_and a (2 ^ n) = 2 ^ n * of_bool (bit a n)"
  unfolding js_and_def
  apply (rule bit_eqI)
  apply (auto simp add: bit_simps)
  done

lemma js_and_8000: "js_and a 0x8000 = 2 ^ 15 * of_bool (bit a 15)"
  using js_and_exp [of 15 a] by simp

lemma byte_store:
  "(word_of_int (js_xor (uint (x::byte)) (js_and a 0xFF)) :: byte) = x XOR word_of_int a"
  unfolding js_xor_def js_and_FF
  apply (rule bit_word_eqI)
  apply (auto simp add: bit_simps)
  done

lemma next_ebp8_signed: "next_ebp8 b = signed_take_bit 15 (b * 0x1F + 0xD3D)"
  unfolding next_ebp8_def Let_def js_and_FFFF js_and_8000
  by (simp add: signed_take_bit_eq_take_bit_minus)

lemma length_xor_at [simp]: "length (xor_at out i a) = length out"
  by (simp add: xor_at_def)

lemma nth_xor_at:
  "j < length out \<Longrightarrow>
   xor_at out i a ! j = (if j = i then out ! j XOR word_of_int a else out ! j)"
  by (simp add: xor_at_def byte_store)

lemma length_crypt_loop [simp]: "length (crypt_loop i a b out) = length out"
proof (induction i a b out rule: crypt_loop.induct)
  case (1 i a b out)
  show ?case
  proof (cases "i < 688")
    case True
    then show ?thesis
      using "1.IH" [OF True refl refl refl]
      by (subst crypt_loop.simps) (simp add: Let_def)
  next
    case False
    then show ?thesis by (subst crypt_loop.simps) simp
  qed
qed

lemma nth_crypt_loop:
  "j < length out \<Longrightarrow>
   crypt_loop i a b out ! j =
     (if i \<le> j \<and> j < 688 then out ! j XOR word_of_int (fst (key_after (j - i) a b))
      else out ! j)"
proof (induction i a b out rule: crypt_loop.induct)
  case (1 i a b out)
  show ?case
  proof (cases "i < 688")
    case True
    let ?b = "next_ebp10 a b"
    let ?a = "next_ebp8 ?b"
    have step: "crypt_loop i a b out = crypt_loop (i + 1) ?a ?b (xor_at out i a)"
      using True by (subst crypt_loop.simps) (simp add: Let_def)
    have IH: "crypt_loop (i + 1) ?a ?b (xor_at out i a) ! j =
       (if i + 1 \<le> j \<and> j < 688
        then xor_at out i a ! j XOR word_of_int (fst (key_after (j - (i + 1)) ?a ?b))
        else xor_at out i a ! j)"
      using "1.IH" [OF True refl refl refl] "1.prems" by simp
    consider "j < i" | "j = i" | "i < j" by linarith
    then show ?thesis
    proof cases
      case 1
      then show ?thesis using step IH "1.prems" by (simp add: nth_xor_at)
    next
      case 2
      then show ?thesis using step IH "1.prems" True by (simp add: nth_xor_at)
    next
      case 3
      then have "j - i = Suc (j - (i + 1))" by simp
      then have "key_after (j - i) a b = key_after (j - (i + 1)) ?a ?b"
        by simp
      then show ?thesis using step IH "1.prems" 3 by (simp add: nth_xor_at)
    qed
  next
    case False
    then show ?thesis by (subst crypt_loop.simps) auto
  qed
qed

lemma crypt_loop_twice: "crypt_loop i a b (crypt_loop i a b out) = out"
  by (rule nth_equalityI) (simp_all add: nth_crypt_loop xor.assoc)

lemma cryptTop10_twice: "cryptTop10 (cryptTop10 x) = x"
  by (simp add: cryptTop10_def crypt_loop_twice)

lemma cryptTop10_store_frame:
  "r < length s \<Longrightarrow>
   cryptTop10_store s r = (s', out) \<Longrightarrow>
   take (length s) s' = s \<and> out = length s \<and> s' ! out = cryptTop10 (s ! r)"
  by (auto simp add: cryptTop10_store_def Buffer_from_def cryptTop10_def nth_append)


lemma js_rem_trunc_mod: "js_rem a 0xD3D = trunc_mod a 0xD3D"
  by (simp add: js_rem_def trunc_mod_def sgn_if)

lemma wrap_int32_signed: "wrap_int32 v = signed_take_bit 31 v"
  by (simp add: wrap_int32_def signed_take_bit_eq_take_bit_shift take_bit_eq_mod)

lemma wrap_int32_cong: "take_bit 32 v = take_bit 32 w \<Longrightarrow> wrap_int32 v = wrap_int32 w"
  unfolding wrap_int32_signed by (simp add: signed_take_bit_eq_iff_take_bit_eq)

lemma take_bit_wrap_int32: "take_bit n (wrap_int32 v) = take_bit n v" if "n \<le> 32"
  unfolding wrap_int32_signed using that by (simp add: take_bit_signed_take_bit)

lemma spec_key2_step: "spec_key2 a (wrap_int32 b) = wrap_int32 (next_ebp10 a b)"
  unfolding spec_key2_def next_ebp10_def js_rem_trunc_mod
  apply (rule wrap_int32_cong)
  apply (subst take_bit_add [symmetric])
  apply (simp add: take_bit_wrap_int32)
  apply (simp add: take_bit_add)
  done

lemma signed16_if:
  "signed_take_bit 15 v = (if v mod 0x10000 \<ge> 0x8000 then v mod 0x10000 - 0x10000 else v mod 0x10000)"
  for v :: int
proof -
  define m where "m = v mod 0x10000"
  have m: "0 \<le> m" "m < 0x10000" by (simp_all add: m_def)
  have "signed_take_bit 15 v = (v + 0x8000) mod 0x10000 - 0x8000"
    by (simp add: signed_take_bit_eq_take_bit_shift take_bit_eq_mod)
  also have "(v + 0x8000) mod 0x10000 = (m + 0x8000) mod 0x10000"
    unfolding m_def by (simp add: mod_simps)
  also have "\<dots> = (if m \<ge> 0x8000 then m - 0x8000 else m + 0x8000)"
  proof (cases "m \<ge> 0x8000")
    case True
    have e: "m + 0x8000 = (m - 0x8000) + 0x10000" by simp
    have "(m + 0x8000) mod 0x10000 = (m - 0x8000) mod 0x10000"
      by (simp only: e mod_add_self2)
    also have "\<dots> = m - 0x8000" using True m by (intro mod_pos_pos_trivial) simp_all
    finally show ?thesis using True by simp
  next
    case False
    then have "(m + 0x8000) mod 0x10000 = m + 0x8000"
      using m by (intro mod_pos_pos_trivial) simp_all
    then show ?thesis using False by simp
  qed
  finally show ?thesis unfolding m_def by simp
qed

lemma spec_key1_signed: "spec_key1 k = signed_take_bit 15 (k * 0x1F + 0xD3D)"
  unfolding spec_key1_def Let_def signed16_if by simp

lemma signed16_cong:
  "take_bit 16 v = take_bit 16 w \<Longrightarrow> signed_take_bit 15 v = signed_take_bit 15 (w :: int)"
  by (simp add: signed_take_bit_eq_iff_take_bit_eq)

lemma spec_key1_step: "spec_key1 (wrap_int32 b) = next_ebp8 b"
  unfolding spec_key1_signed next_ebp8_signed
  apply (rule signed16_cong)
  apply (subst take_bit_add [symmetric])
  apply (subst take_bit_mult [symmetric])
  apply (simp add: take_bit_wrap_int32)
  apply (simp add: take_bit_eq_mod mod_simps)
  done

lemma spec_key_after_eq:
  "spec_key_after n a (wrap_int32 b) = (fst (key_after n a b), wrap_int32 (snd (key_after n a b)))"
  by (induction n arbitrary: a b) (simp_all add: spec_key2_step spec_key1_step)

lemma length_spec_stream [simp]: "length (spec_stream n k1 k2 bs) = length bs"
  by (induction n k1 k2 bs rule: spec_stream.induct) simp_all

lemma nth_spec_stream:
  "j < length bs \<Longrightarrow>
   spec_stream n k1 k2 bs ! j =
     (if j < n then bs ! j XOR word_of_int (fst (spec_key_after j k1 k2)) else bs ! j)"
proof (induction n k1 k2 bs arbitrary: j rule: spec_stream.induct)
  case (3 n key1 key2 b bs)
  have low: "(word_of_int (key1 AND 0xFF) :: byte) = word_of_int key1"
    using take_bit_eq_mask [of 8 key1, symmetric] wi_bintr [of 8 key1, where ?'a = 8]
    by (simp add: mask_eq_exp_minus_1)
  show ?case
  proof (cases j)
    case 0
    then show ?thesis by (simp add: low)
  next
    case (Suc j')
    then show ?thesis using 3 by simp
  qed
qed simp_all

lemma wrap_int32_small: "wrap_int32 0x2637 = 0x2637"
  by (simp add: wrap_int32_def)

lemma cryptTop10_spec: "cryptTop10 x = spec_cipher x"
proof (rule nth_equalityI)
  show "length (cryptTop10 x) = length (spec_cipher x)"
    by (simp add: cryptTop10_def spec_cipher_def)
next
  fix j assume "j < length (cryptTop10 x)"
  then have j: "j < length x" by (simp add: cryptTop10_def)
  have "spec_key_after j 0x15 0x2637 = spec_key_after j 0x15 (wrap_int32 0x2637)"
    by (simp only: wrap_int32_small)
  then have "fst (spec_key_after j 0x15 0x2637) = fst (key_after j 0x15 0x2637)"
    by (simp only: spec_key_after_eq fst_conv)
  then show "cryptTop10 x ! j = spec_cipher x ! j"
    using j by (simp add: cryptTop10_def spec_cipher_def nth_crypt_loop nth_spec_stream)
qed


subsection \<open>The integers of the loop are exact in double arithmetic\<close>

lemma next_ebp8_range: "\<bar>next_ebp8 b\<bar> \<le> 0x8000"
proof -
  have "- (2 ^ 15) \<le> signed_take_bit 15 (b * 0x1F + 0xD3D)"
    by (rule signed_take_bit_int_greater_eq_minus_exp)
  moreover have "signed_take_bit 15 (b * 0x1F + 0xD3D) < 2 ^ 15"
    by (rule signed_take_bit_int_less_exp)
  ultimately show ?thesis unfolding next_ebp8_signed by simp
qed

lemma js_rem_range: "\<bar>js_rem a 0xD3D\<bar> < 0xD3D"
proof (cases "a < 0")
  case True
  have "0 \<le> (- a) mod 0xD3D" "(- a) mod 0xD3D < 0xD3D" by simp_all
  moreover have "js_rem a 0xD3D = - ((- a) mod 0xD3D)"
    using True by (simp add: js_rem_def)
  ultimately show ?thesis by linarith
next
  case False
  have "0 \<le> a mod 0xD3D" "a mod 0xD3D < 0xD3D" by simp_all
  moreover have "js_rem a 0xD3D = a mod 0xD3D"
    using False by (simp add: js_rem_def)
  ultimately show ?thesis by linarith
qed

lemma next_ebp10_range: "\<bar>next_ebp10 a b\<bar> \<le> \<bar>b\<bar> + 0xD3D * 0xD3D"
proof -
  have "\<bar>js_rem a 0xD3D * 0xD3D\<bar> = \<bar>js_rem a 0xD3D\<bar> * 0xD3D"
    by (simp add: abs_mult)
  also have "\<dots> \<le> 0xD3D * 0xD3D"
    using js_rem_range [of a] by simp
  finally show ?thesis unfolding next_ebp10_def by linarith
qed

lemma key_after_range:
  "\<bar>a\<bar> \<le> 0x8000 \<Longrightarrow>
   \<bar>fst (key_after n a b)\<bar> \<le> 0x8000 \<and>
   \<bar>snd (key_after n a b)\<bar> \<le> \<bar>b\<bar> + int n * (0xD3D * 0xD3D)"
proof (induction n arbitrary: a b)
  case 0
  then show ?case by simp
next
  case (Suc n)
  let ?b = "next_ebp10 a b"
  have "\<bar>snd (key_after n (next_ebp8 ?b) ?b)\<bar> \<le> \<bar>?b\<bar> + int n * (0xD3D * 0xD3D)"
    and "\<bar>fst (key_after n (next_ebp8 ?b) ?b)\<bar> \<le> 0x8000"
    using Suc.IH [OF next_ebp8_range [of ?b], of ?b] by simp_all
  then show ?case
    using next_ebp10_range [of a b] by (simp add: algebra_simps)
qed

lemma crypt_values_safe:
  assumes "n \<le> 688"
  shows "\<bar>fst (key_after n 0x15 0x2637)\<bar> < 2 ^ 53"
    and "\<bar>snd (key_after n 0x15 0x2637)\<bar> < 2 ^ 53"
    and "\<bar>snd (key_after n 0x15 0x2637) * 0x1F + 0xD3D\<bar> < 2 ^ 53"
proof -
  have r: "\<bar>fst (key_after n 0x15 0x2637)\<bar> \<le> 0x8000"
    "\<bar>snd (key_after n 0x15 0x2637)\<bar> \<le> 0x2637 + int n * (0xD3D * 0xD3D)"
    using key_after_range [of "0x15" n "0x2637"] by simp_all
  have "int n \<le> 688" using assms by simp
  then have b: "\<bar>snd (key_after n 0x15 0x2637)\<bar> \<le> 7901910631"
    using r(2) by simp
  show "\<bar>fst (key_after n 0x15 0x2637)\<bar> < 2 ^ 53" using r(1) by simp
  show "\<bar>snd (key_after n 0x15 0x2637)\<bar> < 2 ^ 53" using b by simp
  show "\<bar>snd (key_after n 0x15 0x2637) * 0x1F + 0xD3D\<bar> < 2 ^ 53" using b by simp
qed

subsection \<open>The claims about the cipher\<close>

text \<open>
  C2. For every 688-byte input buffer, applying the Top10 cipher twice returns the
  original input, and the cipher does not mutate the buffer it is given: on the store,
  every buffer that existed before the call is unchanged, and the result is a new
  buffer that holds the cipher of the input.
\<close>

theorem cryptTop10_involution:
  assumes "length x = 688" and "r < length s" and "s ! r = x"
  shows "cryptTop10 (cryptTop10 x) = x \<and> length (cryptTop10 x) = 688 \<and>
    (case cryptTop10_store s r of
       (s', out) \<Rightarrow> take (length s) s' = s \<and> out = length s \<and> s' ! out = cryptTop10 x)"
proof -
  obtain s' out where st: "cryptTop10_store s r = (s', out)"
    by (cases "cryptTop10_store s r")
  have fr: "take (length s) s' = s \<and> out = length s \<and> s' ! out = cryptTop10 (s ! r)"
    using assms(2) st by (rule cryptTop10_store_frame)
  have a: "take (length s) s' = s" using fr by blast
  have b: "out = length s" using fr by blast
  have "s' ! out = cryptTop10 (s ! r)" using fr by blast
  then have c: "s' ! out = cryptTop10 x" by (simp only: assms(3))
  have len: "length (cryptTop10 x) = 688"
    using assms(1) by (simp add: cryptTop10_def)
  show ?thesis
    unfolding st prod.case by (intro conjI a b c len cryptTop10_twice)
qed

text \<open>
  C3. The key stream of the cipher follows the recurrence of the specification: the
  function of the source and the recurrence written from the specification's words
  (\<open>spec_cipher\<close>: 32-bit signed wrap-around of \<open>key2\<close>, truncating remainder, \<open>key1\<close>
  masked to 16 bits and read as signed) give the same output on every input.
\<close>

theorem cryptTop10_recurrence:
  "cryptTop10 input = spec_cipher input"
  by (rule cryptTop10_spec)


theorem cryptTop10_involution_witness:
  "length (replicate 688 (0 :: byte)) = 688 \<and>
   (0 :: nat) < length [replicate 688 (0 :: byte)] \<and>
   (cryptTop10 (cryptTop10 (replicate 688 0)) = replicate 688 0 \<and>
    length (cryptTop10 (replicate 688 0)) = 688 \<and>
    (case cryptTop10_store [replicate 688 0] 0 of
       (s', out) \<Rightarrow> take (length [replicate 688 (0 :: byte)]) s' = [replicate 688 0] \<and>
         out = length [replicate 688 (0 :: byte)] \<and>
         s' ! out = cryptTop10 (replicate 688 0)))"
proof -
  have l: "length (replicate 688 (0 :: byte)) = 688" by simp
  have r: "(0 :: nat) < length [replicate 688 (0 :: byte)]" by simp
  have e: "[replicate 688 (0 :: byte)] ! 0 = replicate 688 0" by simp
  show ?thesis
    by (rule conjI [OF l conjI [OF r cryptTop10_involution [OF l r e]]])
qed

theorem cryptTop10_recurrence_witness:
  "cryptTop10 [0x50, 0x4F, 0x54] = spec_cipher [0x50, 0x4F, 0x54] \<and>
   spec_cipher [0x50, 0x4F, 0x54] = [0x45, 0x4A, 0x3E]"
proof -
  have "spec_cipher [0x50, 0x4F, 0x54] = [0x45, 0x4A, 0x3E]" by code_simp
  then show ?thesis using cryptTop10_recurrence [of "[0x50, 0x4F, 0x54]"] by simp
qed

section \<open>Properties of the integer and string fields\<close>


lemma and_then_Inr [simp]: "and_then (Inr v) f = f v"
  by (simp add: and_then_def)

lemma and_then_Inl [simp]: "and_then (Inl e) f = Inl e"
  by (simp add: and_then_def)

lemma length_le_bytes [simp]: "length (le_bytes k v) = k"
  by (induction k arbitrary: v) simp_all

lemma uint_byte_mod: "uint (word_of_int (v mod 256) :: byte) = v mod 256"
  by (simp add: uint_word_of_int take_bit_eq_mod)

lemma le_int_le_bytes: "le_int (le_bytes k v) = v mod 256 ^ k"
proof (induction k arbitrary: v)
  case 0
  then show ?case by simp
next
  case (Suc k)
  have "v mod (256 * 256 ^ k) = 256 * (v div 256 mod 256 ^ k) + v mod 256"
    by (rule zmod_zmult2_eq) simp
  then show ?case using Suc by (simp add: uint_byte_mod)
qed

lemma le_int_le_bytes_id: "0 \<le> v \<Longrightarrow> v < 256 ^ k \<Longrightarrow> le_int (le_bytes k v) = v"
  by (simp add: le_int_le_bytes)

lemma le_int_range: "0 \<le> le_int bs \<and> le_int bs < 256 ^ length bs"
proof (induction bs)
  case Nil
  then show ?case by simp
next
  case (Cons b bs)
  have "0 \<le> uint b" "uint b < 256" using uint_bounded [of b] by simp_all
  then show ?case using Cons by simp
qed

lemma to_int32_small: "0 \<le> v \<Longrightarrow> v < 2 ^ 31 \<Longrightarrow> to_int32 v = v"
  by (simp add: to_int32_def)

lemma to_int32_big: "2 ^ 31 \<le> v \<Longrightarrow> to_int32 v = v - 2 ^ 32"
  by (simp add: to_int32_def)



lemma unat_of_char_byte: "unat (of_char c :: byte) = of_char c"
proof -
  have "(of_char c :: byte) = of_nat (of_char c)" by (simp only: of_nat_of_char)
  moreover have "(of_char c :: nat) < 256" by (rule nat_of_char_less_256)
  ultimately show ?thesis by (simp add: unat_of_nat take_bit_nat_eq_self)
qed

lemma of_char_byte_eq_0: "(of_char c :: byte) = 0 \<longleftrightarrow> c = CHR 0x00"
proof -
  have "(of_char c :: byte) = 0 \<longleftrightarrow> unat (of_char c :: byte) = 0"
    by (simp add: unat_eq_0)
  also have "\<dots> \<longleftrightarrow> (of_char c :: nat) = of_char (CHR 0x00)"
    by (simp add: unat_of_char_byte)
  also have "\<dots> \<longleftrightarrow> c = CHR 0x00"
    by (rule of_char_eq_iff)
  finally show ?thesis .
qed

lemma ascii_char_roundtrip:
  assumes "(of_char c :: nat) < 128"
  shows "char_of (unat ((of_char c :: byte) AND 0x7F)) = c"
proof -
  have "unat (of_char c :: byte) < 2 ^ 7" using assms by (simp add: unat_of_char_byte)
  then have "(of_char c :: byte) < 2 ^ 7"
    by (simp add: word_less_nat_alt)
  then have "(of_char c :: byte) AND mask 7 = of_char c"
    by (rule less_mask_eq)
  then have "(of_char c :: byte) AND 0x7F = of_char c"
    by (simp add: mask_eq_exp_minus_1)
  then show ?thesis by (simp add: unat_of_char_byte)
qed

lemma ascii_string_ascii_bytes:
  "list_all (\<lambda>c. (of_char c :: nat) < 128) s \<Longrightarrow> ascii_string (ascii_bytes s) = s"
  by (induction s) (simp_all add: ascii_string_def ascii_bytes_def ascii_char_roundtrip)

lemma utf8_bytes_ascii:
  "list_all (\<lambda>c. (of_char c :: nat) < 128) s \<Longrightarrow> utf8_bytes s = ascii_bytes s"
  by (induction s) (simp_all add: utf8_bytes_def ascii_bytes_def utf8_char_def)

lemma length_nullpadString [simp]: "length (nullpadString s n) = n"
  by (simp add: nullpadString_def)

lemma length_ascii_bytes [simp]: "length (ascii_bytes s) = length s"
  by (simp add: ascii_bytes_def)

lemma drop_trailing_spaces_id: "s = [] \<or> last s \<noteq> CHR '' '' \<Longrightarrow> drop_trailing_spaces s = s"
  by (cases s rule: rev_cases) (auto simp add: drop_trailing_spaces_def)

lemma takeWhile_nonzero_padded:
  assumes "list_all (\<lambda>c. c \<noteq> CHR 0x00) s"
  shows "takeWhile (\<lambda>b. b \<noteq> 0) (ascii_bytes s @ replicate k (0 :: byte)) = ascii_bytes s"
proof -
  have "\<forall>b \<in> set (ascii_bytes s). b \<noteq> 0"
    using assms by (auto simp add: ascii_bytes_def list_all_iff of_char_byte_eq_0)
  then show ?thesis
    by (cases k) (simp_all add: takeWhile_eq_all_conv [THEN iffD2])
qed

lemma trimString_nullpadString:
  assumes "field_string n s"
  shows "trimString (ascii_bytes (nullpadString s n)) = s"
proof -
  have len: "length s \<le> n"
    and chars: "list_all (\<lambda>c. (of_char c :: nat) < 128 \<and> c \<noteq> CHR 0x00) s"
    and last: "s = [] \<or> last s \<noteq> CHR '' ''"
    using assms by (simp_all add: field_string_def)
  have a: "list_all (\<lambda>c. (of_char c :: nat) < 128) s" and z: "list_all (\<lambda>c. c \<noteq> CHR 0x00) s"
    using chars by (simp_all add: list_all_iff)
  have "ascii_bytes (nullpadString s n) = ascii_bytes s @ replicate (n - length s) 0"
    using len by (simp add: nullpadString_def ascii_bytes_def)
  then have "takeWhile (\<lambda>b. b \<noteq> 0) (ascii_bytes (nullpadString s n)) = ascii_bytes s"
    using takeWhile_nonzero_padded [OF z] by simp
  then show ?thesis
    by (simp add: trimString_def ascii_string_ascii_bytes [OF a] drop_trailing_spaces_id [OF last])
qed

lemma nullpadString_ascii:
  "list_all (\<lambda>c. (of_char c :: nat) < 128) s \<Longrightarrow>
   list_all (\<lambda>c. (of_char c :: nat) < 128) (nullpadString s n)"
  by (auto simp add: nullpadString_def list_all_iff dest: in_set_takeD)



lemma length_write_at [simp]:
  "offset \<le> length buffer \<Longrightarrow> length (write_at buffer offset bs) = length buffer"
  by (auto simp add: write_at_def)

lemma write_at_append_right:
  "length a \<le> offset \<Longrightarrow> write_at (a @ b) offset bs = a @ write_at b (offset - length a) bs"
  by (simp add: write_at_def add.commute)

lemma write_at_append_left:
  "offset + length bs \<le> length a \<Longrightarrow> write_at (a @ b) offset bs = write_at a offset bs @ b"
  by (simp add: write_at_def)

lemma write_at_start:
  "length bs \<le> length b \<Longrightarrow> write_at b 0 bs = bs @ drop (length bs) b"
  by (simp add: write_at_def)

lemma write_at_zeros:
  "length bs \<le> n \<Longrightarrow> write_at (replicate n 0) 0 bs = bs @ replicate (n - length bs) 0"
  by (simp add: write_at_def)

text \<open>Writing right after a prefix, into zeros.\<close>

lemma write_at_prefix_zeros:
  "length bs \<le> n \<Longrightarrow>
   write_at (a @ replicate n 0 @ c) (length a) bs = a @ bs @ replicate (n - length bs) 0 @ c"
  by (simp add: write_at_def)

lemma slice_append_exact:
  "slice (a @ b @ c) (length a) (length a + length b) = b"
  by (simp add: slice_def)

lemma slice_chunk:
  assumes "\<forall>c \<in> set chunks. length c = k" and "i < length chunks"
  shows "slice (a @ concat chunks @ rest) (length a + i * k) (length a + i * k + k) = chunks ! i"
  using assms
proof (induction chunks arbitrary: a i)
  case Nil
  then show ?case by simp
next
  case (Cons c chunks)
  show ?case
  proof (cases i)
    case 0
    then show ?thesis using Cons.prems by (simp add: slice_def)
  next
    case (Suc i')
    have "slice ((a @ c) @ concat chunks @ rest) (length (a @ c) + i' * k) (length (a @ c) + i' * k + k) = chunks ! i'"
      using Cons.prems Suc by (intro Cons.IH) simp_all
    then show ?thesis using Cons.prems Suc by (simp add: add_ac)
  qed
qed


section \<open>Properties of the score tables\<close>


lemma length_concat_fixed:
  "\<forall>c \<in> set chunks. length c = w \<Longrightarrow> length (concat chunks) = w * length chunks"
  by (induction chunks) simp_all

lemma length_slots:
  "\<forall>c \<in> set chunks. length c = w \<Longrightarrow> length chunks \<le> 10 \<Longrightarrow> length (slots w chunks) = w * 10"
  using length_concat_fixed [of chunks w]
  by (simp add: slots_def flip: distrib_left)

lemma write_slot:
  assumes "\<forall>c \<in> set chunks. length c = w" and "length chunks < 10" and "length bs = w"
  shows "write_at (a @ slots w chunks @ rest) (length a + w * length chunks) bs =
         a @ slots w (chunks @ [bs]) @ rest"
proof -
  have n: "w * (10 - length chunks) = w + w * (10 - Suc (length chunks))"
    using assms(2) by (metis Suc_diff_Suc mult_Suc_right)
  have "write_at ((a @ concat chunks) @ replicate (w * (10 - length chunks)) 0 @ rest)
          (length (a @ concat chunks)) bs =
        (a @ concat chunks) @ bs @ replicate (w * (10 - length chunks) - length bs) 0 @ rest"
    by (rule write_at_prefix_zeros) (simp add: assms(3) n)
  then show ?thesis
    using assms length_concat_fixed [of chunks w] by (simp add: slots_def n)
qed

lemma slot_slice:
  assumes "\<forall>c \<in> set chunks. length c = w" and "i < length chunks"
  shows "slice (a @ slots w chunks @ rest) (length a + i * w) (length a + i * w + w) = chunks ! i"
  using slice_chunk [OF assms, of a "replicate (w * (10 - length chunks)) 0 @ rest"]
  by (simp add: slots_def)



lemma write_entries_skip: "10 \<le> i \<Longrightarrow> write_entries list i buffer = Inr buffer"
proof (induction "length list - i" arbitrary: i)
  case 0
  then show ?case by (subst write_entries.simps) simp
next
  case (Suc k)
  then have "write_entries list (i + 1) buffer = Inr buffer" by simp
  then show ?case using Suc.prems by (subst write_entries.simps) simp
qed

lemma score_entry_ascii:
  assumes "score_entry e"
  shows "utf8_bytes (nullpadString (entry_name1 e) 15) = ascii_bytes (nullpadString (entry_name1 e) 15)"
    and "utf8_bytes (nullpadString (entry_name2 e) 15) = ascii_bytes (nullpadString (entry_name2 e) 15)"
proof -
  have "list_all (\<lambda>c. (of_char c :: nat) < 128) (entry_name1 e)"
    and "list_all (\<lambda>c. (of_char c :: nat) < 128) (entry_name2 e)"
    using assms by (simp_all add: score_entry_def field_string_def list_all_iff)
  then show "utf8_bytes (nullpadString (entry_name1 e) 15) = ascii_bytes (nullpadString (entry_name1 e) 15)"
    and "utf8_bytes (nullpadString (entry_name2 e) 15) = ascii_bytes (nullpadString (entry_name2 e) 15)"
    by (simp_all add: utf8_bytes_ascii nullpadString_ascii)
qed

lemma write_entries_layout:
  assumes valid: "\<forall>e \<in> set list. score_entry e"
    and i: "i \<le> min (length list) 10"
    and C: "length C = 4"
  shows "write_entries list i
           (C @ slots 4 (map (\<lambda>e. le_bytes 4 (entry_time e)) (take i list)) @
            slots 15 (map (\<lambda>e. ascii_bytes (nullpadString (entry_name1 e) 15)) (take i list)) @
            slots 15 (map (\<lambda>e. ascii_bytes (nullpadString (entry_name2 e) 15)) (take i list))) =
         Inr (C @ slots 4 (map (\<lambda>e. le_bytes 4 (entry_time e)) (take 10 list)) @
            slots 15 (map (\<lambda>e. ascii_bytes (nullpadString (entry_name1 e) 15)) (take 10 list)) @
            slots 15 (map (\<lambda>e. ascii_bytes (nullpadString (entry_name2 e) 15)) (take 10 list)))"
  using i
proof (induction "min (length list) 10 - i" arbitrary: i)
  case 0
  then have eq: "i = min (length list) 10" by simp
  show ?case
  proof (cases "length list < 10")
    case True
    then have "i = length list" using eq by simp
    then show ?thesis using True by (subst write_entries.simps) simp
  next
    case False
    then have "i = 10" using eq by simp
    then show ?thesis by (simp add: write_entries_skip)
  qed
next
  case (Suc k)
  let ?tb = "\<lambda>e. le_bytes 4 (entry_time e)"
  let ?n1 = "\<lambda>e. ascii_bytes (nullpadString (entry_name1 e) 15)"
  let ?n2 = "\<lambda>e. ascii_bytes (nullpadString (entry_name2 e) 15)"
  let ?T = "map ?tb (take i list)" and ?N1 = "map ?n1 (take i list)" and ?N2 = "map ?n2 (take i list)"
  let ?e = "list ! i"
  from Suc.hyps(2) Suc.prems have lt: "i < length list" "i < 10" by simp_all
  then have e: "score_entry ?e" using valid by simp
  have lens: "length ?T = i" "length ?N1 = i" "length ?N2 = i" using lt by simp_all
  have fixed: "\<forall>c \<in> set ?T. length c = 4" "\<forall>c \<in> set ?N1. length c = 15" "\<forall>c \<in> set ?N2. length c = 15"
    by simp_all
  have fixed': "\<forall>c \<in> set (?T @ [?tb ?e]). length c = 4" "\<forall>c \<in> set (?N1 @ [?n1 ?e]). length c = 15"
    by simp_all
  have sl: "length (slots 4 ?T) = 40" "length (slots 15 ?N1) = 150" "length (slots 15 ?N2) = 150"
    "length (slots 4 (?T @ [?tb ?e])) = 40" "length (slots 15 (?N1 @ [?n1 ?e])) = 150"
    using lt by (simp_all add: length_slots)
  have w1: "writeUInt32LE (C @ slots 4 ?T @ slots 15 ?N1 @ slots 15 ?N2) (entry_time ?e) (4 + 4 * i) =
      Inr (C @ slots 4 (?T @ [?tb ?e]) @ slots 15 ?N1 @ slots 15 ?N2)"
  proof -
    have "write_at (C @ slots 4 ?T @ (slots 15 ?N1 @ slots 15 ?N2)) (length C + 4 * length ?T) (?tb ?e) =
        C @ slots 4 (?T @ [?tb ?e]) @ (slots 15 ?N1 @ slots 15 ?N2)"
      using lt by (intro write_slot fixed) (simp_all add: lens)
    then show ?thesis
      using e lt by (simp add: writeUInt32LE_def score_entry_def C sl lens)
  qed
  have w2: "write_utf8 (C @ slots 4 (?T @ [?tb ?e]) @ slots 15 ?N1 @ slots 15 ?N2)
        (nullpadString (entry_name1 ?e) 15) (44 + 15 * i) =
      Inr (C @ slots 4 (?T @ [?tb ?e]) @ slots 15 (?N1 @ [?n1 ?e]) @ slots 15 ?N2)"
  proof -
    have "write_at ((C @ slots 4 (?T @ [?tb ?e])) @ slots 15 ?N1 @ slots 15 ?N2)
          (length (C @ slots 4 (?T @ [?tb ?e])) + 15 * length ?N1) (?n1 ?e) =
        (C @ slots 4 (?T @ [?tb ?e])) @ slots 15 (?N1 @ [?n1 ?e]) @ slots 15 ?N2"
      using lt by (intro write_slot fixed) (simp_all add: lens)
    then show ?thesis
      using lt by (simp add: write_utf8_def score_entry_ascii [OF e] C sl lens)
  qed
  have w3: "write_utf8 (C @ slots 4 (?T @ [?tb ?e]) @ slots 15 (?N1 @ [?n1 ?e]) @ slots 15 ?N2)
        (nullpadString (entry_name2 ?e) 15) (194 + 15 * i) =
      Inr (C @ slots 4 (?T @ [?tb ?e]) @ slots 15 (?N1 @ [?n1 ?e]) @ slots 15 (?N2 @ [?n2 ?e]))"
  proof -
    have "write_at ((C @ slots 4 (?T @ [?tb ?e]) @ slots 15 (?N1 @ [?n1 ?e])) @ slots 15 ?N2 @ [])
          (length (C @ slots 4 (?T @ [?tb ?e]) @ slots 15 (?N1 @ [?n1 ?e])) + 15 * length ?N2) (?n2 ?e) =
        (C @ slots 4 (?T @ [?tb ?e]) @ slots 15 (?N1 @ [?n1 ?e])) @ slots 15 (?N2 @ [?n2 ?e]) @ []"
      using lt by (intro write_slot fixed) (simp_all add: lens)
    then show ?thesis
      using lt by (simp add: write_utf8_def score_entry_ascii [OF e] C sl lens)
  qed
  have tk: "take (Suc i) list = take i list @ [?e]"
    using lt by (simp add: take_Suc_conv_app_nth)
  have k: "k = min (length list) 10 - Suc i" using Suc.hyps(2) by simp
  have i': "Suc i \<le> min (length list) 10" using lt by simp
  have IH: "write_entries list (Suc i)
           (C @ slots 4 (?T @ [?tb ?e]) @ slots 15 (?N1 @ [?n1 ?e]) @ slots 15 (?N2 @ [?n2 ?e])) =
         Inr (C @ slots 4 (map ?tb (take 10 list)) @ slots 15 (map ?n1 (take 10 list)) @
            slots 15 (map ?n2 (take 10 list)))"
    using Suc.hyps(1) [OF k i'] by (simp add: tk)
  show ?case
    by (subst write_entries.simps) (simp add: lt w1 w2 w3 IH)
qed


lemma top10_table_layout:
  assumes "\<forall>e \<in> set list. score_entry e"
  shows "top10_table list = Inr (table_layout (take 10 list))"
proof -
  define c where "c = (if length list \<ge> 10 then 10 else int (length list))"
  have c: "c = int (length (take 10 list))" by (simp add: c_def)
  have c4: "length (le_bytes 4 c) = 4" by simp
  have z: "replicate 340 (0 :: byte) = slots 4 [] @ slots 15 [] @ slots 15 []"
    by (simp add: slots_def flip: replicate_add)
  have "writeUInt32LE (Buffer_alloc 344) c 0 = Inr (write_at (replicate 344 0) 0 (le_bytes 4 c))"
    by (simp add: writeUInt32LE_def Buffer_alloc_def c_def)
  also have "write_at (replicate 344 0) 0 (le_bytes 4 c) = le_bytes 4 c @ replicate 340 0"
    by (simp add: write_at_zeros)
  finally have w: "writeUInt32LE (Buffer_alloc 344) c 0 =
      Inr (le_bytes 4 c @ slots 4 [] @ slots 15 [] @ slots 15 [])"
    by (simp only: z)
  have "write_entries list 0
           (le_bytes 4 c @ slots 4 (map (\<lambda>e. le_bytes 4 (entry_time e)) (take 0 list)) @
            slots 15 (map (\<lambda>e. ascii_bytes (nullpadString (entry_name1 e) 15)) (take 0 list)) @
            slots 15 (map (\<lambda>e. ascii_bytes (nullpadString (entry_name2 e) 15)) (take 0 list))) =
         Inr (le_bytes 4 c @ slots 4 (map (\<lambda>e. le_bytes 4 (entry_time e)) (take 10 list)) @
            slots 15 (map (\<lambda>e. ascii_bytes (nullpadString (entry_name1 e) 15)) (take 10 list)) @
            slots 15 (map (\<lambda>e. ascii_bytes (nullpadString (entry_name2 e) 15)) (take 10 list)))"
    using assms _ c4 by (rule write_entries_layout) simp
  then have "write_entries list 0 (le_bytes 4 c @ slots 4 [] @ slots 15 [] @ slots 15 []) =
      Inr (table_layout (take 10 list))"
    by (simp add: table_layout_def c)
  moreover have "top10_table list = and_then (writeUInt32LE (Buffer_alloc 344) c 0) (write_entries list 0)"
    by (simp add: top10_table_def c_def)
  ultimately show ?thesis
    by (simp only: w and_then_Inr)
qed

lemma length_table_layout:
  "length kept \<le> 10 \<Longrightarrow> length (table_layout kept) = 344"
  by (simp add: table_layout_def length_slots)

lemma readInt32LE_le_bytes:
  "0 \<le> v \<Longrightarrow> v < 2 ^ 32 \<Longrightarrow> readInt32LE (le_bytes 4 v @ rest) 0 = Inr (to_int32 v)"
  by (simp add: readInt32LE_def slice_def le_int_le_bytes_id)

lemma parse_entries_layout:
  assumes valid: "\<forall>e \<in> set kept. score_entry e"
    and len: "length kept \<le> 10"
    and i: "i \<le> length kept"
  shows "parse_entries (table_layout kept) (int (length kept)) i out =
         Inr (out @ map read_back (drop i kept))"
  using i
proof (induction "length kept - i" arbitrary: i out)
  case 0
  then show ?case by (subst parse_entries.simps) simp
next
  case (Suc k)
  let ?tb = "\<lambda>e. le_bytes 4 (entry_time e)"
  let ?n1 = "\<lambda>e. ascii_bytes (nullpadString (entry_name1 e) 15)"
  let ?n2 = "\<lambda>e. ascii_bytes (nullpadString (entry_name2 e) 15)"
  let ?C = "le_bytes 4 (int (length kept))"
  let ?e = "kept ! i"
  from Suc.hyps(2) have lt: "i < length kept" by simp
  then have e: "score_entry ?e" using valid by simp
  have layout: "table_layout kept = ?C @ slots 4 (map ?tb kept) @ slots 15 (map ?n1 kept) @ slots 15 (map ?n2 kept)"
    by (simp add: table_layout_def)
  have s1: "slice (table_layout kept) (4 + i * 4) (4 + i * 4 + 4) = ?tb ?e"
    using slot_slice [of "map ?tb kept" 4 i ?C "slots 15 (map ?n1 kept) @ slots 15 (map ?n2 kept)"] lt
    by (simp add: layout)
  have s2: "slice (table_layout kept) (44 + i * 15) (44 + i * 15 + 15) = ?n1 ?e"
    using slot_slice [of "map ?n1 kept" 15 i "?C @ slots 4 (map ?tb kept)" "slots 15 (map ?n2 kept)"] lt len
    by (simp add: layout length_slots)
  have s3: "slice (table_layout kept) (194 + i * 15) (194 + i * 15 + 15) = ?n2 ?e"
    using slot_slice [of "map ?n2 kept" 15 i "?C @ slots 4 (map ?tb kept) @ slots 15 (map ?n1 kept)" "[]"] lt len
    by (simp add: layout length_slots)
  have t: "readInt32LE (?tb ?e) 0 = Inr (to_int32 (entry_time ?e))"
    using readInt32LE_le_bytes [of "entry_time ?e" "[]"] e by (simp add: score_entry_def)
  have n: "trimString (?n1 ?e) = entry_name1 ?e" "trimString (?n2 ?e) = entry_name2 ?e"
    using e by (simp_all add: score_entry_def trimString_nullpadString)
  have rb: "\<lparr>entry_time = to_int32 (entry_time ?e), entry_name1 = entry_name1 ?e,
            entry_name2 = entry_name2 ?e\<rparr> = read_back ?e"
    by (simp add: read_back_def)
  have k: "k = length kept - Suc i" using Suc.hyps(2) by simp
  have IH: "parse_entries (table_layout kept) (int (length kept)) (Suc i) (out @ [read_back ?e]) =
      Inr ((out @ [read_back ?e]) @ map read_back (drop (Suc i) kept))"
    using lt by (intro Suc.hyps(1) [OF k]) simp
  have d: "drop i kept = ?e # drop (Suc i) kept"
    using lt by (simp add: Cons_nth_drop_Suc)
  show ?case
    using lt by (subst parse_entries.simps) (simp add: s1 [simplified] s2 [simplified] s3 [simplified] t n rb IH d)
qed

lemma parseTop10_layout:
  assumes "\<forall>e \<in> set kept. score_entry e" and "length kept \<le> 10"
  shows "parseTop10 (table_layout kept) = Inr (map read_back kept)"
proof -
  have "readInt32LE (table_layout kept) 0 = Inr (to_int32 (int (length kept)))"
    unfolding table_layout_def using assms(2) by (intro readInt32LE_le_bytes) simp_all
  moreover have "to_int32 (int (length kept)) = int (length kept)"
    using assms(2) by (simp add: to_int32_def)
  ultimately show ?thesis
    using parse_entries_layout [OF assms, of 0 "[]"] by (simp add: parseTop10_def)
qed


lemma Buffer_concat_two:
  "length a + length b = n \<Longrightarrow> Buffer_concat [a, b] n = a @ b"
  by (simp add: Buffer_concat_def)

lemma score_entries_sorted:
  "\<forall>e \<in> set list. score_entry e \<Longrightarrow> \<forall>e \<in> set (sort_by_time list). score_entry e"
  by (simp add: sort_by_time_def)

lemma top10ToBuffer_layout:
  assumes s: "\<forall>e \<in> set (top10_single t). score_entry e"
    and m: "\<forall>e \<in> set (top10_multi t). score_entry e"
  shows "top10ToBuffer t =
    (t\<lparr>top10_single := sort_by_time (top10_single t), top10_multi := sort_by_time (top10_multi t)\<rparr>,
     Inr (cryptTop10 (table_layout (take 10 (sort_by_time (top10_single t))) @
                      table_layout (take 10 (sort_by_time (top10_multi t))))))"
proof -
  have a: "top10_table (sort_by_time (top10_single t)) =
      Inr (table_layout (take 10 (sort_by_time (top10_single t))))"
    by (rule top10_table_layout [OF score_entries_sorted [OF s]])
  have b: "top10_table (sort_by_time (top10_multi t)) =
      Inr (table_layout (take 10 (sort_by_time (top10_multi t))))"
    by (rule top10_table_layout [OF score_entries_sorted [OF m]])
  show ?thesis
    by (simp add: top10ToBuffer_def Let_def a b Buffer_concat_two length_table_layout)
qed

lemma parse_top10_block_layout:
  assumes s: "\<forall>e \<in> set ks. score_entry e" and ls: "length ks \<le> 10"
    and m: "\<forall>e \<in> set km. score_entry e" and lm: "length km \<le> 10"
  shows "parse_top10_block (pre @ cryptTop10 (table_layout ks @ table_layout km) @ post) (length pre) =
    Inr \<lparr>top10_single = map read_back ks, top10_multi = map read_back km\<rparr>"
proof -
  let ?block = "cryptTop10 (table_layout ks @ table_layout km)"
  have len: "length ?block = 688"
    using ls lm by (simp add: cryptTop10_def length_table_layout)
  have "slice (pre @ ?block @ post) (length pre) (length pre + 688) = ?block"
    using len by (simp add: slice_def)
  then have d: "cryptTop10 (slice (pre @ ?block @ post) (length pre) (length pre + 688)) =
      table_layout ks @ table_layout km"
    by (simp add: cryptTop10_twice)
  have a: "slice (table_layout ks @ table_layout km) 0 344 = table_layout ks"
    using ls by (simp add: slice_def length_table_layout)
  have b: "slice (table_layout ks @ table_layout km) 344 (length (table_layout ks @ table_layout km)) =
      table_layout km"
    using ls lm by (simp add: slice_def length_table_layout)
  show ?thesis
    unfolding parse_top10_block_def Let_def d a b
    by (simp add: parseTop10_layout [OF s ls] parseTop10_layout [OF m lm])
qed

lemma read_back_id: "entry_time e < 2 ^ 31 \<Longrightarrow> 0 \<le> entry_time e \<Longrightarrow> read_back e = e"
  by (simp add: read_back_def to_int32_def)

lemma map_read_back_id:
  "\<forall>e \<in> set es. 0 \<le> entry_time e \<and> entry_time e < 2 ^ 31 \<Longrightarrow> map read_back es = es"
  by (induction es) (simp_all add: read_back_id)

subsection \<open>The times of a table, whatever the names\<close>

text \<open>
  A name is written from offset 44 on, and a name that holds a character outside ASCII
  takes more than its 15 bytes and runs into the next slot. The count and the times lie
  before offset 44, so they are what the encoder wrote, whatever the names are.
\<close>

lemma slice_write_at_before:
  assumes "y \<le> offset" and "offset \<le> length b"
  shows "slice (write_at b offset bs) x y = slice b x y"
proof -
  have "take y (write_at b offset bs) = take y b"
    using assms by (simp add: write_at_def min_def)
  then have "drop x (take y (write_at b offset bs)) = drop x (take y b)" by simp
  then show ?thesis by (simp add: slice_def drop_take)
qed

lemma slice_write_at_same:
  "offset + length bs \<le> length b \<Longrightarrow> slice (write_at b offset bs) offset (offset + length bs) = bs"
  by (simp add: slice_def write_at_def)

lemma slice_take_mono:
  assumes "take n b' = take n b" and "y \<le> n"
  shows "slice b' x y = slice b x y"
proof -
  have "take y b' = take y (take n b')" using assms(2) by (simp add: min_def)
  also have "\<dots> = take y (take n b)" by (simp only: assms(1))
  also have "\<dots> = take y b" using assms(2) by (simp add: min_def)
  finally have "drop x (take y b') = drop x (take y b)" by simp
  then show ?thesis by (simp add: slice_def drop_take)
qed

lemma take_write_at_before:
  "n \<le> offset \<Longrightarrow> offset \<le> length b \<Longrightarrow> take n (write_at b offset bs) = take n b"
  by (simp add: write_at_def min_def)

lemma write_entries_times:
  assumes "list_all score_time list" and "length b = 344" and "i \<le> 10"
  shows "\<exists>b'. write_entries list i b = Inr b' \<and> length b' = 344 \<and>
           take (4 + 4 * i) b' = take (4 + 4 * i) b \<and>
           (\<forall>j. i \<le> j \<and> j < min (length list) 10 \<longrightarrow>
              slice b' (4 + j * 4) (4 + j * 4 + 4) = le_bytes 4 (entry_time (list ! j)))"
  using assms(2,3)
proof (induction "10 - i" arbitrary: i b)
  case 0
  then have "10 \<le> i" by simp
  then show ?case using "0.prems"(1) by (auto simp add: write_entries_skip)
next
  case (Suc k)
  then have i: "i < 10" by simp
  show ?case
  proof (cases "i < length list")
    case False
    then have "write_entries list i b = Inr b" by (subst write_entries.simps) simp
    then show ?thesis using False Suc.prems(1) by auto
  next
    case True
    let ?t = "entry_time (list ! i)"
    have "score_time (list ! i)" using assms(1) True by (simp add: list_all_length)
    then have t: "0 \<le> ?t" "?t \<le> 0xFFFFFFFF" by (simp_all add: score_time_def)
    define b1 where "b1 = write_at b (4 + 4 * i) (le_bytes 4 ?t)"
    define b2 where "b2 = write_at b1 (44 + 15 * i) (utf8_bytes (nullpadString (entry_name1 (list ! i)) 15))"
    define b3 where "b3 = write_at b2 (194 + 15 * i) (utf8_bytes (nullpadString (entry_name2 (list ! i)) 15))"
    have l1: "length b1 = 344" using Suc.prems(1) i by (simp add: b1_def)
    have l2: "length b2 = 344" using l1 i by (simp add: b2_def)
    have l3: "length b3 = 344" using l2 i by (simp add: b3_def)
    have w1: "writeUInt32LE b ?t (4 + 4 * i) = Inr b1"
      using t Suc.prems(1) i by (simp add: writeUInt32LE_def b1_def)
    have w2: "write_utf8 b1 (nullpadString (entry_name1 (list ! i)) 15) (44 + 15 * i) = Inr b2"
      using l1 i by (simp add: write_utf8_def b2_def)
    have w3: "write_utf8 b2 (nullpadString (entry_name2 (list ! i)) 15) (194 + 15 * i) = Inr b3"
      using l2 i by (simp add: write_utf8_def b3_def)
    have step: "write_entries list i b = write_entries list (i + 1) b3"
      using True i by (subst write_entries.simps) (simp add: w1 w2 w3)
    have p1: "take (4 + 4 * i) b1 = take (4 + 4 * i) b"
      unfolding b1_def using Suc.prems(1) i by (intro take_write_at_before) simp_all
    have p2: "take 44 b2 = take 44 b1"
      unfolding b2_def using l1 i by (intro take_write_at_before) simp_all
    have p3: "take 44 b3 = take 44 b2"
      unfolding b3_def using l2 i by (intro take_write_at_before) simp_all
    have p23: "take 44 b3 = take 44 b1" using p2 p3 by simp
    have s1: "slice b1 (4 + 4 * i) (4 + 4 * i + 4) = le_bytes 4 ?t"
      unfolding b1_def
      using slice_write_at_same [of "4 + 4 * i" "le_bytes 4 ?t" b] Suc.prems(1) i by simp
    have s3: "slice b3 (4 + 4 * i) (4 + 4 * i + 4) = le_bytes 4 ?t"
      using slice_take_mono [OF p23, of "4 + 4 * i + 4" "4 + 4 * i"] i s1 by simp
    have t3: "take (4 + 4 * i) b3 = take (4 + 4 * i) b"
    proof -
      have "take (4 + 4 * i) b3 = take (4 + 4 * i) (take 44 b3)" using i by (simp add: min_def)
      also have "\<dots> = take (4 + 4 * i) (take 44 b1)" by (simp only: p23)
      also have "\<dots> = take (4 + 4 * i) b1" using i by (simp add: min_def)
      finally show ?thesis by (simp only: p1)
    qed
    have k: "k = 10 - (i + 1)" using Suc.hyps(2) by simp
    have i1: "i + 1 \<le> 10" using i by simp
    from Suc.hyps(1) [OF k l3 i1] obtain b' where
      r: "write_entries list (i + 1) b3 = Inr b'" and l': "length b' = 344"
      and t': "take (4 + 4 * (i + 1)) b' = take (4 + 4 * (i + 1)) b3"
      and s': "\<forall>j. i + 1 \<le> j \<and> j < min (length list) 10 \<longrightarrow>
              slice b' (4 + j * 4) (4 + j * 4 + 4) = le_bytes 4 (entry_time (list ! j))"
      by blast
    have ti: "take (4 + 4 * i) b' = take (4 + 4 * i) b"
    proof -
      have "take (4 + 4 * i) b' = take (4 + 4 * i) (take (4 + 4 * (i + 1)) b')" by (simp add: min_def)
      also have "\<dots> = take (4 + 4 * i) (take (4 + 4 * (i + 1)) b3)" by (simp only: t')
      also have "\<dots> = take (4 + 4 * i) b3" by (simp add: min_def)
      finally show ?thesis by (simp only: t3)
    qed
    have si: "slice b' (4 + i * 4) (4 + i * 4 + 4) = le_bytes 4 ?t"
      using slice_take_mono [OF t', of "4 + 4 * i + 4" "4 + 4 * i"] s3 by (simp add: mult.commute)
    have "\<forall>j. i \<le> j \<and> j < min (length list) 10 \<longrightarrow>
              slice b' (4 + j * 4) (4 + j * 4 + 4) = le_bytes 4 (entry_time (list ! j))"
    proof (intro allI impI)
      fix j assume j: "i \<le> j \<and> j < min (length list) 10"
      show "slice b' (4 + j * 4) (4 + j * 4 + 4) = le_bytes 4 (entry_time (list ! j))"
      proof (cases "j = i")
        case True
        then show ?thesis using si by simp
      next
        case False
        then have "i + 1 \<le> j \<and> j < min (length list) 10" using j by simp
        then show ?thesis using s' by blast
      qed
    qed
    then show ?thesis using step r l' ti by simp
  qed
qed



lemma top10_table_times:
  assumes "list_all score_time list"
  shows "\<exists>tb. top10_table list = Inr tb \<and> length tb = 344 \<and>
           slice tb 0 4 = le_bytes 4 (int (min (length list) 10)) \<and>
           (\<forall>j < min (length list) 10.
              slice tb (4 + j * 4) (4 + j * 4 + 4) = le_bytes 4 (entry_time (list ! j)))"
proof -
  define c where "c = (if length list \<ge> 10 then 10 else int (length list))"
  have c: "c = int (min (length list) 10)" by (simp add: c_def min_def)
  define b where "b = write_at (Buffer_alloc 344) 0 (le_bytes 4 c)"
  have w: "writeUInt32LE (Buffer_alloc 344) c 0 = Inr b"
    by (simp add: writeUInt32LE_def Buffer_alloc_def c_def b_def)
  have lb: "length b = 344" by (simp add: b_def Buffer_alloc_def)
  have sb: "slice b 0 4 = le_bytes 4 c"
    unfolding b_def using slice_write_at_same [of 0 "le_bytes 4 c" "Buffer_alloc 344"]
    by (simp add: Buffer_alloc_def)
  from write_entries_times [OF assms lb, of 0] obtain b' where
    r: "write_entries list 0 b = Inr b'" and l': "length b' = 344"
    and t': "take (4 + 4 * 0) b' = take (4 + 4 * 0) b"
    and s': "\<forall>j. 0 \<le> j \<and> j < min (length list) 10 \<longrightarrow>
              slice b' (4 + j * 4) (4 + j * 4 + 4) = le_bytes 4 (entry_time (list ! j))"
    by auto
  have "slice b' 0 4 = slice b 0 4"
    using slice_take_mono [of 4 b' b 4 0] t' by simp
  then have c': "slice b' 0 4 = le_bytes 4 (int (min (length list) 10))" by (simp only: sb c)
  have "top10_table list = Inr b'"
    unfolding top10_table_def c_def [symmetric] by (simp add: w r)
  then show ?thesis using l' c' s' by simp
qed

lemma parse_entries_times:
  assumes "\<forall>j. i \<le> j \<and> j < n \<longrightarrow>
      slice tb (4 + j * 4) (4 + j * 4 + 4) = le_bytes 4 (entry_time (list ! j)) \<and>
      score_time (list ! j)"
    and "i \<le> n"
  shows "\<exists>es. parse_entries tb (int n) i out = Inr (out @ es) \<and>
           map entry_time es = map (\<lambda>j. to_int32 (entry_time (list ! j))) [i..<n]"
  using assms
proof (induction "n - i" arbitrary: i out)
  case 0
  then have "parse_entries tb (int n) i out = Inr out" by (subst parse_entries.simps) simp
  then show ?case using 0 by simp
next
  case (Suc k)
  then have i: "i < n" by simp
  let ?t = "entry_time (list ! i)"
  have sl: "slice tb (4 + i * 4) (4 + i * 4 + 4) = le_bytes 4 ?t" and st: "score_time (list ! i)"
    using Suc.prems(1) i by simp_all
  have t: "0 \<le> ?t" "?t < 2 ^ 32" using st by (simp_all add: score_time_def)
  have rd: "readInt32LE (slice tb (4 + i * 4) (4 + i * 4 + 4)) 0 = Inr (to_int32 ?t)"
    unfolding sl using readInt32LE_le_bytes [OF t, of "[]"] by simp
  define e where "e = \<lparr>entry_time = to_int32 ?t,
                  entry_name1 = trimString (slice tb (44 + i * 15) (44 + i * 15 + 15)),
                  entry_name2 = trimString (slice tb (194 + i * 15) (194 + i * 15 + 15))\<rparr>"
  have step: "parse_entries tb (int n) i out = parse_entries tb (int n) (i + 1) (out @ [e])"
    using i rd by (subst parse_entries.simps) (simp add: e_def)
  have k: "k = n - (i + 1)" using Suc.hyps(2) by simp
  have p: "\<forall>j. i + 1 \<le> j \<and> j < n \<longrightarrow>
      slice tb (4 + j * 4) (4 + j * 4 + 4) = le_bytes 4 (entry_time (list ! j)) \<and>
      score_time (list ! j)"
    using Suc.prems(1) by simp
  have i1: "i + 1 \<le> n" using i by simp
  from Suc.hyps(1) [OF k p i1, of "out @ [e]"] obtain es where
    r: "parse_entries tb (int n) (i + 1) (out @ [e]) = Inr ((out @ [e]) @ es)"
    and m: "map entry_time es = map (\<lambda>j. to_int32 (entry_time (list ! j))) [i + 1..<n]"
    by blast
  have u: "[i..<n] = i # [i + 1..<n]" using i by (simp add: upt_conv_Cons)
  have "parse_entries tb (int n) i out = Inr (out @ (e # es))" using step r by simp
  moreover have "map entry_time (e # es) = map (\<lambda>j. to_int32 (entry_time (list ! j))) [i..<n]"
    unfolding u using m by (simp add: e_def)
  ultimately show ?case by blast
qed

lemma map_nth_take:
  "n \<le> length xs \<Longrightarrow> map (\<lambda>j. f (xs ! j)) [0..<n] = map f (take n xs)"
  by (rule nth_equalityI) simp_all

lemma parseTop10_times:
  assumes "list_all score_time list"
    and "length tb = 344"
    and "slice tb 0 4 = le_bytes 4 (int (min (length list) 10))"
    and "\<forall>j < min (length list) 10.
              slice tb (4 + j * 4) (4 + j * 4 + 4) = le_bytes 4 (entry_time (list ! j))"
  shows "\<exists>es. parseTop10 tb = Inr es \<and>
           map entry_time es = map (\<lambda>e. to_int32 (entry_time e)) (take 10 list)"
proof -
  let ?n = "min (length list) 10"
  have "readInt32LE tb 0 = Inr (to_int32 (le_int (slice tb 0 4)))"
    using assms(2) by (simp add: readInt32LE_def)
  also have "le_int (slice tb 0 4) = int ?n"
    unfolding assms(3) by (rule le_int_le_bytes_id) simp_all
  also have "to_int32 (int ?n) = int ?n" by (rule to_int32_small) simp_all
  finally have c: "readInt32LE tb 0 = Inr (int ?n)" .
  have "\<forall>j. 0 \<le> j \<and> j < ?n \<longrightarrow>
      slice tb (4 + j * 4) (4 + j * 4 + 4) = le_bytes 4 (entry_time (list ! j)) \<and>
      score_time (list ! j)"
    using assms(1,4) by (simp add: list_all_length)
  from parse_entries_times [OF this, of "[]"] obtain es where
    r: "parse_entries tb (int ?n) 0 [] = Inr ([] @ es)"
    and m: "map entry_time es = map (\<lambda>j. to_int32 (entry_time (list ! j))) [0..<?n]"
    by auto
  have "map (\<lambda>j. to_int32 (entry_time (list ! j))) [0..<?n] =
        map (\<lambda>e. to_int32 (entry_time e)) (take ?n list)"
    by (rule map_nth_take) simp
  moreover have "take ?n list = take 10 list" by (simp add: min_def)
  ultimately have "map entry_time es = map (\<lambda>e. to_int32 (entry_time e)) (take 10 list)"
    using m by simp
  moreover have "parseTop10 tb = Inr es" using r by (simp add: parseTop10_def c)
  ultimately show ?thesis by blast
qed

text \<open>
  The score block of two tables whose times are unsigned 32-bit integers: the encoder
  writes it, it has 688 bytes, and the decoder reads the kept times as signed integers.
\<close>

lemma score_times_sorted: "list_all score_time list \<Longrightarrow> list_all score_time (sort_by_time list)"
  by (simp add: sort_by_time_def list_all_iff)

lemma score_block_times:
  assumes "valid_scores t"
  shows "top10ToBuffer t =
      (t\<lparr>top10_single := sort_by_time (top10_single t), top10_multi := sort_by_time (top10_multi t)\<rparr>,
       Inr (score_block t))"
    and "length (score_block t) = 688"
    and "\<exists>d. parse_top10_block (pre @ score_block t @ post) (length pre) = Inr d \<and>
           map entry_time (top10_single d) =
             map (\<lambda>e. to_int32 (entry_time e)) (take 10 (sort_by_time (top10_single t))) \<and>
           map entry_time (top10_multi d) =
             map (\<lambda>e. to_int32 (entry_time e)) (take 10 (sort_by_time (top10_multi t)))"
proof -
  let ?s = "sort_by_time (top10_single t)" and ?m = "sort_by_time (top10_multi t)"
  have v: "list_all score_time ?s" "list_all score_time ?m"
    using assms by (simp_all add: valid_scores_def score_times_sorted)
  from top10_table_times [OF v(1)] obtain ts where
    ts: "top10_table ?s = Inr ts" "length ts = 344"
      "slice ts 0 4 = le_bytes 4 (int (min (length ?s) 10))"
      "\<forall>j < min (length ?s) 10. slice ts (4 + j * 4) (4 + j * 4 + 4) = le_bytes 4 (entry_time (?s ! j))"
    by blast
  from top10_table_times [OF v(2)] obtain tm where
    tm: "top10_table ?m = Inr tm" "length tm = 344"
      "slice tm 0 4 = le_bytes 4 (int (min (length ?m) 10))"
      "\<forall>j < min (length ?m) 10. slice tm (4 + j * 4) (4 + j * 4 + 4) = le_bytes 4 (entry_time (?m ! j))"
    by blast
  have tb: "top10ToBuffer t =
      (t\<lparr>top10_single := ?s, top10_multi := ?m\<rparr>, Inr (cryptTop10 (ts @ tm)))"
    by (simp add: top10ToBuffer_def Let_def ts(1,2) tm(1,2) Buffer_concat_two)
  then have sb: "score_block t = cryptTop10 (ts @ tm)" by (simp add: score_block_def)
  show "top10ToBuffer t = (t\<lparr>top10_single := ?s, top10_multi := ?m\<rparr>, Inr (score_block t))"
    by (simp only: tb sb)
  show len: "length (score_block t) = 688"
    by (simp add: sb cryptTop10_def ts(2) tm(2))
  have "slice (pre @ score_block t @ post) (length pre) (length pre + 688) = score_block t"
    using len by (simp add: slice_def)
  then have d: "cryptTop10 (slice (pre @ score_block t @ post) (length pre) (length pre + 688)) = ts @ tm"
    by (simp add: sb cryptTop10_twice)
  have a: "slice (ts @ tm) 0 344 = ts" using ts(2) by (simp add: slice_def)
  have b: "slice (ts @ tm) 344 (length (ts @ tm)) = tm" using ts(2) tm(2) by (simp add: slice_def)
  from parseTop10_times [OF v(1) ts(2,3,4)] obtain es where
    es: "parseTop10 ts = Inr es"
      "map entry_time es = map (\<lambda>e. to_int32 (entry_time e)) (take 10 ?s)" by blast
  from parseTop10_times [OF v(2) tm(2,3,4)] obtain em where
    em: "parseTop10 tm = Inr em"
      "map entry_time em = map (\<lambda>e. to_int32 (entry_time e)) (take 10 ?m)" by blast
  have "parse_top10_block (pre @ score_block t @ post) (length pre) =
      Inr \<lparr>top10_single = es, top10_multi = em\<rparr>"
    unfolding parse_top10_block_def Let_def d a b by (simp add: es(1) em(1))
  then show "\<exists>d. parse_top10_block (pre @ score_block t @ post) (length pre) = Inr d \<and>
           map entry_time (top10_single d) = map (\<lambda>e. to_int32 (entry_time e)) (take 10 ?s) \<and>
           map entry_time (top10_multi d) = map (\<lambda>e. to_int32 (entry_time e)) (take 10 ?m)"
    using es(2) em(2) by simp
qed

text \<open>With names that fit their fields the block is the layout, and the entries come back.\<close>

lemma score_entry_time: "score_entry e \<Longrightarrow> score_time e"
  by (simp add: score_entry_def score_time_def)

lemma score_block_entries:
  assumes "list_all score_entry (top10_single t)" and "list_all score_entry (top10_multi t)"
  shows "score_block t =
      cryptTop10 (table_layout (take 10 (sort_by_time (top10_single t))) @
                  table_layout (take 10 (sort_by_time (top10_multi t))))"
    and "parse_top10_block (pre @ score_block t @ post) (length pre) =
      Inr \<lparr>top10_single = map read_back (take 10 (sort_by_time (top10_single t))),
           top10_multi = map read_back (take 10 (sort_by_time (top10_multi t)))\<rparr>"
proof -
  have s: "\<forall>e \<in> set (top10_single t). score_entry e" and m: "\<forall>e \<in> set (top10_multi t). score_entry e"
    using assms by (simp_all add: list_all_iff)
  show sb: "score_block t =
      cryptTop10 (table_layout (take 10 (sort_by_time (top10_single t))) @
                  table_layout (take 10 (sort_by_time (top10_multi t))))"
    by (simp add: score_block_def top10ToBuffer_layout [OF s m])
  have ks: "\<forall>e \<in> set (take 10 (sort_by_time (top10_single t))). score_entry e"
    using score_entries_sorted [OF s] by (auto dest: in_set_takeD)
  have km: "\<forall>e \<in> set (take 10 (sort_by_time (top10_multi t))). score_entry e"
    using score_entries_sorted [OF m] by (auto dest: in_set_takeD)
  show "parse_top10_block (pre @ score_block t @ post) (length pre) =
      Inr \<lparr>top10_single = map read_back (take 10 (sort_by_time (top10_single t))),
           top10_multi = map read_back (take 10 (sort_by_time (top10_multi t)))\<rparr>"
    unfolding sb by (rule parse_top10_block_layout [OF ks _ km]) simp_all
qed


subsection \<open>Sorting and capping\<close>


lemma readInt32LE_written:
  assumes "0 \<le> v" and "v \<le> 0xFFFFFFFF" and "offset + 4 \<le> length buffer"
  shows "writeUInt32LE buffer v offset = Inr (write_at buffer offset (le_bytes 4 v))"
    and "readInt32LE (write_at buffer offset (le_bytes 4 v)) offset = Inr (to_int32 v)"
proof -
  show "writeUInt32LE buffer v offset = Inr (write_at buffer offset (le_bytes 4 v))"
    using assms by (simp add: writeUInt32LE_def)
  have "slice (write_at buffer offset (le_bytes 4 v)) offset (offset + 4) = le_bytes 4 v"
    using assms(3) by (simp add: slice_def write_at_def)
  then show "readInt32LE (write_at buffer offset (le_bytes 4 v)) offset = Inr (to_int32 v)"
    using assms by (simp add: readInt32LE_def le_int_le_bytes_id)
qed

lemma sort_by_time_facts:
  "sorted (map entry_time (sort_by_time list))"
  "filter (\<lambda>e. entry_time e = k) (sort_by_time list) = filter (\<lambda>e. entry_time e = k) list"
  "length (sort_by_time list) = length list"
  "set (sort_by_time list) = set list"
  by (simp_all add: sort_by_time_def sort_key_stable)

text \<open>
  What \<open>_top10ToBuffer\<close> does with entries whose names fit their fields: each list is
  sorted by time, entries with the same time in their input order, and capped at 10
  entries; each 344-byte half has the count of the kept entries at offset 0, each kept
  entry's time and names in its slots and the other slots zero (\<open>table_layout\<close>); and
  when the kept times are below \<open>2 ^ 31\<close>, decoding the block gives back the kept entries.
\<close>

lemma top10ToBuffer_sorted_capped:
  assumes "list_all score_entry (top10_single t)" and "list_all score_entry (top10_multi t)"
  shows "let sorted_single = sort_by_time (top10_single t);
             sorted_multi = sort_by_time (top10_multi t);
             ks = take 10 sorted_single; km = take 10 sorted_multi;
             block = cryptTop10 (table_layout ks @ table_layout km)
         in top10ToBuffer t =
              (t\<lparr>top10_single := sorted_single, top10_multi := sorted_multi\<rparr>, Inr block) \<and>
            sorted (map entry_time sorted_single) \<and> sorted (map entry_time sorted_multi) \<and>
            (\<forall>k. filter (\<lambda>e. entry_time e = k) sorted_single =
                 filter (\<lambda>e. entry_time e = k) (top10_single t)) \<and>
            (\<forall>k. filter (\<lambda>e. entry_time e = k) sorted_multi =
                 filter (\<lambda>e. entry_time e = k) (top10_multi t)) \<and>
            length ks = min (length (top10_single t)) 10 \<and>
            length km = min (length (top10_multi t)) 10 \<and>
            length (table_layout ks) = 344 \<and> length (table_layout km) = 344 \<and>
            (list_all (\<lambda>e. entry_time e < 2 ^ 31) (ks @ km) \<longrightarrow>
               parse_top10_block (pre @ block @ post) (length pre) =
                 Inr \<lparr>top10_single = ks, top10_multi = km\<rparr>)"
proof -
  let ?ss = "sort_by_time (top10_single t)" and ?sm = "sort_by_time (top10_multi t)"
  let ?ks = "take 10 ?ss" and ?km = "take 10 ?sm"
  have s: "\<forall>e \<in> set (top10_single t). score_entry e" and m: "\<forall>e \<in> set (top10_multi t). score_entry e"
    using assms by (simp_all add: list_all_iff)
  have ks: "\<forall>e \<in> set ?ks. score_entry e" and km: "\<forall>e \<in> set ?km. score_entry e"
    using score_entries_sorted [OF s] score_entries_sorted [OF m] by (auto dest: in_set_takeD)
  have len: "length ?ks = min (length (top10_single t)) 10" "length ?km = min (length (top10_multi t)) 10"
    by (simp_all add: sort_by_time_def)
  have dec: "parse_top10_block (pre @ cryptTop10 (table_layout ?ks @ table_layout ?km) @ post) (length pre) =
      Inr \<lparr>top10_single = ?ks, top10_multi = ?km\<rparr>"
    if "list_all (\<lambda>e. entry_time e < 2 ^ 31) (?ks @ ?km)"
  proof -
    have "\<forall>e \<in> set ?ks. 0 \<le> entry_time e \<and> entry_time e < 2 ^ 31"
      and "\<forall>e \<in> set ?km. 0 \<le> entry_time e \<and> entry_time e < 2 ^ 31"
      using that ks km by (auto simp add: list_all_iff score_entry_def)
    then have "map read_back ?ks = ?ks" "map read_back ?km = ?km"
      by (simp_all add: map_read_back_id)
    then show ?thesis
      using parse_top10_block_layout [OF ks _ km, of pre post] by simp
  qed
  show ?thesis
    unfolding Let_def
    using top10ToBuffer_layout [OF s m] sort_by_time_facts(1,2) len dec
    by (simp add: length_table_layout)
qed

section \<open>Properties of the double arithmetic\<close>


lemma bitlen_between:
  assumes "2 ^ m \<le> N" and "N < 2 ^ (m + 1)"
  shows "bitlen N = int m + 1"
proof -
  have pos: "0 < N" using assms(1) zero_less_power [of "2::int" m] by linarith
  from bitlen_bounds [OF pos] have lo: "2 ^ nat (bitlen N - 1) \<le> N" and hi: "N < 2 ^ nat (bitlen N)"
    by simp_all
  have "(2::int) ^ nat (bitlen N - 1) < 2 ^ (m + 1)" using lo assms(2) by linarith
  then have a: "nat (bitlen N - 1) < m + 1"
    by (rule power_less_imp_less_exp [rotated]) simp
  have "(2::int) ^ m < 2 ^ nat (bitlen N)" using hi assms(1) by linarith
  then have b: "m < nat (bitlen N)"
    by (rule power_less_imp_less_exp [rotated]) simp
  from a b show ?thesis by linarith
qed

lemma two_powi_shift:
  "(2::rat) powi (int m - 1100) = 2 ^ m / 2 ^ 1100"
proof -
  have "(2::rat) powi (int m - 1100) = 2 powi int m / 2 powi 1100"
    by (rule power_int_diff) simp
  then show ?thesis by simp
qed

lemma binade_eq:
  assumes lo: "2 powi e \<le> q" and hi: "q < 2 powi (e + 1)" and e: "- 1022 \<le> e"
  shows "binade q = e"
proof -
  define m where "m = nat (e + 1100)"
  have m: "e = int m - 1100" "e + 1 = int (m + 1) - 1100" using e by (simp_all add: m_def)
  have "(2::rat) ^ m / 2 ^ 1100 \<le> q"
    using lo unfolding m(1) two_powi_shift .
  then have lo': "2 ^ m \<le> q * 2 ^ 1100"
    by (simp add: pos_divide_le_eq)
  have "q < (2::rat) ^ (m + 1) / 2 ^ 1100"
    using hi unfolding m(2) two_powi_shift .
  then have hi': "q * 2 ^ 1100 < 2 ^ (m + 1)"
    by (simp add: pos_less_divide_eq)
  have "(2::int) ^ m \<le> \<lfloor>q * 2 ^ 1100\<rfloor>"
    using lo' by (simp add: le_floor_iff)
  moreover have "\<lfloor>q * 2 ^ 1100\<rfloor> < (2::int) ^ (m + 1)"
    using hi' by (simp add: floor_less_iff)
  ultimately have "bitlen \<lfloor>q * 2 ^ 1100\<rfloor> = int m + 1"
    by (rule bitlen_between)
  then show ?thesis using m(1) e by (simp add: binade_def)
qed

lemma rhe_cases:
  "round_half_even r = \<lfloor>r\<rfloor> \<or> round_half_even r = \<lfloor>r\<rfloor> + 1"
  by (simp add: round_half_even_def Let_def)

lemma rhe_unfold:
  "round_half_even r =
     (if r - of_int \<lfloor>r\<rfloor> < 1 / 2 then \<lfloor>r\<rfloor>
      else if r - of_int \<lfloor>r\<rfloor> > 1 / 2 then \<lfloor>r\<rfloor> + 1
      else if even \<lfloor>r\<rfloor> then \<lfloor>r\<rfloor> else \<lfloor>r\<rfloor> + 1)"
  by (simp add: round_half_even_def Let_def)

lemma rhe_error: "\<bar>of_int (round_half_even r) - r\<bar> \<le> 1 / 2"
proof -
  have d: "0 \<le> r - of_int \<lfloor>r\<rfloor>" "r - of_int \<lfloor>r\<rfloor> < 1" by linarith+
  consider "r - of_int \<lfloor>r\<rfloor> < 1 / 2" | "r - of_int \<lfloor>r\<rfloor> > 1 / 2"
    | "r - of_int \<lfloor>r\<rfloor> = 1 / 2" by linarith
  then show ?thesis
  proof cases
    case 1
    then have "round_half_even r = \<lfloor>r\<rfloor>" by (simp only: rhe_unfold if_True)
    then show ?thesis using 1 d by simp
  next
    case 2
    then have "\<not> r - of_int \<lfloor>r\<rfloor> < 1 / 2" by simp
    then have "round_half_even r = \<lfloor>r\<rfloor> + 1" using 2 by (simp only: rhe_unfold if_True if_False)
    then show ?thesis using 2 d by simp
  next
    case 3
    have "round_half_even r = \<lfloor>r\<rfloor> \<or> round_half_even r = \<lfloor>r\<rfloor> + 1"
      by (rule rhe_cases)
    then show ?thesis using 3 by auto
  qed
qed

lemma rhe_le_int: "r \<le> of_int M \<Longrightarrow> round_half_even r \<le> M"
proof -
  assume a: "r \<le> of_int M"
  then have f: "\<lfloor>r\<rfloor> \<le> M" by (simp add: floor_le_iff)
  show ?thesis
  proof (cases "\<lfloor>r\<rfloor> = M")
    case True
    have "of_int \<lfloor>r\<rfloor> \<le> r" by simp
    then have "r = of_int M" using a True by simp
    then show ?thesis by (simp add: round_half_even_def)
  next
    case False
    then have "\<lfloor>r\<rfloor> + 1 \<le> M" using f by simp
    then show ?thesis using rhe_cases [of r] by auto
  qed
qed

lemma rhe_ge_int: "of_int M \<le> r \<Longrightarrow> M \<le> round_half_even r"
proof -
  assume "of_int M \<le> r"
  then have "M \<le> \<lfloor>r\<rfloor>" by (simp add: le_floor_iff)
  then show ?thesis using rhe_cases [of r] by auto
qed

lemma rhe_eq:
  assumes "of_int n - 1 / 2 < r" and "r < of_int n + 1 / 2"
  shows "round_half_even r = n"
proof -
  have e: "\<bar>of_int (round_half_even r) - r\<bar> \<le> 1 / 2" by (rule rhe_error)
  have "\<bar>(of_int (round_half_even r) :: rat) - of_int n\<bar> < 1"
    using e assms by (simp add: abs_if split: if_splits)
  then have "(of_int \<bar>round_half_even r - n\<bar> :: rat) < of_int 1" by simp
  then have "\<bar>round_half_even r - n\<bar> < 1" by (simp only: of_int_less_iff)
  then show ?thesis by simp
qed

lemma rhe_le_even:
  assumes "r \<le> of_int N + 1 / 2" and "even N"
  shows "round_half_even r \<le> N"
proof (cases "r < of_int N + 1 / 2")
  case True
  show ?thesis
  proof (cases "r < of_int N - 1 / 2")
    case True
    then have "r \<le> of_int N" by simp
    then show ?thesis by (rule rhe_le_int)
  next
    case False
    then have "of_int N - 1 / 2 < r \<or> r = of_int N - 1 / 2" by linarith
    then show ?thesis
    proof
      assume "of_int N - 1 / 2 < r"
      then have "round_half_even r = N" using True by (rule rhe_eq)
      then show ?thesis by simp
    next
      assume "r = of_int N - 1 / 2"
      then have "r \<le> of_int N" by simp
      then show ?thesis by (rule rhe_le_int)
    qed
  qed
next
  case False
  then have r: "r = of_int N + 1 / 2" using assms(1) by simp
  have "\<lfloor>r\<rfloor> = N" unfolding r by (rule floor_unique) simp_all
  then show ?thesis using assms(2) r by (simp add: round_half_even_def Let_def)
qed

lemma rhe_ge_even:
  assumes "of_int N - 1 / 2 \<le> r" and "even N"
  shows "N \<le> round_half_even r"
proof (cases "of_int N - 1 / 2 < r")
  case True
  show ?thesis
  proof (cases "r < of_int N + 1 / 2")
    case True': True
    from True True' have "round_half_even r = N" by (rule rhe_eq)
    then show ?thesis by simp
  next
    case False
    then have "of_int N \<le> r" by simp
    then show ?thesis by (rule rhe_ge_int)
  qed
next
  case False
  then have r: "r = of_int (N - 1) + 1 / 2" using assms(1) by simp
  have f: "\<lfloor>r\<rfloor> = N - 1" unfolding r by (rule floor_unique) simp_all
  have "odd (N - 1)" using assms(2) by simp
  then have "round_half_even r = N"
    using r f by (simp add: round_half_even_def Let_def)
  then show ?thesis by simp
qed



lemma two_powi_pos [simp]: "0 < (2::rat) powi e"
  by (simp add: power_int_def)

lemma two_powi_Suc: "(2::rat) powi (e + 1) = 2 * 2 powi e"
  by (simp add: power_int_add)

lemma round_double_normal:
  assumes lo: "2 powi e \<le> q" and hi: "q < 2 powi (e + 1)" and e: "- 1022 \<le> e" "e \<le> 1022"
  shows "round_double q = Finite (of_int (round_half_even (q / 2 powi (e - 52))) * 2 powi (e - 52))"
proof -
  have q: "0 < q" using lo two_powi_pos [of e] by linarith
  have b: "binade \<bar>q\<bar> = e" using q lo hi e(1) by (simp add: binade_eq)
  let ?u = "(2::rat) powi (e - 52)"
  have u: "2 powi (e + 1) = 2 ^ 53 * ?u"
  proof -
    have "e + 1 = 53 + (e - 52)" by simp
    then have "(2::rat) powi (e + 1) = 2 powi (53 + (e - 52))" by (rule arg_cong)
    also have "\<dots> = 2 powi 53 * 2 powi (e - 52)" by (rule power_int_add) simp
    finally show ?thesis by simp
  qed
  have "q / ?u < 2 ^ 53" using hi u by (simp add: pos_divide_less_eq)
  then have "q / ?u \<le> of_int (2 ^ 53)" by simp
  then have "round_half_even (q / ?u) \<le> 2 ^ 53" by (rule rhe_le_int)
  then have "(of_int (round_half_even (q / ?u)) :: rat) \<le> 2 ^ 53"
    by (metis of_int_le_iff of_int_numeral of_int_power)
  then have "of_int (round_half_even (q / ?u)) * ?u \<le> 2 ^ 53 * ?u"
    by (intro mult_right_mono) simp_all
  also have "\<dots> = 2 powi (e + 1)" by (simp only: u)
  also have "\<dots> \<le> 2 powi 1023" using e(2) by (intro power_int_increasing) simp_all
  also have "\<dots> < 2 ^ 1024" by simp
  finally have r: "\<not> of_int (round_half_even (q / ?u)) * ?u \<ge> 2 ^ 1024" by simp
  show ?thesis
    using q r unfolding round_double_def Let_def b by (simp add: abs_of_pos)
qed



lemma bias_polygons_value: "bias_polygons = Finite (8365243553776645 / 2 ^ 54)"
proof -
  let ?q = "4643643 / 10000000 :: rat"
  have p: "(2::rat) powi (- 2) = 1 / 4" "(2::rat) powi (- 2 + 1) = 1 / 2"
    "(2::rat) powi (- 2 - 52) = 1 / 2 ^ 54"
    by (simp_all add: power_int_def field_simps)
  have "round_double ?q = Finite (of_int (round_half_even (?q / 2 powi (- 2 - 52))) * 2 powi (- 2 - 52))"
    by (rule round_double_normal) (simp_all add: p)
  moreover have "round_half_even (?q / 2 powi (- 2 - 52)) = 8365243553776645"
    by (rule rhe_eq) (simp_all add: p)
  ultimately show ?thesis by (simp add: bias_polygons_def p)
qed

lemma bias_pictures_value: "bias_pictures = Finite (8451174036106725 / 2 ^ 55)"
proof -
  let ?q = "2345672 / 10000000 :: rat"
  have p: "(2::rat) powi (- 3) = 1 / 8" "(2::rat) powi (- 3 + 1) = 1 / 4"
    "(2::rat) powi (- 3 - 52) = 1 / 2 ^ 55"
    by (simp_all add: power_int_def field_simps)
  have "round_double ?q = Finite (of_int (round_half_even (?q / 2 powi (- 3 - 52))) * 2 powi (- 3 - 52))"
    by (rule round_double_normal) (simp_all add: p)
  moreover have "round_half_even (?q / 2 powi (- 3 - 52)) = 8451174036106725"
    by (rule rhe_eq) (simp_all add: p)
  ultimately show ?thesis by (simp add: bias_pictures_def p)
qed

lemma double_value_bits:
  assumes M: "2 ^ 52 \<le> M" "M < 2 ^ 53" and e: "- 1022 \<le> e" "e \<le> 1023"
  shows "double_value (double_bits (Finite (of_int M * 2 powi (e - 52)))) =
         Finite (of_int M * 2 powi (e - 52))"
proof -
  let ?u = "(2::rat) powi (e - 52)"
  let ?s = "of_int M * ?u"
  have u: "2 powi e = 2 ^ 52 * ?u" "2 powi (e + 1) = 2 ^ 53 * ?u"
  proof -
    have "e = 52 + (e - 52)" by simp
    then have "(2::rat) powi e = 2 powi (52 + (e - 52))" by (rule arg_cong)
    also have "\<dots> = 2 powi 52 * 2 powi (e - 52)" by (rule power_int_add) simp
    finally show "2 powi e = 2 ^ 52 * ?u" by simp
    have "e + 1 = 53 + (e - 52)" by simp
    then have "(2::rat) powi (e + 1) = 2 powi (53 + (e - 52))" by (rule arg_cong)
    also have "\<dots> = 2 powi 53 * 2 powi (e - 52)" by (rule power_int_add) simp
    finally show "2 powi (e + 1) = 2 ^ 53 * ?u" by simp
  qed
  have Mr: "(2::rat) ^ 52 \<le> of_int M" "(of_int M :: rat) < 2 ^ 53"
    using M by (metis of_int_le_iff of_int_numeral of_int_power, metis of_int_less_iff of_int_numeral of_int_power)
  have pos: "0 < ?s" using Mr by (simp add: zero_less_mult_iff)
  have "2 powi e \<le> ?s" unfolding u using Mr by (intro mult_right_mono) simp_all
  moreover have "?s < 2 powi (e + 1)" unfolding u using Mr by (intro mult_strict_right_mono) simp_all
  ultimately have b: "binade ?s = e" using e(1) by (simp add: binade_eq)
  have ab: "\<bar>?s\<bar> = ?s" using pos by simp
  have m: "\<lfloor>?s / ?u\<rfloor> = M" by simp
  define W where "W = (e + 1023) * 2 ^ 52 + (M - 2 ^ 52)"
  have n1: "\<not> ?s < 0" using pos by simp
  have n2: "\<not> M < 2 ^ 52" using M by simp
  have bits: "double_bits (Finite ?s) = word_of_int W"
    unfolding double_bits_def jsnum.case Let_def ab b m W_def
    by (simp only: n1 n2 if_False add_0)
  have W: "0 \<le> W" "W < 2 ^ 63"
    using M e by (simp_all add: W_def)
  have uW: "uint (word_of_int W :: 64 word) = W"
    using W by (simp add: uint_word_of_int take_bit_eq_mod)
  have hi: "W div 2 ^ 52 = e + 1023"
    by (rule int_div_pos_eq [where r = "M - 2 ^ 52"]) (use M in \<open>simp_all add: W_def\<close>)
  have lo: "W mod 2 ^ 52 = M - 2 ^ 52"
    by (rule int_mod_pos_eq [where q = "e + 1023"]) (use M in \<open>simp_all add: W_def\<close>)
  have "W div 2 ^ 63 = 0" using W by simp
  then have "\<not> bit W 63" by (simp only: bit_iff_odd) simp
  then have sign: "\<not> bit (word_of_int W :: 64 word) 63"
    by (simp only: bit_word_of_int_iff) simp
  have ef: "take_bit 11 (drop_bit 52 W) = e + 1023"
    unfolding drop_bit_eq_div hi take_bit_eq_mod using e by simp
  have mf: "take_bit 52 W = M - 2 ^ 52"
    unfolding take_bit_eq_mod lo by (rule refl)
  have "e + 1023 - 1075 = e - 52" by simp
  then show ?thesis
    using e unfolding bits double_value_def Let_def uW ef mf by (simp add: sign)
qed



text \<open>The unit in the last place of the binade \<open>k\<close>, for \<open>k \<le> 52\<close>, is \<open>1 / 2 ^ (52 - k)\<close>.\<close>

lemma ulp_small:
  assumes "k \<le> 52"
  shows "(2::rat) powi (int k - 52) = 1 / 2 ^ (52 - k)"
proof -
  have "int k - 52 = - int (52 - k)" using assms by simp
  then have "(2::rat) powi (int k - 52) = 2 powi (- int (52 - k))" by (rule arg_cong)
  also have "\<dots> = inverse (2 powi int (52 - k))" by (rule power_int_minus)
  also have "\<dots> = 1 / 2 ^ (52 - k)" by (simp add: inverse_eq_divide)
  finally show ?thesis .
qed

lemma binade_of_nat:
  assumes "2 ^ k \<le> n" and "n < 2 ^ (k + 1)"
  shows "(2::rat) powi int k \<le> of_nat n" and "(of_nat n :: rat) + 1 \<le> 2 powi (int k + 1)"
proof -
  have "(of_nat (2 ^ k) :: rat) \<le> of_nat n" using assms(1) by (simp only: of_nat_le_iff)
  then show "(2::rat) powi int k \<le> of_nat n" by simp
  have "n + 1 \<le> 2 ^ (k + 1)" using assms(2) by simp
  then have "(of_nat (n + 1) :: rat) \<le> of_nat (2 ^ (k + 1))" by (simp only: of_nat_le_iff)
  moreover have "(2::rat) powi (int k + 1) = 2 ^ (k + 1)"
    by (metis of_nat_Suc power_int_of_nat Suc_eq_plus1 of_nat_add of_nat_1)
  ultimately show "(of_nat n :: rat) + 1 \<le> 2 powi (int k + 1)" by simp
qed



lemma ulp_below:
  assumes "k \<le> 52"
  shows "(2::rat) powi (int k - 1 - 52) = 1 / (2 * 2 ^ (52 - k))"
proof -
  have "int k - 1 - 52 = - int (Suc (52 - k))" using assms by simp
  then have "(2::rat) powi (int k - 1 - 52) = 2 powi (- int (Suc (52 - k)))" by (rule arg_cong)
  also have "\<dots> = inverse (2 powi int (Suc (52 - k)))" by (rule power_int_minus)
  also have "\<dots> = inverse (2 ^ Suc (52 - k))" by (simp only: power_int_of_nat)
  also have "\<dots> = 1 / (2 * 2 ^ (52 - k))" by (simp add: inverse_eq_divide)
  finally show ?thesis .
qed

lemma scaled_nat:
  assumes k: "2 ^ k \<le> n" "n < 2 ^ (k + 1)" "k \<le> 30"
  defines "N \<equiv> int n * 2 ^ (52 - k)"
  shows "(of_int N :: rat) = of_nat n * 2 ^ (52 - k)"
    and "2 ^ 52 \<le> N" and "N + 2 ^ (52 - k) \<le> 2 ^ 53" and "even N"
    and "(4::rat) \<le> 2 ^ (52 - k)"
proof -
  show "(of_int N :: rat) = of_nat n * 2 ^ (52 - k)" by (simp add: N_def)
  have p: "(2::int) ^ k * 2 ^ (52 - k) = 2 ^ 52" "(2::int) ^ (k + 1) * 2 ^ (52 - k) = 2 ^ 53"
    using k(3) by (simp_all flip: power_add)
  have "(2::int) ^ k \<le> int n" using k(1) by (metis of_nat_le_iff of_nat_numeral of_nat_power)
  then have "2 ^ k * 2 ^ (52 - k) \<le> int n * (2::int) ^ (52 - k)"
    by (intro mult_right_mono) simp_all
  then show "2 ^ 52 \<le> N" by (simp only: p N_def)
  have "int n + 1 \<le> 2 ^ (k + 1)"
    using k(2) by (metis of_nat_less_iff of_nat_numeral of_nat_power zless_imp_add1_zle)
  then have "(int n + 1) * 2 ^ (52 - k) \<le> 2 ^ (k + 1) * (2::int) ^ (52 - k)"
    by (intro mult_right_mono) simp_all
  then show "N + 2 ^ (52 - k) \<le> 2 ^ 53" by (simp only: p N_def) (simp add: algebra_simps)
  have "52 - k = Suc (51 - k)" using k(3) by simp
  then show "even N" by (simp add: N_def)
  have "(2::rat) ^ 2 \<le> 2 ^ (52 - k)" using k(3) by (intro power_increasing) simp_all
  then show "(4::rat) \<le> 2 ^ (52 - k)" by simp
qed



text \<open>
  The sum \<open>n + c\<close> of a positive count below \<open>2 ^ 31\<close> and a constant below one half,
  as a double: a mantissa \<open>R\<close> in the binade of \<open>n\<close>, at most half a unit away.
\<close>

lemma count_plus_bias:
  assumes k: "2 ^ k \<le> n" "n < 2 ^ (k + 1)" "k \<le> 30" and c: "0 < c" "c < 1 / 2"
  shows "\<exists>R. round_double (of_nat n + c) = Finite (of_int R * 2 powi (int k - 52)) \<and>
    2 ^ 52 \<le> R \<and> R < 2 ^ 53 \<and>
    \<bar>of_int R - (of_nat n + c) * 2 ^ (52 - k)\<bar> \<le> 1 / 2"
proof -
  define D where "D = (2::rat) ^ (52 - k)"
  define N where "N = int n * 2 ^ (52 - k)"
  have N: "(of_int N :: rat) = of_nat n * D" "2 ^ 52 \<le> N" "N + 2 ^ (52 - k) \<le> 2 ^ 53"
    and D4: "4 \<le> D"
    using scaled_nat [OF k] by (simp_all add: N_def D_def)
  have ND: "(of_int N :: rat) + D \<le> 2 ^ 53"
  proof -
    have "(of_int (N + 2 ^ (52 - k)) :: rat) \<le> of_int (2 ^ 53)" using N(3) by (simp only: of_int_le_iff)
    then show ?thesis by (simp add: D_def)
  qed
  have u: "(2::rat) powi (int k - 52) = 1 / D"
    using k(3) by (simp add: ulp_small D_def)
  let ?q = "of_nat n + c :: rat"
  have lo: "2 powi int k \<le> ?q" and hi: "?q < 2 powi (int k + 1)"
    using binade_of_nat [OF k(1,2)] c by linarith+
  have rd: "round_double ?q = Finite (of_int (round_half_even (?q / 2 powi (int k - 52))) * 2 powi (int k - 52))"
    using lo hi k(3) by (intro round_double_normal) simp_all
  define R where "R = round_half_even (?q * D)"
  have qD: "?q / 2 powi (int k - 52) = ?q * D" by (simp add: u)
  have cD: "0 < c * D" "c * D < D / 2" using c D4 by (simp_all add: zero_less_mult_iff)
  have q: "?q * D = of_int N + c * D" by (simp add: N(1) algebra_simps)
  have "of_int N \<le> ?q * D" using cD q by linarith
  then have R1: "N \<le> R" unfolding R_def by (rule rhe_ge_int)
  have "?q * D \<le> 2 ^ 53 - 1" using q cD ND D4 by linarith
  then have "?q * D \<le> of_int (2 ^ 53 - 1)" by simp
  then have R2: "R \<le> 2 ^ 53 - 1" unfolding R_def by (rule rhe_le_int)
  have err: "\<bar>of_int R - ?q * D\<bar> \<le> 1 / 2" unfolding R_def by (rule rhe_error)
  show ?thesis
    using rd R1 R2 N(2) err unfolding qD R_def [symmetric] D_def [symmetric] 
    by (intro exI [of _ R]) simp
qed



text \<open>
  Subtracting the constant again from a double that is within half a unit of \<open>n + c\<close>
  gives \<open>n\<close>, or, when \<open>n\<close> is a power of two, possibly the double just below it.
\<close>

lemma count_minus_bias:
  assumes k: "2 ^ k \<le> n" "n < 2 ^ (k + 1)" "k \<le> 30" and c: "0 < c" "c < 1 / 2"
    and s: "\<bar>s * 2 ^ (52 - k) - (of_nat n + c) * 2 ^ (52 - k)\<bar> \<le> 1 / 2"
  shows "\<exists>t. round_double (s - c) = Finite t \<and> of_nat n - 1 < t \<and> t \<le> of_nat n"
proof -
  define D where "D = (2::rat) ^ (52 - k)"
  define N where "N = int n * 2 ^ (52 - k)"
  have N: "(of_int N :: rat) = of_nat n * D" "2 ^ 52 \<le> N" "N + 2 ^ (52 - k) \<le> 2 ^ 53" "even N"
    and D4: "4 \<le> D"
    using scaled_nat [OF k] by (simp_all add: N_def D_def)
  have D0: "0 < D" using D4 by simp
  have NR: "(2::rat) ^ 52 \<le> of_int N" "(of_int N :: rat) + D \<le> 2 ^ 53"
  proof -
    have "(of_int (2 ^ 52) :: rat) \<le> of_int N" using N(2) by (simp only: of_int_le_iff)
    then show "(2::rat) ^ 52 \<le> of_int N" by simp
    have "(of_int (N + 2 ^ (52 - k)) :: rat) \<le> of_int (2 ^ 53)" using N(3) by (simp only: of_int_le_iff)
    then show "(of_int N :: rat) + D \<le> 2 ^ 53" by (simp add: D_def)
  qed
  have k52: "k \<le> 52" using k(3) by simp
  have u: "(2::rat) powi (int k - 52) = 1 / D" "(2::rat) powi (int k - 1 - 52) = 1 / (2 * D)"
    unfolding D_def by (rule ulp_small [OF k52], rule ulp_below [OF k52])
  have p: "(2::rat) powi (int k - 1) = 2 ^ 51 / D" "(2::rat) powi int k = 2 ^ 52 / D"
    "(2::rat) powi (int k + 1) = 2 ^ 53 / D"
  proof -
    have "int k - 1 = 51 + (int k - 52)" by simp
    then have "(2::rat) powi (int k - 1) = 2 powi (51 + (int k - 52))" by (rule arg_cong)
    also have "\<dots> = 2 powi 51 * 2 powi (int k - 52)" by (rule power_int_add) simp
    finally show "(2::rat) powi (int k - 1) = 2 ^ 51 / D" by (simp add: u)
    have "int k = 52 + (int k - 52)" by simp
    then have "(2::rat) powi int k = 2 powi (52 + (int k - 52))" by (rule arg_cong)
    also have "\<dots> = 2 powi 52 * 2 powi (int k - 52)" by (rule power_int_add) simp
    finally show "(2::rat) powi int k = 2 ^ 52 / D" by (simp add: u)
    have "int k + 1 = 53 + (int k - 52)" by simp
    then have "(2::rat) powi (int k + 1) = 2 powi (53 + (int k - 52))" by (rule arg_cong)
    also have "\<dots> = 2 powi 53 * 2 powi (int k - 52)" by (rule power_int_add) simp
    finally show "(2::rat) powi (int k + 1) = 2 ^ 53 / D" by (simp add: u)
  qed
  define d where "d = s - c"
  define x where "x = d * D"
  have "x = s * D - (of_nat n + c) * D + of_int N"
    by (simp add: x_def d_def N(1) algebra_simps)
  moreover have "\<bar>s * D - (of_nat n + c) * D\<bar> \<le> 1 / 2"
    using s unfolding D_def .
  ultimately have x: "of_int N - 1 / 2 \<le> x" "x \<le> of_int N + 1 / 2"
    by linarith+
  have dx: "d = x / D" using D0 by (simp add: x_def)
  have nN: "(of_nat n :: rat) = of_int N / D" using D0 by (simp add: N(1))
  show ?thesis
  proof (cases "2 powi int k \<le> d")
    case True
    have "x < 2 ^ 53" using x(2) NR(2) D4 by linarith
    then have hi: "d < 2 powi (int k + 1)"
      unfolding p dx using D0 by (simp add: divide_strict_right_mono)
    have "round_double d = Finite (of_int (round_half_even (d / 2 powi (int k - 52))) * 2 powi (int k - 52))"
      using True hi k(3) by (intro round_double_normal) simp_all
    moreover have "d / 2 powi (int k - 52) = x" by (simp add: u x_def)
    moreover have "round_half_even x = N"
      using rhe_le_even [OF x(2) N(4)] rhe_ge_even [OF x(1) N(4)] by simp
    ultimately have "round_double (s - c) = Finite (of_nat n)"
      by (simp add: u nN d_def)
    then show ?thesis by simp
  next
    case False
    then have hi: "d < 2 powi (int k - 1 + 1)" by simp
    have "2 ^ 51 \<le> x" using x(1) NR(1) by simp
    then have lo: "2 powi (int k - 1) \<le> d"
      unfolding p dx using D0 by (simp add: divide_right_mono)
    define R where "R = round_half_even (2 * x)"
    have r1: "round_double d =
        Finite (of_int (round_half_even (d / 2 powi (int k - 1 - 52))) * 2 powi (int k - 1 - 52))"
      using lo hi k(3) by (intro round_double_normal) simp_all
    have r2: "d / 2 powi (int k - 1 - 52) = 2 * x" unfolding u x_def by simp
    have rd: "round_double (s - c) = Finite (of_int R / (2 * D))"
      using r1 [unfolded r2, folded R_def] unfolding u d_def by simp
    have "x < 2 ^ 52" using False D0 unfolding p dx by (simp add: pos_divide_le_eq not_le)
    then have "2 * x \<le> of_int (2 ^ 53)" by simp
    then have "R \<le> 2 ^ 53" unfolding R_def by (rule rhe_le_int)
    then have "(of_int R :: rat) \<le> of_int (2 ^ 53)" by (simp only: of_int_le_iff)
    then have R1: "(of_int R :: rat) \<le> 2 * 2 ^ 52" by simp
    have "\<bar>of_int R - 2 * x\<bar> \<le> 1 / 2" unfolding R_def by (rule rhe_error)
    then have R2: "2 * of_int N - 3 / 2 \<le> (of_int R :: rat)" using x(1) by linarith
    have le: "of_int R / (2 * D) \<le> of_nat n"
    proof -
      have "of_int R / (2 * D) \<le> (2 * 2 ^ 52) / (2 * D)"
        using R1 D0 by (intro divide_right_mono) simp_all
      also have "\<dots> = 2 ^ 52 / D" by simp
      also have "\<dots> \<le> of_int N / D" using NR(1) D0 by (intro divide_right_mono) simp_all
      finally show ?thesis by (simp only: nN)
    qed
    have gt: "of_nat n - 1 < of_int R / (2 * D)"
    proof -
      have "(2 * of_int N - 3 / 2) / (2 * D) \<le> of_int R / (2 * D)"
        using R2 D0 by (intro divide_right_mono) simp_all
      moreover have "(2 * of_int N - 3 / 2) / (2 * D) = of_int N / D - 3 / (4 * D)"
        using D0 by (simp add: field_simps)
      moreover have "3 / (4 * D) < 1" using D4 by simp
      ultimately show ?thesis unfolding nN by linarith
    qed
    show ?thesis using rd le gt by blast
  qed
qed



text \<open>A value with a 53-bit mantissa in the normal range is a double: rounding keeps it.\<close>

lemma round_double_exact:
  assumes M: "2 ^ 52 \<le> M" "M < 2 ^ 53" and e: "- 1022 \<le> e" "e \<le> 1022"
  shows "round_double (of_int M * 2 powi (e - 52)) = Finite (of_int M * 2 powi (e - 52))"
proof -
  let ?u = "(2::rat) powi (e - 52)"
  let ?s = "of_int M * ?u"
  have u: "2 powi e = 2 ^ 52 * ?u" "2 powi (e + 1) = 2 ^ 53 * ?u"
  proof -
    have "e = 52 + (e - 52)" by simp
    then have "(2::rat) powi e = 2 powi (52 + (e - 52))" by (rule arg_cong)
    also have "\<dots> = 2 powi 52 * 2 powi (e - 52)" by (rule power_int_add) simp
    finally show "2 powi e = 2 ^ 52 * ?u" by simp
    have "e + 1 = 53 + (e - 52)" by simp
    then have "(2::rat) powi (e + 1) = 2 powi (53 + (e - 52))" by (rule arg_cong)
    also have "\<dots> = 2 powi 53 * 2 powi (e - 52)" by (rule power_int_add) simp
    finally show "2 powi (e + 1) = 2 ^ 53 * ?u" by simp
  qed
  have Mr: "(2::rat) ^ 52 \<le> of_int M" "(of_int M :: rat) < 2 ^ 53"
    using M by (metis of_int_le_iff of_int_numeral of_int_power, metis of_int_less_iff of_int_numeral of_int_power)
  have lo: "2 powi e \<le> ?s" unfolding u using Mr by (intro mult_right_mono) simp_all
  have hi: "?s < 2 powi (e + 1)" unfolding u using Mr by (intro mult_strict_right_mono) simp_all
  have q: "?s / ?u = of_int M" by simp
  have r: "round_half_even (of_int M) = M" by (rule rhe_eq) simp_all
  show ?thesis
    using round_double_normal [OF lo hi e] unfolding q r .
qed

text \<open>
  A list length below \<open>2\<^sup>3\<^sup>1\<close>, stored with a constant between 0 and a half added and
  read with the constant subtracted, comes back as a number in \<open>(n - 1, n]\<close>, so that
  the loop \<open>i < count\<close> runs exactly \<open>n\<close> times.
\<close>

lemma count_field_general:
  assumes n: "n < 2 ^ 31" and c: "0 < c" "c < 1 / 2"
    and cz: "double_value (double_bits (round_double c)) = Finite c"
  shows "\<exists>t. js_sub (double_value (double_bits (js_add (js_nat n) (Finite c)))) (Finite c) = Finite t \<and>
           of_nat n - 1 < t \<and> t \<le> of_nat n"
proof (cases "n = 0")
  case True
  have z: "round_double 0 = Finite 0" by (simp add: round_double_def)
  have "js_add (js_nat n) (Finite c) = round_double c" by (simp add: True js_nat_def)
  then have "js_sub (double_value (double_bits (js_add (js_nat n) (Finite c)))) (Finite c) = Finite 0"
    by (simp add: cz js_sub_def z)
  then show ?thesis using True by simp
next
  case False
  then have "1 \<le> n" by simp
  with ex_power_ivl1 [of 2 n] obtain k where k: "2 ^ k \<le> n" "n < 2 ^ (k + 1)" by auto
  have "(2::nat) ^ k < 2 ^ 31" using k(1) n by simp
  then have "k < 31" by (simp only: power_strict_increasing_iff) 
  then have k30: "k \<le> 30" by simp
  from count_plus_bias [OF k k30 c] obtain R where
    R: "round_double (of_nat n + c) = Finite (of_int R * 2 powi (int k - 52))"
      "2 ^ 52 \<le> R" "R < 2 ^ 53"
      "\<bar>of_int R - (of_nat n + c) * 2 ^ (52 - k)\<bar> \<le> 1 / 2"
    by blast
  define s where "s = of_int R * (2::rat) powi (int k - 52)"
  have dv: "double_value (double_bits (Finite s)) = Finite s"
    unfolding s_def using R(2,3) k30 by (intro double_value_bits) simp_all
  have "s * 2 ^ (52 - k) = of_int R"
    using k30 by (simp add: s_def ulp_small)
  then have "\<bar>s * 2 ^ (52 - k) - (of_nat n + c) * 2 ^ (52 - k)\<bar> \<le> 1 / 2"
    using R(4) by simp
  from count_minus_bias [OF k k30 c this] obtain t where
    t: "round_double (s - c) = Finite t" "of_nat n - 1 < t" "t \<le> of_nat n"
    by blast
  have "js_sub (double_value (double_bits (js_add (js_nat n) (Finite c)))) (Finite c) = Finite t"
    by (simp add: js_nat_def R(1) s_def [symmetric] dv js_sub_def t(1))
  then show ?thesis using t(2,3) by blast
qed

lemma count_loop_guard:
  assumes "of_nat n - 1 < t" and "t \<le> of_nat n"
  shows "js_less (js_nat i) (Finite t) \<longleftrightarrow> i < n"
proof
  assume "js_less (js_nat i) (Finite t)"
  then have "(of_nat i :: rat) < of_nat n" using assms(2) by (simp add: js_nat_def)
  then show "i < n" by (simp only: of_nat_less_iff)
next
  assume "i < n"
  then have "i + 1 \<le> n" by simp
  then have "(of_nat (i + 1) :: rat) \<le> of_nat n" by (simp only: of_nat_le_iff)
  then show "js_less (js_nat i) (Finite t)" using assms(1) by (simp add: js_nat_def)
qed

lemma bias_is_double:
  assumes M: "2 ^ 52 \<le> M" "M < 2 ^ 53" and e: "- 1022 \<le> e" "e \<le> 1022"
  shows "double_value (double_bits (round_double (of_int M * 2 powi (e - 52)))) =
    Finite (of_int M * 2 powi (e - 52))"
  unfolding round_double_exact [OF M e] using M e by (intro double_value_bits) simp_all

lemma polygon_count_field:
  assumes "n < 2 ^ 31"
  shows "js_less (js_nat i)
           (js_sub (double_value (double_bits (js_add (js_nat n) bias_polygons))) bias_polygons)
         \<longleftrightarrow> i < n"
proof -
  let ?c = "8365243553776645 / 2 ^ 54 :: rat"
  have p: "(2::rat) powi (- 2 - 52) = 1 / 2 ^ 54"
    by (simp add: power_int_def field_simps)
  have "double_value (double_bits (round_double (of_int 8365243553776645 * 2 powi (- 2 - 52)))) =
      Finite (of_int 8365243553776645 * 2 powi (- 2 - 52))"
    by (rule bias_is_double) simp_all
  then have cz: "double_value (double_bits (round_double ?c)) = Finite ?c"
    unfolding p by simp
  have "\<exists>t. js_sub (double_value (double_bits (js_add (js_nat n) (Finite ?c)))) (Finite ?c) = Finite t \<and>
           of_nat n - 1 < t \<and> t \<le> of_nat n"
    using assms by (intro count_field_general cz) simp_all
  then obtain t where t: "js_sub (double_value (double_bits (js_add (js_nat n) bias_polygons))) bias_polygons = Finite t"
      "of_nat n - 1 < t" "t \<le> of_nat n"
    unfolding bias_polygons_value by blast
  show ?thesis unfolding t(1) using t(2,3) by (rule count_loop_guard)
qed

lemma picture_count_field:
  assumes "n < 2 ^ 31"
  shows "js_less (js_nat i)
           (js_sub (double_value (double_bits (js_add (js_nat n) bias_pictures))) bias_pictures)
         \<longleftrightarrow> i < n"
proof -
  let ?c = "8451174036106725 / 2 ^ 55 :: rat"
  have p: "(2::rat) powi (- 3 - 52) = 1 / 2 ^ 55"
    by (simp add: power_int_def field_simps)
  have "double_value (double_bits (round_double (of_int 8451174036106725 * 2 powi (- 3 - 52)))) =
      Finite (of_int 8451174036106725 * 2 powi (- 3 - 52))"
    by (rule bias_is_double) simp_all
  then have cz: "double_value (double_bits (round_double ?c)) = Finite ?c"
    unfolding p by simp
  have "\<exists>t. js_sub (double_value (double_bits (js_add (js_nat n) (Finite ?c)))) (Finite ?c) = Finite t \<and>
           of_nat n - 1 < t \<and> t \<le> of_nat n"
    using assms by (intro count_field_general cz) simp_all
  then obtain t where t: "js_sub (double_value (double_bits (js_add (js_nat n) bias_pictures))) bias_pictures = Finite t"
      "of_nat n - 1 < t" "t \<le> of_nat n"
    unfolding bias_pictures_value by blast
  show ?thesis unfolding t(1) using t(2,3) by (rule count_loop_guard)
qed



lemma three_and_a_half: "double_value 0x400C000000000000 = Finite (7 / 2)"
  by (simp add: double_value_def Let_def power_int_def power_one_over)

text \<open>
  The number 3.5 less the polygon bias is a number between 3 and 3.5: the nearest
  integer is 3, and the loop \<open>i < count\<close> runs four times.
\<close>

lemma three_and_a_half_less_bias:
  "js_sub (double_value 0x400C000000000000) bias_polygons = Finite (6835643903676287 / 2 ^ 51)"
proof -
  let ?q = "7 / 2 - 8365243553776645 / 2 ^ 54 :: rat"
  have p: "(2::rat) powi 1 = 2" "(2::rat) powi (1 + 1) = 4" "(2::rat) powi (1 - 52) = 1 / 2 ^ 51"
    by (simp_all add: power_int_def power_one_over)
  have "round_double ?q = Finite (of_int (round_half_even (?q / 2 powi (1 - 52))) * 2 powi (1 - 52))"
    by (rule round_double_normal) (simp_all add: p)
  moreover have "round_half_even (?q / 2 powi (1 - 52)) = 6835643903676287"
    by (rule rhe_eq) (simp_all add: p)
  ultimately have "round_double ?q = Finite (6835643903676287 / 2 ^ 51)" by (simp add: p)
  then show ?thesis
    by (simp add: three_and_a_half bias_polygons_value js_sub_def)
qed

lemma three_and_a_half_loop:
  "js_less (js_nat j) (js_sub (double_value 0x400C000000000000) bias_polygons) \<longleftrightarrow> j < 4"
  unfolding three_and_a_half_less_bias by (rule count_loop_guard) simp_all


section \<open>Properties of the decoder\<close>


lemma readInt32LE_ok:
  "offset + 4 \<le> length buffer \<Longrightarrow> \<exists>v. readInt32LE buffer offset = Inr v"
  by (simp add: readInt32LE_def)

lemma readUInt32LE_ok:
  "offset + 4 \<le> length buffer \<Longrightarrow> \<exists>v. readUInt32LE buffer offset = Inr v"
  by (simp add: readUInt32LE_def)

lemma readDoubleLE_ok:
  "offset + 8 \<le> length buffer \<Longrightarrow> \<exists>v. readDoubleLE buffer offset = Inr v"
  by (simp add: readDoubleLE_def)

lemma object_of_codes_rejects:
  "objType \<notin> {1, 2, 3, 4} \<Longrightarrow> object_of_codes ox oy objType gravity animation = Inl InvalidObjectType"
  "objType = 2 \<Longrightarrow> gravity \<notin> {0, 1, 2, 3, 4} \<Longrightarrow>
     object_of_codes ox oy objType gravity animation = Inl InvalidGravityValue"
  by (simp_all add: object_of_codes_def)

lemma parse_object_codes:
  assumes "offset + 28 \<le> length buffer"
    and "readInt32LE buffer (offset + 16) = Inr objType"
    and "readInt32LE buffer (offset + 20) = Inr gravity"
  shows "\<exists>ox oy animation. parse_object buffer offset =
    and_then (object_of_codes ox oy objType gravity animation) (\<lambda>object. Inr (object, offset + 28))"
proof -
  obtain ox where ox: "readDoubleLE buffer offset = Inr ox"
    using readDoubleLE_ok [of offset buffer] assms(1) by auto
  obtain oy where oy: "readDoubleLE buffer (offset + 8) = Inr oy"
    using readDoubleLE_ok [of "offset + 8" buffer] assms(1) by auto
  obtain a where a: "readInt32LE buffer (offset + 24) = Inr a"
    using readInt32LE_ok [of "offset + 24" buffer] assms(1) by auto
  show ?thesis
    by (simp add: parse_object_def ox oy a assms(2,3)) blast
qed

lemma parse_picture_clip:
  assumes "offset + 54 \<le> length buffer"
    and "readInt32LE buffer (offset + 50) = Inr clip"
    and "clip \<notin> {0, 1, 2}"
  shows "parse_picture buffer offset = Inl InvalidClipValue"
proof -
  obtain px where px: "readDoubleLE buffer (offset + 30) = Inr px"
    using readDoubleLE_ok [of "offset + 30" buffer] assms(1) by auto
  obtain py where py: "readDoubleLE buffer (offset + 38) = Inr py"
    using readDoubleLE_ok [of "offset + 38" buffer] assms(1) by auto
  obtain d where d: "readInt32LE buffer (offset + 46) = Inr d"
    using readInt32LE_ok [of "offset + 46" buffer] assms(1) by auto
  have "clip_of_code clip = Inl InvalidClipValue"
    using assms(3) by (simp add: clip_of_code_def)
  then show ?thesis
    by (simp add: parse_picture_def Let_def px py d assms(2))
qed

lemma js_less_nat_mono:
  "js_less (js_nat a) n \<Longrightarrow> b \<le> a \<Longrightarrow> js_less (js_nat b) n"
  by (cases n) (simp_all add: js_nat_def)

lemma parse_objects_first_error:
  assumes "\<forall>j < k. \<exists>object. parse_object buffer (offset + 28 * j) = Inr (object, offset + 28 * (j + 1))"
    and "parse_object buffer (offset + 28 * k) = Inl e"
    and "js_less (js_nat (i + k)) n"
  shows "parse_objects buffer n i offset objects = Inl e"
  using assms
proof (induction k arbitrary: i offset objects)
  case 0
  then show ?case by (subst parse_objects.simps) simp
next
  case (Suc k)
  from Suc.prems(1) obtain object where o: "parse_object buffer offset = Inr (object, offset + 28)"
    by force
  have less: "js_less (js_nat i) n"
    using Suc.prems(3) by (rule js_less_nat_mono) simp
  have "parse_objects buffer n (i + 1) (offset + 28) (objects @ [object]) = Inl e"
  proof (rule Suc.IH)
    show "\<forall>j<k. \<exists>object. parse_object buffer (offset + 28 + 28 * j) = Inr (object, offset + 28 + 28 * (j + 1))"
    proof (intro allI impI)
      fix j assume "j < k"
      then have "Suc j < Suc k" by simp
      with Suc.prems(1) obtain ob where
        "parse_object buffer (offset + 28 * Suc j) = Inr (ob, offset + 28 * (Suc j + 1))" by blast
      then show "\<exists>object. parse_object buffer (offset + 28 + 28 * j) = Inr (object, offset + 28 + 28 * (j + 1))"
        by (simp add: algebra_simps)
    qed
    show "parse_object buffer (offset + 28 + 28 * k) = Inl e"
      using Suc.prems(2) by (simp add: algebra_simps)
    show "js_less (js_nat (i + 1 + k)) n"
      using Suc.prems(3) by simp
  qed
  then show ?case
    using less o by (subst parse_objects.simps) simp
qed

lemma parse_pictures_first_error:
  assumes "\<forall>j < k. \<exists>picture. parse_picture buffer (offset + 54 * j) = Inr (picture, offset + 54 * (j + 1))"
    and "parse_picture buffer (offset + 54 * k) = Inl e"
    and "js_less (js_nat (i + k)) n"
  shows "parse_pictures buffer n i offset pictures = Inl e"
  using assms
proof (induction k arbitrary: i offset pictures)
  case 0
  then show ?case by (subst parse_pictures.simps) simp
next
  case (Suc k)
  from Suc.prems(1) obtain picture where o: "parse_picture buffer offset = Inr (picture, offset + 54)"
    by force
  have less: "js_less (js_nat i) n"
    using Suc.prems(3) by (rule js_less_nat_mono) simp
  have "parse_pictures buffer n (i + 1) (offset + 54) (pictures @ [picture]) = Inl e"
  proof (rule Suc.IH)
    show "\<forall>j<k. \<exists>picture. parse_picture buffer (offset + 54 + 54 * j) = Inr (picture, offset + 54 + 54 * (j + 1))"
    proof (intro allI impI)
      fix j assume "j < k"
      then have "Suc j < Suc k" by simp
      with Suc.prems(1) obtain ob where
        "parse_picture buffer (offset + 54 * Suc j) = Inr (ob, offset + 54 * (Suc j + 1))" by blast
      then show "\<exists>picture. parse_picture buffer (offset + 54 + 54 * j) = Inr (picture, offset + 54 + 54 * (j + 1))"
        by (simp add: algebra_simps)
    qed
    show "parse_picture buffer (offset + 54 + 54 * k) = Inl e"
      using Suc.prems(2) by (simp add: algebra_simps)
    show "js_less (js_nat (i + 1 + k)) n"
      using Suc.prems(3) by simp
  qed
  then show ?case
    using less o by (subst parse_pictures.simps) simp
qed


section \<open>Properties of the encoder\<close>


subsection \<open>Writes that append to what has been written\<close>

lemma write_at_end:
  "length bs \<le> m \<Longrightarrow>
   write_at (w @ replicate m 0) (length w) bs = (w @ bs) @ replicate (m - length bs) 0"
  by (simp add: write_at_def)

lemma put_at_bytes:
  assumes "es_buffer st = w @ replicate m 0" and "length w = offset" and "length bs \<le> m"
    and "\<And>b. offset + length bs \<le> length b \<Longrightarrow> wr b = Inr (write_at b offset bs)"
  shows "put_at st wr = Inr (st\<lparr>es_buffer := (w @ bs) @ replicate (m - length bs) 0\<rparr>)"
proof -
  have "offset + length bs \<le> length (es_buffer st)" using assms(1-3) by simp
  then have "wr (es_buffer st) = Inr (write_at (es_buffer st) offset bs)" by (rule assms(4))
  then show ?thesis
    using assms(1-3) write_at_end [of bs m w] by (simp add: put_at_def)
qed


lemma put_bytes:
  assumes "appended st w m" and "length bs = n" and "n \<le> m"
    and "\<And>b offset. offset + n \<le> length b \<Longrightarrow> wr b offset = Inr (write_at b offset bs)"
  shows "\<exists>st'. put st wr n = Inr st' \<and> appended st' (w @ bs) (m - n)"
proof -
  have "es_offset st + n \<le> length (es_buffer st)" using assms(1-3) by (simp add: appended_def)
  then have "wr (es_buffer st) (es_offset st) = Inr (write_at (es_buffer st) (es_offset st) bs)"
    by (rule assms(4))
  then show ?thesis
    using assms(1-3) write_at_end [of bs m w] by (simp add: put_def appended_def)
qed

lemma length_double_bytes [simp]: "length (double_bytes d) = 8"
  by (simp add: double_bytes_def)

lemma length_int32_bytes [simp]: "length (int32_bytes v) = 4"
  by (simp add: int32_bytes_def)

lemma put_double:
  assumes "appended st w m" and "8 \<le> m"
  shows "\<exists>st'. put st (\<lambda>b off. writeDoubleLE b d off) 8 = Inr st' \<and>
           appended st' (w @ double_bytes d) (m - 8)"
  by (rule put_bytes [OF assms(1) _ assms(2), where bs = "double_bytes d"])
    (simp_all add: writeDoubleLE_def double_bytes_def)

lemma put_int32:
  assumes "appended st w m" and "4 \<le> m" and "is_int32 v"
  shows "\<exists>st'. put st (\<lambda>b off. writeInt32LE b v off) 4 = Inr st' \<and>
           appended st' (w @ int32_bytes v) (m - 4)"
  by (rule put_bytes [OF assms(1) _ assms(2), where bs = "int32_bytes v"])
    (use assms(3) in \<open>simp_all add: writeInt32LE_def int32_bytes_def is_int32_def\<close>)

lemma put_ascii:
  assumes "appended st w m" and "length s = n" and "n \<le> m"
  shows "\<exists>st'. put st (\<lambda>b off. write_ascii b s off) n = Inr st' \<and>
           appended st' (w @ ascii_bytes s) (m - n)"
  by (rule put_bytes [OF assms(1) _ assms(3), where bs = "ascii_bytes s"])
    (use assms(2) in \<open>simp_all add: write_ascii_def\<close>)



subsection \<open>The records\<close>

lemma length_vertex_bytes [simp]: "length (vertex_bytes v) = 16"
  by (simp add: vertex_bytes_def)

lemma length_vertices_bytes [simp]: "length (concat (map vertex_bytes vs)) = 16 * length vs"
  by (induction vs) simp_all

lemma length_polygon_bytes [simp]:
  "length (polygon_bytes p) = 8 + 16 * length (poly_vertices p)"
  by (simp add: polygon_bytes_def)

lemma write_vertices_bytes:
  assumes "appended st w m" and "16 * length vs \<le> m"
  shows "\<exists>st'. write_vertices st vs = Inr st' \<and>
           appended st' (w @ concat (map vertex_bytes vs)) (m - 16 * length vs)"
  using assms
proof (induction vs arbitrary: st w m)
  case Nil
  then show ?case by simp
next
  case (Cons v vs)
  have l: "8 \<le> m" "8 \<le> m - 8" "16 * length vs \<le> m - 8 - 8"
    using Cons.prems(2) by simp_all
  from put_double [OF Cons.prems(1) l(1), of "vertex_x v"] obtain st1 where
    s1: "put st (\<lambda>b off. writeDoubleLE b (vertex_x v) off) 8 = Inr st1"
    and a1: "appended st1 (w @ double_bytes (vertex_x v)) (m - 8)" by blast
  from put_double [OF a1 l(2), of "vertex_y v"] obtain st2 where
    s2: "put st1 (\<lambda>b off. writeDoubleLE b (vertex_y v) off) 8 = Inr st2"
    and a2: "appended st2 ((w @ double_bytes (vertex_x v)) @ double_bytes (vertex_y v)) (m - 8 - 8)"
    by blast
  from Cons.IH [OF a2 l(3)] obtain st3 where
    s3: "write_vertices st2 vs = Inr st3"
    and a3: "appended st3 (((w @ double_bytes (vertex_x v)) @ double_bytes (vertex_y v)) @
               concat (map vertex_bytes vs)) (m - 8 - 8 - 16 * length vs)"
    by blast
  have "m - 8 - 8 - 16 * length vs = m - 16 * length (v # vs)" by simp
  with a3 have "appended st3 (w @ concat (map vertex_bytes (v # vs))) (m - 16 * length (v # vs))"
    by (simp add: vertex_bytes_def)
  then show ?case by (simp add: s1 s2 s3)
qed

lemma write_polygon_bytes:
  assumes "appended st w m" and "length (polygon_bytes p) \<le> m" and "valid_polygon p"
  shows "\<exists>st'. write_polygon st p = Inr st' \<and>
           appended st' (w @ polygon_bytes p) (m - length (polygon_bytes p))"
proof -
  have m: "8 + 16 * length (poly_vertices p) \<le> m" using assms(2) by simp
  have g: "is_int32 (if poly_grass p then 1 else 0)" by (simp add: is_int32_def)
  have n: "is_int32 (int (length (poly_vertices p)))"
    using assms(3) by (simp add: is_int32_def valid_polygon_def)
  have l: "4 \<le> m" "4 \<le> m - 4" "16 * length (poly_vertices p) \<le> m - 4 - 4"
    using m by simp_all
  from put_int32 [OF assms(1) l(1) g] obtain st1 where
    s1: "put st (\<lambda>b off. writeInt32LE b (if poly_grass p then 1 else 0) off) 4 = Inr st1"
    and a1: "appended st1 (w @ int32_bytes (if poly_grass p then 1 else 0)) (m - 4)" by blast
  from put_int32 [OF a1 l(2) n] obtain st2 where
    s2: "put st1 (\<lambda>b off. writeInt32LE b (int (length (poly_vertices p))) off) 4 = Inr st2"
    and a2: "appended st2 ((w @ int32_bytes (if poly_grass p then 1 else 0)) @
               int32_bytes (int (length (poly_vertices p)))) (m - 4 - 4)" by blast
  from write_vertices_bytes [OF a2 l(3)] obtain st3 where
    s3: "write_vertices st2 (poly_vertices p) = Inr st3"
    and a3: "appended st3 (((w @ int32_bytes (if poly_grass p then 1 else 0)) @
               int32_bytes (int (length (poly_vertices p)))) @
               concat (map vertex_bytes (poly_vertices p)))
               (m - 4 - 4 - 16 * length (poly_vertices p))" by blast
  have "m - 4 - 4 - 16 * length (poly_vertices p) = m - length (polygon_bytes p)" by simp
  with a3 have "appended st3 (w @ polygon_bytes p) (m - length (polygon_bytes p))"
    by (simp add: polygon_bytes_def)
  then show ?thesis by (simp add: write_polygon_def s1 s2 s3)
qed

lemma write_polygons_bytes:
  assumes "appended st w m" and "length (concat (map polygon_bytes ps)) \<le> m"
    and "list_all valid_polygon ps"
  shows "\<exists>st'. write_polygons st ps = Inr st' \<and>
           appended st' (w @ concat (map polygon_bytes ps))
             (m - length (concat (map polygon_bytes ps)))"
  using assms
proof (induction ps arbitrary: st w m)
  case Nil
  then show ?case by simp
next
  case (Cons p ps)
  have l: "length (polygon_bytes p) \<le> m"
    "length (concat (map polygon_bytes ps)) \<le> m - length (polygon_bytes p)"
    using Cons.prems(2) by simp_all
  have v: "valid_polygon p" "list_all valid_polygon ps" using Cons.prems(3) by simp_all
  from write_polygon_bytes [OF Cons.prems(1) l(1) v(1)] obtain st1 where
    s1: "write_polygon st p = Inr st1"
    and a1: "appended st1 (w @ polygon_bytes p) (m - length (polygon_bytes p))" by blast
  from Cons.IH [OF a1 l(2) v(2)] obtain st2 where
    s2: "write_polygons st1 ps = Inr st2"
    and a2: "appended st2 ((w @ polygon_bytes p) @ concat (map polygon_bytes ps))
               (m - length (polygon_bytes p) - length (concat (map polygon_bytes ps)))" by blast
  have "m - length (polygon_bytes p) - length (concat (map polygon_bytes ps)) =
        m - length (concat (map polygon_bytes (p # ps)))" by simp
  with a2 have "appended st2 (w @ concat (map polygon_bytes (p # ps)))
     (m - length (concat (map polygon_bytes (p # ps))))" by simp
  then show ?case by (simp add: s1 s2)
qed

text \<open>The codes of a valid object, and the object the decoder makes of them.\<close>

lemma valid_object_codes:
  assumes "valid_object object"
  shows "\<exists>t g a. object_codes object = Inr (t, g, Some a) \<and> is_int32 t \<and> is_int32 g \<and> is_int32 a \<and>
           object_of_codes (obj_x object) (obj_y object) t g (a + 1) = Inr object"
proof (cases "obj_type object = ''apple''")
  case True
  with assms obtain a where a: "obj_animation object = Some a" "is_int32 (a - 1)"
    and g: "obj_gravity object \<in> {Some ''normal'', Some ''up'', Some ''down'', Some ''left'', Some ''right''}"
    by (auto simp add: valid_object_def split: option.splits)
  have eq: "\<And>gr. obj_gravity object = Some gr \<Longrightarrow>
      \<lparr>obj_x = obj_x object, obj_y = obj_y object, obj_type = ''apple'', obj_gravity = Some gr,
       obj_animation = Some a\<rparr> = object"
    using True a(1) by simp
  from g consider "obj_gravity object = Some ''normal''" | "obj_gravity object = Some ''up''"
    | "obj_gravity object = Some ''down''" | "obj_gravity object = Some ''left''"
    | "obj_gravity object = Some ''right''" by auto
  then show ?thesis
    by cases (use True a eq in \<open>simp_all add: object_codes_def gravity_code_def object_of_codes_def is_int32_def\<close>)
next
  case False
  with assms have t: "obj_type object \<in> {''exit'', ''killer'', ''start''}"
    and n: "obj_gravity object = None" "obj_animation object = None"
    by (simp_all add: valid_object_def)
  have eq: "\<And>ty. obj_type object = ty \<Longrightarrow>
      \<lparr>obj_x = obj_x object, obj_y = obj_y object, obj_type = ty, obj_gravity = None,
       obj_animation = None\<rparr> = object"
    using n by simp
  from t consider "obj_type object = ''exit''" | "obj_type object = ''killer''"
    | "obj_type object = ''start''" by auto
  then show ?thesis
    by cases (use eq in \<open>simp_all add: object_codes_def object_of_codes_def is_int32_def\<close>)
qed

lemma length_object_bytes [simp]: "valid_object object \<Longrightarrow> length (object_bytes object) = 28"
  using valid_object_codes [of object] by (auto simp add: object_bytes_def)

lemma write_object_bytes:
  assumes "appended st w m" and "28 \<le> m" and "valid_object object"
  shows "\<exists>st'. write_object st object = Inr st' \<and> appended st' (w @ object_bytes object) (m - 28)"
proof -
  from valid_object_codes [OF assms(3)] obtain t g a where
    c: "object_codes object = Inr (t, g, Some a)" and r: "is_int32 t" "is_int32 g" "is_int32 a"
    by blast
  have l: "8 \<le> m" "8 \<le> m - 8" "4 \<le> m - 8 - 8" "4 \<le> m - 8 - 8 - 4" "4 \<le> m - 8 - 8 - 4 - 4"
    using assms(2) by simp_all
  from put_double [OF assms(1) l(1), of "obj_x object"] obtain st1 where
    s1: "put st (\<lambda>b off. writeDoubleLE b (obj_x object) off) 8 = Inr st1"
    and a1: "appended st1 (w @ double_bytes (obj_x object)) (m - 8)" by blast
  from put_double [OF a1 l(2), of "obj_y object"] obtain st2 where
    s2: "put st1 (\<lambda>b off. writeDoubleLE b (obj_y object) off) 8 = Inr st2"
    and a2: "appended st2 ((w @ double_bytes (obj_x object)) @ double_bytes (obj_y object)) (m - 8 - 8)"
    by blast
  from put_int32 [OF a2 l(3) r(1)] obtain st3 where
    s3: "put st2 (\<lambda>b off. writeInt32LE b t off) 4 = Inr st3"
    and a3: "appended st3 (((w @ double_bytes (obj_x object)) @ double_bytes (obj_y object)) @
               int32_bytes t) (m - 8 - 8 - 4)"
    by blast
  from put_int32 [OF a3 l(4) r(2)] obtain st4 where
    s4: "put st3 (\<lambda>b off. writeInt32LE b g off) 4 = Inr st4"
    and a4: "appended st4 ((((w @ double_bytes (obj_x object)) @ double_bytes (obj_y object)) @
               int32_bytes t) @ int32_bytes g) (m - 8 - 8 - 4 - 4)"
    by blast
  from put_int32 [OF a4 l(5) r(3)] obtain st5 where
    s5: "put st4 (\<lambda>b off. writeInt32LE b a off) 4 = Inr st5"
    and a5: "appended st5 (((((w @ double_bytes (obj_x object)) @ double_bytes (obj_y object)) @
               int32_bytes t) @ int32_bytes g) @ int32_bytes a) (m - 8 - 8 - 4 - 4 - 4)"
    by blast
  have "m - 8 - 8 - 4 - 4 - 4 = m - 28" by simp
  with a5 have "appended st5 (w @ object_bytes object) (m - 28)"
    by (simp add: object_bytes_def c)
  moreover have "write_number_Int32LE b (Some a) = writeInt32LE b a" for b
    by (rule ext) (simp add: write_number_Int32LE_def)
  ultimately show ?thesis
    by (simp add: write_object_def c s1 s2 s3 s4 s5)
qed

lemma length_objects_bytes:
  "list_all valid_object os \<Longrightarrow> length (concat (map object_bytes os)) = 28 * length os"
  by (induction os) simp_all

lemma write_objects_bytes:
  assumes "appended st w m" and "28 * length os \<le> m" and "list_all valid_object os"
  shows "\<exists>st'. write_objects st os = Inr st' \<and>
           appended st' (w @ concat (map object_bytes os)) (m - 28 * length os)"
  using assms
proof (induction os arbitrary: st w m)
  case Nil
  then show ?case by simp
next
  case (Cons object os)
  have l: "28 \<le> m" "28 * length os \<le> m - 28" using Cons.prems(2) by simp_all
  have v: "valid_object object" "list_all valid_object os" using Cons.prems(3) by simp_all
  from write_object_bytes [OF Cons.prems(1) l(1) v(1)] obtain st1 where
    s1: "write_object st object = Inr st1"
    and a1: "appended st1 (w @ object_bytes object) (m - 28)" by blast
  from Cons.IH [OF a1 l(2) v(2)] obtain st2 where
    s2: "write_objects st1 os = Inr st2"
    and a2: "appended st2 ((w @ object_bytes object) @ concat (map object_bytes os))
               (m - 28 - 28 * length os)" by blast
  have "m - 28 - 28 * length os = m - 28 * length (object # os)" by simp
  with a2 have "appended st2 (w @ concat (map object_bytes (object # os)))
     (m - 28 * length (object # os))" by simp
  then show ?case by (simp add: s1 s2)
qed



text \<open>The code of a valid clipping mode, and the mode the decoder makes of it.\<close>

lemma valid_picture_clip:
  assumes "valid_picture picture"
  shows "\<exists>c. clip_code (pic_clip picture) = Inr c \<and> is_int32 c \<and>
           clip_of_code c = Inr (pic_clip picture)"
proof -
  from assms consider "pic_clip picture = ''unclipped''" | "pic_clip picture = ''ground''"
    | "pic_clip picture = ''sky''" by (auto simp add: valid_picture_def)
  then show ?thesis
    by cases (simp_all add: clip_code_def clip_of_code_def is_int32_def)
qed

lemma length_picture_bytes [simp]: "valid_picture picture \<Longrightarrow> length (picture_bytes picture) = 54"
  using valid_picture_clip [of picture] by (auto simp add: picture_bytes_def)

lemma write_picture_bytes:
  assumes "appended st w m" and "54 \<le> m" and "valid_picture picture"
  shows "\<exists>st'. write_picture st picture = Inr st' \<and> appended st' (w @ picture_bytes picture) (m - 54)"
proof -
  from valid_picture_clip [OF assms(3)] obtain c where
    c: "clip_code (pic_clip picture) = Inr c" and r: "is_int32 c" by blast
  have d: "is_int32 (pic_distance picture)" using assms(3) by (simp add: valid_picture_def)
  have l: "10 \<le> m" "10 \<le> m - 10" "10 \<le> m - 10 - 10" "8 \<le> m - 10 - 10 - 10"
    "8 \<le> m - 10 - 10 - 10 - 8" "4 \<le> m - 10 - 10 - 10 - 8 - 8" "4 \<le> m - 10 - 10 - 10 - 8 - 8 - 4"
    using assms(2) by simp_all
  let ?n = "nullpadString (pic_name picture) 10"
  let ?t = "nullpadString (pic_texture picture) 10"
  let ?k = "nullpadString (pic_mask picture) 10"
  have n: "length ?n = 10" "length ?t = 10" "length ?k = 10" by simp_all
  from put_ascii [OF assms(1) n(1) l(1)] obtain st1 where
    s1: "put st (\<lambda>b off. write_ascii b ?n off) 10 = Inr st1"
    and a1: "appended st1 (w @ ascii_bytes ?n) (m - 10)" by blast
  from put_ascii [OF a1 n(2) l(2)] obtain st2 where
    s2: "put st1 (\<lambda>b off. write_ascii b ?t off) 10 = Inr st2"
    and a2: "appended st2 ((w @ ascii_bytes ?n) @ ascii_bytes ?t) (m - 10 - 10)" by blast
  from put_ascii [OF a2 n(3) l(3)] obtain st3 where
    s3: "put st2 (\<lambda>b off. write_ascii b ?k off) 10 = Inr st3"
    and a3: "appended st3 (((w @ ascii_bytes ?n) @ ascii_bytes ?t) @ ascii_bytes ?k) (m - 10 - 10 - 10)"
    by blast
  from put_double [OF a3 l(4), of "pic_x picture"] obtain st4 where
    s4: "put st3 (\<lambda>b off. writeDoubleLE b (pic_x picture) off) 8 = Inr st4"
    and a4: "appended st4 ((((w @ ascii_bytes ?n) @ ascii_bytes ?t) @ ascii_bytes ?k) @
               double_bytes (pic_x picture)) (m - 10 - 10 - 10 - 8)"
    by blast
  from put_double [OF a4 l(5), of "pic_y picture"] obtain st5 where
    s5: "put st4 (\<lambda>b off. writeDoubleLE b (pic_y picture) off) 8 = Inr st5"
    and a5: "appended st5 (((((w @ ascii_bytes ?n) @ ascii_bytes ?t) @ ascii_bytes ?k) @
               double_bytes (pic_x picture)) @ double_bytes (pic_y picture)) (m - 10 - 10 - 10 - 8 - 8)"
    by blast
  from put_int32 [OF a5 l(6) d] obtain st6 where
    s6: "put st5 (\<lambda>b off. writeInt32LE b (pic_distance picture) off) 4 = Inr st6"
    and a6: "appended st6 ((((((w @ ascii_bytes ?n) @ ascii_bytes ?t) @ ascii_bytes ?k) @
               double_bytes (pic_x picture)) @ double_bytes (pic_y picture)) @
               int32_bytes (pic_distance picture)) (m - 10 - 10 - 10 - 8 - 8 - 4)"
    by blast
  from put_int32 [OF a6 l(7) r] obtain st7 where
    s7: "put st6 (\<lambda>b off. writeInt32LE b c off) 4 = Inr st7"
    and a7: "appended st7 (((((((w @ ascii_bytes ?n) @ ascii_bytes ?t) @ ascii_bytes ?k) @
               double_bytes (pic_x picture)) @ double_bytes (pic_y picture)) @
               int32_bytes (pic_distance picture)) @ int32_bytes c) (m - 10 - 10 - 10 - 8 - 8 - 4 - 4)"
    by blast
  have "m - 10 - 10 - 10 - 8 - 8 - 4 - 4 = m - 54" by simp
  with a7 have "appended st7 (w @ picture_bytes picture) (m - 54)"
    by (simp add: picture_bytes_def c)
  then show ?thesis
    by (simp add: write_picture_def c s1 s2 s3 s4 s5 s6 s7)
qed

lemma length_pictures_bytes:
  "list_all valid_picture ps \<Longrightarrow> length (concat (map picture_bytes ps)) = 54 * length ps"
  by (induction ps) simp_all

lemma write_pictures_bytes:
  assumes "appended st w m" and "54 * length ps \<le> m" and "list_all valid_picture ps"
  shows "\<exists>st'. write_pictures st ps = Inr st' \<and>
           appended st' (w @ concat (map picture_bytes ps)) (m - 54 * length ps)"
  using assms
proof (induction ps arbitrary: st w m)
  case Nil
  then show ?case by simp
next
  case (Cons picture ps)
  have l: "54 \<le> m" "54 * length ps \<le> m - 54" using Cons.prems(2) by simp_all
  have v: "valid_picture picture" "list_all valid_picture ps" using Cons.prems(3) by simp_all
  from write_picture_bytes [OF Cons.prems(1) l(1) v(1)] obtain st1 where
    s1: "write_picture st picture = Inr st1"
    and a1: "appended st1 (w @ picture_bytes picture) (m - 54)" by blast
  from Cons.IH [OF a1 l(2) v(2)] obtain st2 where
    s2: "write_pictures st1 ps = Inr st2"
    and a2: "appended st2 ((w @ picture_bytes picture) @ concat (map picture_bytes ps))
               (m - 54 - 54 * length ps)" by blast
  have "m - 54 - 54 * length ps = m - 54 * length (picture # ps)" by simp
  with a2 have "appended st2 (w @ concat (map picture_bytes (picture # ps)))
     (m - 54 * length (picture # ps))" by simp
  then show ?case by (simp add: s1 s2)
qed

subsection \<open>The header\<close>

text \<open>
  The writes of the header are at fixed offsets, each where the one before ended; the
  offset of the state is not used before the polygons.
\<close>

lemma put_at_append:
  assumes "appended (st\<lparr>es_offset := length w\<rparr>) w m" and "length w = offset" and "length bs \<le> m"
    and "\<And>b. offset + length bs \<le> length b \<Longrightarrow> wr b = Inr (write_at b offset bs)"
  shows "\<exists>st'. put_at st wr = Inr st' \<and>
           appended (st'\<lparr>es_offset := length (w @ bs)\<rparr>) (w @ bs) (m - length bs)"
proof -
  have b: "es_buffer st = w @ replicate m 0" and r: "es_rejected st = None"
    using assms(1) by (simp_all add: appended_def)
  have "put_at st wr = Inr (st\<lparr>es_buffer := (w @ bs) @ replicate (m - length bs) 0\<rparr>)"
    using b assms(2-4) by (rule put_at_bytes)
  then show ?thesis using r by (simp add: appended_def)
qed

lemma write_integrity_bytes:
  assumes "appended (st\<lparr>es_offset := length w\<rparr>) w m" and "length w = 11 + i * 8"
    and "8 * length ds \<le> m"
  shows "\<exists>st'. write_integrity st i ds = Inr st' \<and>
           appended (st'\<lparr>es_offset := length (w @ concat (map double_bytes ds))\<rparr>)
             (w @ concat (map double_bytes ds)) (m - 8 * length ds)"
  using assms
proof (induction ds arbitrary: st w m i)
  case Nil
  then show ?case by simp
next
  case (Cons d ds)
  have l: "length (double_bytes d) \<le> m" "8 * length ds \<le> m - length (double_bytes d)"
    "length (w @ double_bytes d) = 11 + (i + 1) * 8"
    using Cons.prems(2,3) by simp_all
  have "\<exists>st'. put_at st (\<lambda>b. writeDoubleLE b d (11 + i * 8)) = Inr st' \<and>
      appended (st'\<lparr>es_offset := length (w @ double_bytes d)\<rparr>) (w @ double_bytes d)
        (m - length (double_bytes d))"
    using Cons.prems(1,2) l(1)
    by (rule put_at_append) (simp add: writeDoubleLE_def double_bytes_def)
  then obtain st1 where s1: "put_at st (\<lambda>b. writeDoubleLE b d (11 + i * 8)) = Inr st1"
    and a1: "appended (st1\<lparr>es_offset := length (w @ double_bytes d)\<rparr>) (w @ double_bytes d)
        (m - length (double_bytes d))" by blast
  from Cons.IH [OF a1 l(3) l(2)] obtain st2 where
    s2: "write_integrity st1 (i + 1) ds = Inr st2"
    and a2: "appended (st2\<lparr>es_offset := length ((w @ double_bytes d) @ concat (map double_bytes ds))\<rparr>)
             ((w @ double_bytes d) @ concat (map double_bytes ds))
             (m - length (double_bytes d) - 8 * length ds)" by blast
  have "m - length (double_bytes d) - 8 * length ds = m - 8 * length (d # ds)" by simp
  with a2 have "appended (st2\<lparr>es_offset := length (w @ concat (map double_bytes (d # ds)))\<rparr>)
             (w @ concat (map double_bytes (d # ds))) (m - 8 * length (d # ds))" by simp
  then show ?case using s2 by (simp add: s1)
qed

lemma bufferSize_bytes:
  "bufferSize this =
     850 + length (concat (map polygon_bytes (lev_polygons this))) +
     28 * length (lev_objects this) + 54 * length (lev_pictures this)"
proof -
  have "fold (\<lambda>polygon size. size + (8 + 16 * length (poly_vertices polygon))) ps a =
        a + length (concat (map polygon_bytes ps))" for ps :: "double polygon list" and a
    by (induction ps arbitrary: a) simp_all
  then show ?thesis by (simp add: bufferSize_def)
qed



subsection \<open>The whole file\<close>

lemma length_count_bytes [simp]: "length (count_bytes n bias) = 8"
  by (simp add: count_bytes_def)

lemma length_header_bytes:
  "length (lev_integrity this) = 4 \<Longrightarrow> length (header_bytes this) = 130"
proof -
  assume "length (lev_integrity this) = 4"
  moreover have "length (concat (map double_bytes ds)) = 8 * length ds" for ds
    by (induction ds) simp_all
  ultimately show ?thesis by (simp add: header_bytes_def)
qed

lemma level_bytes_data:
  "level_bytes K this = data_bytes K this @ score_block (lev_top10 this) @ int32_bytes (EOF_MARKER K)"
  by (simp add: level_bytes_def data_bytes_def)

lemma write_level_bytes:
  assumes v: "valid_level this" and K: "is_int32 (EOD_MARKER K)"
    and c: "length (lev_integrity this) = 4"
    and st: "st = \<lparr>es_buffer = Buffer_alloc (bufferSize this), es_offset = 0, es_rejected = None\<rparr>"
  shows "\<exists>st'. write_level K this st = Inr st' \<and> appended st' (data_bytes K this) 692"
proof -
  define n where "n = bufferSize this"
  define Lp where "Lp = length (concat (map polygon_bytes (lev_polygons this)))"
  define No where "No = length (lev_objects this)"
  define Np where "Np = length (lev_pictures this)"
  have n: "n = 850 + Lp + 28 * No + 54 * Np"
    by (simp add: n_def Lp_def No_def Np_def bufferSize_bytes)
  have vl: "0 \<le> lev_link this" "lev_link this \<le> 0xFFFFFFFF"
    and vp: "list_all valid_polygon (lev_polygons this)"
    and vo: "list_all valid_object (lev_objects this)"
    and vi: "list_all valid_picture (lev_pictures this)"
    using v by (simp_all add: valid_level_def)
  have lk: "0 \<le> js_and (lev_link this) 0xFFFF" "js_and (lev_link this) 0xFFFF \<le> 0xFFFF"
  proof -
    have "take_bit 16 (lev_link this) < 2 ^ 16" by (rule take_bit_int_less_exp)
    then show "js_and (lev_link this) 0xFFFF \<le> 0xFFFF" by (simp add: js_and_FFFF)
    show "0 \<le> js_and (lev_link this) 0xFFFF" by (simp add: js_and_FFFF)
  qed
  let ?b1 = "ascii_bytes ''POT14''"
  let ?b2 = "le_bytes 2 (js_and (lev_link this) 0xFFFF)"
  let ?b3 = "le_bytes 4 (lev_link this)"
  let ?b4 = "concat (map double_bytes (lev_integrity this))"
  let ?b5 = "ascii_bytes (nullpadString (lev_name this) 51)"
  let ?b6 = "ascii_bytes (nullpadString (lev_lgr this) 16)"
  let ?b7 = "ascii_bytes (nullpadString (lev_ground this) 10)"
  let ?b8 = "ascii_bytes (nullpadString (lev_sky this) 10)"
  let ?b9 = "double_bytes (double_bits (js_add (js_nat (length (lev_polygons this))) bias_polygons))"
  let ?w1 = "[] @ ?b1" let ?w2 = "?w1 @ ?b2" let ?w3 = "?w2 @ ?b3" let ?w4 = "?w3 @ ?b4"
  let ?w5 = "?w4 @ ?b5" let ?w6 = "?w5 @ ?b6" let ?w7 = "?w6 @ ?b7" let ?w8 = "?w7 @ ?b8"
  let ?w9 = "?w8 @ ?b9"
  have l4: "length ?b4 = 32"
  proof -
    have "length (concat (map double_bytes ds)) = 8 * length ds" for ds
      by (induction ds) simp_all
    then show ?thesis using c by simp
  qed
  have a0: "appended (st\<lparr>es_offset := length ([] :: byte list)\<rparr>) [] n"
    by (simp add: st appended_def Buffer_alloc_def n_def)
  have "\<exists>st'. put_at st (\<lambda>b. write_ascii b ''POT14'' 0) = Inr st' \<and>
      appended (st'\<lparr>es_offset := length ?w1\<rparr>) ?w1 (n - length ?b1)"
    using a0 by (rule put_at_append [where offset = 0]) (simp_all add: write_ascii_def n)
  then obtain st1 where s1: "put_at st (\<lambda>b. write_ascii b ''POT14'' 0) = Inr st1"
    and a1: "appended (st1\<lparr>es_offset := length ?w1\<rparr>) ?w1 (n - length ?b1)" by blast
  have "\<exists>st'. put_at st1 (\<lambda>b. writeUInt16LE b (js_and (lev_link this) 0xFFFF) 5) = Inr st' \<and>
      appended (st'\<lparr>es_offset := length ?w2\<rparr>) ?w2 (n - length ?b1 - length ?b2)"
    using a1 by (rule put_at_append [where offset = 5]) (use lk in \<open>simp_all add: writeUInt16LE_def n\<close>)
  then obtain st2 where s2: "put_at st1 (\<lambda>b. writeUInt16LE b (js_and (lev_link this) 0xFFFF) 5) = Inr st2"
    and a2: "appended (st2\<lparr>es_offset := length ?w2\<rparr>) ?w2 (n - length ?b1 - length ?b2)" by blast
  have "\<exists>st'. put_at st2 (\<lambda>b. writeUInt32LE b (lev_link this) 7) = Inr st' \<and>
      appended (st'\<lparr>es_offset := length ?w3\<rparr>) ?w3 (n - length ?b1 - length ?b2 - length ?b3)"
    using a2 by (rule put_at_append [where offset = 7]) (use vl in \<open>simp_all add: writeUInt32LE_def n\<close>)
  then obtain st3 where s3: "put_at st2 (\<lambda>b. writeUInt32LE b (lev_link this) 7) = Inr st3"
    and a3: "appended (st3\<lparr>es_offset := length ?w3\<rparr>) ?w3 (n - length ?b1 - length ?b2 - length ?b3)"
    by blast
  have "\<exists>st'. write_integrity st3 0 (lev_integrity this) = Inr st' \<and>
      appended (st'\<lparr>es_offset := length ?w4\<rparr>) ?w4
        (n - length ?b1 - length ?b2 - length ?b3 - 8 * length (lev_integrity this))"
    using a3 by (rule write_integrity_bytes) (simp_all add: n c)
  then obtain st4 where s4: "write_integrity st3 0 (lev_integrity this) = Inr st4"
    and a4: "appended (st4\<lparr>es_offset := length ?w4\<rparr>) ?w4
        (n - length ?b1 - length ?b2 - length ?b3 - 8 * length (lev_integrity this))" by blast
  have "\<exists>st'. put_at st4 (\<lambda>b. write_ascii b (nullpadString (lev_name this) 51) 43) = Inr st' \<and>
      appended (st'\<lparr>es_offset := length ?w5\<rparr>) ?w5
        (n - length ?b1 - length ?b2 - length ?b3 - 8 * length (lev_integrity this) - length ?b5)"
    using a4 by (rule put_at_append [where offset = 43]) (simp_all add: write_ascii_def n c l4)
  then obtain st5 where s5: "put_at st4 (\<lambda>b. write_ascii b (nullpadString (lev_name this) 51) 43) = Inr st5"
    and a5: "appended (st5\<lparr>es_offset := length ?w5\<rparr>) ?w5
        (n - length ?b1 - length ?b2 - length ?b3 - 8 * length (lev_integrity this) - length ?b5)"
    by blast
  have "\<exists>st'. put_at st5 (\<lambda>b. write_ascii b (nullpadString (lev_lgr this) 16) 94) = Inr st' \<and>
      appended (st'\<lparr>es_offset := length ?w6\<rparr>) ?w6
        (n - length ?b1 - length ?b2 - length ?b3 - 8 * length (lev_integrity this) - length ?b5
           - length ?b6)"
    using a5 by (rule put_at_append [where offset = 94]) (simp_all add: write_ascii_def n c l4)
  then obtain st6 where s6: "put_at st5 (\<lambda>b. write_ascii b (nullpadString (lev_lgr this) 16) 94) = Inr st6"
    and a6: "appended (st6\<lparr>es_offset := length ?w6\<rparr>) ?w6
        (n - length ?b1 - length ?b2 - length ?b3 - 8 * length (lev_integrity this) - length ?b5
           - length ?b6)"
    by blast
  have "\<exists>st'. put_at st6 (\<lambda>b. write_ascii b (nullpadString (lev_ground this) 10) 110) = Inr st' \<and>
      appended (st'\<lparr>es_offset := length ?w7\<rparr>) ?w7
        (n - length ?b1 - length ?b2 - length ?b3 - 8 * length (lev_integrity this) - length ?b5
           - length ?b6 - length ?b7)"
    using a6 by (rule put_at_append [where offset = 110]) (simp_all add: write_ascii_def n c l4)
  then obtain st7 where s7: "put_at st6 (\<lambda>b. write_ascii b (nullpadString (lev_ground this) 10) 110) = Inr st7"
    and a7: "appended (st7\<lparr>es_offset := length ?w7\<rparr>) ?w7
        (n - length ?b1 - length ?b2 - length ?b3 - 8 * length (lev_integrity this) - length ?b5
           - length ?b6 - length ?b7)"
    by blast
  have "\<exists>st'. put_at st7 (\<lambda>b. write_ascii b (nullpadString (lev_sky this) 10) 120) = Inr st' \<and>
      appended (st'\<lparr>es_offset := length ?w8\<rparr>) ?w8
        (n - length ?b1 - length ?b2 - length ?b3 - 8 * length (lev_integrity this) - length ?b5
           - length ?b6 - length ?b7 - length ?b8)"
    using a7 by (rule put_at_append [where offset = 120]) (simp_all add: write_ascii_def n c l4)
  then obtain st8 where s8: "put_at st7 (\<lambda>b. write_ascii b (nullpadString (lev_sky this) 10) 120) = Inr st8"
    and a8: "appended (st8\<lparr>es_offset := length ?w8\<rparr>) ?w8
        (n - length ?b1 - length ?b2 - length ?b3 - 8 * length (lev_integrity this) - length ?b5
           - length ?b6 - length ?b7 - length ?b8)"
    by blast
  have "\<exists>st'. put_at st8 (\<lambda>b. writeDoubleLE b
        (double_bits (js_add (js_nat (length (lev_polygons this))) bias_polygons)) 130) = Inr st' \<and>
      appended (st'\<lparr>es_offset := length ?w9\<rparr>) ?w9
        (n - length ?b1 - length ?b2 - length ?b3 - 8 * length (lev_integrity this) - length ?b5
           - length ?b6 - length ?b7 - length ?b8 - length ?b9)"
    using a8 by (rule put_at_append [where offset = 130]) (simp_all add: writeDoubleLE_def double_bytes_def n c l4)
  then obtain st9 where s9: "put_at st8 (\<lambda>b. writeDoubleLE b
        (double_bits (js_add (js_nat (length (lev_polygons this))) bias_polygons)) 130) = Inr st9"
    and a9: "appended (st9\<lparr>es_offset := length ?w9\<rparr>) ?w9
        (n - length ?b1 - length ?b2 - length ?b3 - 8 * length (lev_integrity this) - length ?b5
           - length ?b6 - length ?b7 - length ?b8 - length ?b9)"
    by blast
  define H where "H = header_bytes this @ count_bytes (length (lev_polygons this)) bias_polygons"
  have H: "?w9 = H" by (simp add: H_def header_bytes_def count_bytes_def)
  have lH: "length H = 138" by (simp add: H_def length_header_bytes c)
  have b0: "appended (st9\<lparr>es_offset := 138\<rparr>) H (712 + Lp + 28 * No + 54 * Np)"
  proof -
    have "n - length ?b1 - length ?b2 - length ?b3 - 8 * length (lev_integrity this) - length ?b5
           - length ?b6 - length ?b7 - length ?b8 - length ?b9 = 712 + Lp + 28 * No + 54 * Np"
      by (simp add: n c)
    then show ?thesis using a9 unfolding H lH by simp
  qed
  have "length (concat (map polygon_bytes (lev_polygons this))) \<le> 712 + Lp + 28 * No + 54 * Np"
    by (simp add: Lp_def)
  from write_polygons_bytes [OF b0 this vp] obtain st10 where
    s10: "write_polygons (st9\<lparr>es_offset := 138\<rparr>) (lev_polygons this) = Inr st10"
    and b1: "appended st10 (H @ concat (map polygon_bytes (lev_polygons this)))
        (712 + Lp + 28 * No + 54 * Np - Lp)"
    unfolding Lp_def [symmetric] by blast
  have m1: "712 + Lp + 28 * No + 54 * Np - Lp = 712 + 28 * No + 54 * Np" by simp
  have "8 \<le> 712 + 28 * No + 54 * Np" by simp
  from put_double [OF b1 [unfolded m1] this] obtain st11 where
    s11: "put st10 (\<lambda>b off. writeDoubleLE b
            (double_bits (js_add (js_nat (length (lev_objects this))) bias_polygons)) off) 8 = Inr st11"
    and b2: "appended st11 ((H @ concat (map polygon_bytes (lev_polygons this))) @
        double_bytes (double_bits (js_add (js_nat (length (lev_objects this))) bias_polygons)))
        (712 + 28 * No + 54 * Np - 8)"
    by blast
  have m2: "712 + 28 * No + 54 * Np - 8 = 704 + 28 * No + 54 * Np" by simp
  have "28 * length (lev_objects this) \<le> 704 + 28 * No + 54 * Np" by (simp add: No_def)
  from write_objects_bytes [OF b2 [unfolded m2] this vo] obtain st12 where
    s12: "write_objects st11 (lev_objects this) = Inr st12"
    and b3: "appended st12 (((H @ concat (map polygon_bytes (lev_polygons this))) @
        double_bytes (double_bits (js_add (js_nat (length (lev_objects this))) bias_polygons))) @
        concat (map object_bytes (lev_objects this)))
        (704 + 28 * No + 54 * Np - 28 * length (lev_objects this))"
    by blast
  have m3: "704 + 28 * No + 54 * Np - 28 * length (lev_objects this) = 704 + 54 * Np"
    by (simp add: No_def)
  have "8 \<le> 704 + 54 * Np" by simp
  from put_double [OF b3 [unfolded m3] this] obtain st13 where
    s13: "put st12 (\<lambda>b off. writeDoubleLE b
            (double_bits (js_add (js_nat (length (lev_pictures this))) bias_pictures)) off) 8 = Inr st13"
    and b4: "appended st13 ((((H @ concat (map polygon_bytes (lev_polygons this))) @
        double_bytes (double_bits (js_add (js_nat (length (lev_objects this))) bias_polygons))) @
        concat (map object_bytes (lev_objects this))) @
        double_bytes (double_bits (js_add (js_nat (length (lev_pictures this))) bias_pictures)))
        (704 + 54 * Np - 8)"
    by blast
  have m4: "704 + 54 * Np - 8 = 696 + 54 * Np" by simp
  have "54 * length (lev_pictures this) \<le> 696 + 54 * Np" by (simp add: Np_def)
  from write_pictures_bytes [OF b4 [unfolded m4] this vi] obtain st14 where
    s14: "write_pictures st13 (lev_pictures this) = Inr st14"
    and b5: "appended st14 (((((H @ concat (map polygon_bytes (lev_polygons this))) @
        double_bytes (double_bits (js_add (js_nat (length (lev_objects this))) bias_polygons))) @
        concat (map object_bytes (lev_objects this))) @
        double_bytes (double_bits (js_add (js_nat (length (lev_pictures this))) bias_pictures))) @
        concat (map picture_bytes (lev_pictures this)))
        (696 + 54 * Np - 54 * length (lev_pictures this))"
    by blast
  have m5: "696 + 54 * Np - 54 * length (lev_pictures this) = 696" by (simp add: Np_def)
  have "(4::nat) \<le> 696" by simp
  from put_int32 [OF b5 [unfolded m5] this K] obtain st15 where
    s15: "put st14 (\<lambda>b off. writeInt32LE b (EOD_MARKER K) off) 4 = Inr st15"
    and b6: "appended st15 ((((((H @ concat (map polygon_bytes (lev_polygons this))) @
        double_bytes (double_bits (js_add (js_nat (length (lev_objects this))) bias_polygons))) @
        concat (map object_bytes (lev_objects this))) @
        double_bytes (double_bits (js_add (js_nat (length (lev_pictures this))) bias_pictures))) @
        concat (map picture_bytes (lev_pictures this))) @ int32_bytes (EOD_MARKER K))
        (696 - 4)"
    by blast
  have "appended st15 (data_bytes K this) 692"
    using b6 by (simp add: data_bytes_def H_def count_bytes_def)
  moreover have "write_level K this st = Inr st15"
    by (simp add: write_level_def s1 s2 s3 s4 s5 s6 s7 s8 s9 s10 s11 s12 s13 s14 s15)
  ultimately show ?thesis by blast
qed



text \<open>
  \<open>_update\<close> on a valid level whose score times fit: the promise resolves with the
  bytes of the level, and the level is left with the new checksums and with its score
  lists sorted.
\<close>

lemma update_bytes:
  assumes v: "valid_level this" and s: "valid_scores (lev_top10 this)"
    and K: "valid_markers K" and c: "length checksums = 4"
  shows "update K checksums this =
    (this\<lparr>lev_integrity := checksums,
          lev_top10 := (lev_top10 this)\<lparr>
            top10_single := sort_by_time (top10_single (lev_top10 this)),
            top10_multi := sort_by_time (top10_multi (lev_top10 this))\<rparr>\<rparr>,
     Inr (level_bytes K (this\<lparr>lev_integrity := checksums\<rparr>)))"
proof -
  define this' where "this' = this\<lparr>lev_integrity := checksums\<rparr>"
  define st where "st = \<lparr>es_buffer = Buffer_alloc (bufferSize this'), es_offset = 0, es_rejected = None\<rparr>"
  have v': "valid_level this'" using v by (simp add: this'_def valid_level_def)
  have c': "length (lev_integrity this') = 4" using c by (simp add: this'_def)
  have t': "lev_top10 this' = lev_top10 this" by (simp add: this'_def)
  have K1: "is_int32 (EOD_MARKER K)" and K2: "is_int32 (EOF_MARKER K)"
    using K by (simp_all add: valid_markers_def)
  from write_level_bytes [OF v' K1 c' st_def] obtain st1 where
    w: "write_level K this' st = Inr st1" and a: "appended st1 (data_bytes K this') 692" by blast
  let ?D = "data_bytes K this'"
  let ?B = "score_block (lev_top10 this)"
  have tb: "top10ToBuffer (lev_top10 this') =
      ((lev_top10 this)\<lparr>top10_single := sort_by_time (top10_single (lev_top10 this)),
            top10_multi := sort_by_time (top10_multi (lev_top10 this))\<rparr>, Inr ?B)"
    unfolding t' by (rule score_block_times(1) [OF s])
  have lB: "length ?B = 688" by (rule score_block_times(2) [OF s])
  have b1: "es_buffer st1 = ?D @ replicate 692 0" and o1: "es_offset st1 = length ?D"
    and r1: "es_rejected st1 = None"
    using a by (simp_all add: appended_def)
  have wb: "write_at (es_buffer st1) (length ?D) ?B = (?D @ ?B) @ replicate 4 0"
    unfolding b1 using write_at_end [of ?B 692 ?D] lB by simp
  have ver: "lev_version this' = ''Elma''" using v' by (simp add: valid_level_def)
  have we: "writeInt32LE ((?D @ ?B) @ replicate 4 0) (EOF_MARKER K) (length ?D + 688) =
      Inr (level_bytes K this')"
  proof -
    have "write_at ((?D @ ?B) @ replicate 4 0) (length (?D @ ?B)) (int32_bytes (EOF_MARKER K)) =
        ((?D @ ?B) @ int32_bytes (EOF_MARKER K)) @ replicate (4 - length (int32_bytes (EOF_MARKER K))) 0"
      by (rule write_at_end) simp
    then have "write_at ((?D @ ?B) @ replicate 4 0) (length ?D + 688) (int32_bytes (EOF_MARKER K)) =
        level_bytes K this'"
      using lB by (simp add: level_bytes_data t')
    then show ?thesis
      using K2 lB by (simp add: writeInt32LE_def is_int32_def int32_bytes_def)
  qed
  have "update K checksums this =
      (this'\<lparr>lev_top10 := (lev_top10 this)\<lparr>
            top10_single := sort_by_time (top10_single (lev_top10 this)),
            top10_multi := sort_by_time (top10_multi (lev_top10 this))\<rparr>\<rparr>,
       Inr (level_bytes K this'))"
    by (simp add: update_def Let_def this'_def [symmetric] st_def [symmetric] ver
        w tb put_def wb o1 we [unfolded append_assoc] r1)
  then show ?thesis by (simp add: this'_def)
qed


section \<open>Decoding the bytes of a level\<close>

text \<open>
  The decoder at an offset sees the bytes from the offset on. When these begin with the
  bytes of a field, the read returns the field, and the bytes after it are what the
  decoder sees at the next offset.
\<close>

lemma drop_advance:
  assumes "drop offset buffer = a @ r"
  shows "drop (offset + length a) buffer = r"
proof -
  have "drop (offset + length a) buffer = drop (length a) (drop offset buffer)"
    by (simp add: add.commute)
  then show ?thesis by (simp add: assms)
qed

lemma drop_length:
  assumes "drop offset buffer = a @ r" and "0 < length a"
  shows "offset + length a \<le> length buffer"
proof -
  have "length (drop offset buffer) = length a + length r" by (simp add: assms(1))
  then have "length buffer - offset = length a + length r" by simp
  then show ?thesis using assms(2) by arith
qed

lemma slice_at:
  assumes "drop offset buffer = a @ r" and "length a = n"
  shows "slice buffer offset (offset + n) = a"
  using assms by (simp add: slice_def)

lemma read_double_at:
  assumes "drop offset buffer = double_bytes d @ r"
  shows "readDoubleLE buffer offset = Inr d"
proof -
  have l: "offset + 8 \<le> length buffer" using drop_length [OF assms] by simp
  have s: "slice buffer offset (offset + 8) = le_bytes 8 (uint d)"
    using slice_at [OF assms, of 8] by (simp add: double_bytes_def)
  have "uint d < 2 ^ 64" using uint_bounded [of d] by simp
  then have "le_int (le_bytes 8 (uint d)) = uint d"
    by (intro le_int_le_bytes_id) simp_all
  then show ?thesis using l by (simp add: readDoubleLE_def s)
qed

lemma read_int32_at:
  assumes "drop offset buffer = int32_bytes v @ r" and "is_int32 v"
  shows "readInt32LE buffer offset = Inr v"
proof -
  have l: "offset + 4 \<le> length buffer" using drop_length [OF assms(1)] by simp
  have s: "slice buffer offset (offset + 4) = le_bytes 4 (v mod 2 ^ 32)"
    using slice_at [OF assms(1), of 4] by (simp add: int32_bytes_def)
  have m: "le_int (le_bytes 4 (v mod 2 ^ 32)) = v mod 2 ^ 32"
    by (intro le_int_le_bytes_id) simp_all
  have "to_int32 (v mod 2 ^ 32) = v"
  proof (cases "0 \<le> v")
    case True
    then have "v mod 2 ^ 32 = v" using assms(2) by (simp add: is_int32_def)
    then show ?thesis using True assms(2) by (simp add: to_int32_def is_int32_def)
  next
    case False
    then have "v mod 2 ^ 32 = v + 2 ^ 32"
      using assms(2) by (intro int_mod_pos_eq [where q = "- 1"]) (simp_all add: is_int32_def)
    then show ?thesis using False assms(2) by (simp add: to_int32_def is_int32_def)
  qed
  then show ?thesis using l m by (simp add: readInt32LE_def s)
qed

lemma read_uint32_at:
  assumes "drop offset buffer = le_bytes 4 v @ r" and "0 \<le> v" and "v \<le> 0xFFFFFFFF"
  shows "readUInt32LE buffer offset = Inr v"
proof -
  have l: "offset + 4 \<le> length buffer" using drop_length [OF assms(1)] by simp
  have s: "slice buffer offset (offset + 4) = le_bytes 4 v"
    using slice_at [OF assms(1), of 4] by simp
  have m: "le_int (le_bytes 4 v) = v"
    using assms(2,3) by (intro le_int_le_bytes_id) simp_all
  show ?thesis using l by (simp add: readUInt32LE_def s m)
qed

lemma field_at:
  assumes "drop offset buffer = ascii_bytes (nullpadString s n) @ r" and "field_string n s"
  shows "trimString (slice buffer offset (offset + n)) = s"
  using slice_at [OF assms(1), of n] assms(2) by (simp add: trimString_nullpadString)

subsection \<open>The records\<close>

lemma parse_vertices_bytes:
  assumes "drop offset buffer = concat (map vertex_bytes vs) @ r"
    and "vertexCount = int (j + length vs)"
  shows "parse_vertices buffer vertexCount j offset acc = Inr (acc @ vs, offset + 16 * length vs)"
  using assms
proof (induction vs arbitrary: offset j acc)
  case Nil
  then show ?case by (subst parse_vertices.simps) simp
next
  case (Cons v vs)
  have "vertex_bytes v = double_bytes (vertex_x v) @ double_bytes (vertex_y v)"
    by (simp add: vertex_bytes_def)
  then have d0: "drop offset buffer =
      double_bytes (vertex_x v) @ double_bytes (vertex_y v) @ concat (map vertex_bytes vs) @ r"
    using Cons.prems(1) by simp
  have x: "readDoubleLE buffer offset = Inr (vertex_x v)" by (rule read_double_at [OF d0])
  have d1: "drop (offset + 8) buffer = double_bytes (vertex_y v) @ concat (map vertex_bytes vs) @ r"
    using drop_advance [OF d0] by simp
  have y: "readDoubleLE buffer (offset + 8) = Inr (vertex_y v)" by (rule read_double_at [OF d1])
  have d2: "drop (offset + 16) buffer = concat (map vertex_bytes vs) @ r"
    using drop_advance [OF d1] by (simp add: add.assoc)
  have c: "vertexCount = int (j + 1 + length vs)" using Cons.prems(2) by simp
  have "parse_vertices buffer vertexCount (j + 1) (offset + 16) (acc @ [v]) =
      Inr ((acc @ [v]) @ vs, offset + 16 + 16 * length vs)"
    by (rule Cons.IH [OF d2 c])
  moreover have e: "\<lparr>vertex_x = vertex_x v, vertex_y = vertex_y v\<rparr> = v" by simp
  ultimately show ?case
    using Cons.prems(2) by (subst parse_vertices.simps) (simp add: x y e add.assoc)
qed

lemma parse_polygon_bytes:
  assumes "drop offset buffer = polygon_bytes p @ r" and "valid_polygon p"
  shows "parse_polygon buffer offset = Inr (p, offset + length (polygon_bytes p))"
proof -
  let ?g = "if poly_grass p then 1 else 0 :: int"
  let ?n = "int (length (poly_vertices p))"
  have d0: "drop offset buffer =
      int32_bytes ?g @ int32_bytes ?n @ concat (map vertex_bytes (poly_vertices p)) @ r"
    using assms(1) by (simp add: polygon_bytes_def)
  have g: "readInt32LE buffer offset = Inr ?g"
    by (rule read_int32_at [OF d0]) (simp add: is_int32_def)
  have d1: "drop (offset + 4) buffer = int32_bytes ?n @ concat (map vertex_bytes (poly_vertices p)) @ r"
    using drop_advance [OF d0] by simp
  have n: "readInt32LE buffer (offset + 4) = Inr ?n"
    by (rule read_int32_at [OF d1]) (use assms(2) in \<open>simp add: is_int32_def valid_polygon_def\<close>)
  have d2: "drop (offset + 8) buffer = concat (map vertex_bytes (poly_vertices p)) @ r"
    using drop_advance [OF d1] by (simp add: add.assoc)
  have vs: "parse_vertices buffer ?n 0 (offset + 8) [] =
      Inr ([] @ poly_vertices p, offset + 8 + 16 * length (poly_vertices p))"
    by (rule parse_vertices_bytes [OF d2]) simp
  have e: "\<lparr>poly_grass = poly_grass p, poly_vertices = poly_vertices p\<rparr> = p" by simp
  have e': "\<lparr>poly_grass = True, poly_vertices = poly_vertices p\<rparr> = p" if "poly_grass p"
    using that e by simp
  have e'': "\<lparr>poly_grass = False, poly_vertices = poly_vertices p\<rparr> = p" if "\<not> poly_grass p"
    using that e by simp
  show ?thesis
    using vs by (simp add: parse_polygon_def g n e' e'' add.assoc)
qed

lemma parse_polygons_bytes:
  assumes "drop offset buffer = concat (map polygon_bytes ps) @ r"
    and "list_all valid_polygon ps"
    and "\<And>j. js_less (js_nat j) polyCount \<longleftrightarrow> j < i + length ps"
  shows "parse_polygons buffer polyCount i offset acc =
    Inr (acc @ ps, offset + length (concat (map polygon_bytes ps)))"
  using assms
proof (induction ps arbitrary: offset i acc)
  case Nil
  then show ?case by (subst parse_polygons.simps) simp
next
  case (Cons p ps)
  have d0: "drop offset buffer = polygon_bytes p @ concat (map polygon_bytes ps) @ r"
    using Cons.prems(1) by simp
  have v: "valid_polygon p" "list_all valid_polygon ps" using Cons.prems(2) by simp_all
  have p: "parse_polygon buffer offset = Inr (p, offset + length (polygon_bytes p))"
    by (rule parse_polygon_bytes [OF d0 v(1)])
  have d1: "drop (offset + length (polygon_bytes p)) buffer = concat (map polygon_bytes ps) @ r"
    by (rule drop_advance [OF d0])
  have c: "\<And>j. js_less (js_nat j) polyCount \<longleftrightarrow> j < i + 1 + length ps"
    using Cons.prems(3) by simp
  have "parse_polygons buffer polyCount (i + 1) (offset + length (polygon_bytes p)) (acc @ [p]) =
      Inr ((acc @ [p]) @ ps, offset + length (polygon_bytes p) + length (concat (map polygon_bytes ps)))"
    by (rule Cons.IH [OF d1 v(2) c])
  moreover have "js_less (js_nat i) polyCount" using Cons.prems(3) [of i] by simp
  ultimately show ?case
    by (subst parse_polygons.simps) (simp add: p add.assoc)
qed

lemma parse_object_bytes:
  assumes "drop offset buffer = object_bytes object @ r" and "valid_object object"
  shows "parse_object buffer offset = Inr (object, offset + 28)"
proof -
  from valid_object_codes [OF assms(2)] obtain t g a where
    c: "object_codes object = Inr (t, g, Some a)" and i: "is_int32 t" "is_int32 g" "is_int32 a"
    and o: "object_of_codes (obj_x object) (obj_y object) t g (a + 1) = Inr object"
    by blast
  have d0: "drop offset buffer = double_bytes (obj_x object) @ double_bytes (obj_y object) @
      int32_bytes t @ int32_bytes g @ int32_bytes a @ r"
    using assms(1) by (simp add: object_bytes_def c)
  have x: "readDoubleLE buffer offset = Inr (obj_x object)" by (rule read_double_at [OF d0])
  have d1: "drop (offset + 8) buffer = double_bytes (obj_y object) @
      int32_bytes t @ int32_bytes g @ int32_bytes a @ r"
    using drop_advance [OF d0] by simp
  have y: "readDoubleLE buffer (offset + 8) = Inr (obj_y object)" by (rule read_double_at [OF d1])
  have d2: "drop (offset + 16) buffer = int32_bytes t @ int32_bytes g @ int32_bytes a @ r"
    using drop_advance [OF d1] by (simp add: add.assoc)
  have t: "readInt32LE buffer (offset + 16) = Inr t" by (rule read_int32_at [OF d2 i(1)])
  have d3: "drop (offset + 20) buffer = int32_bytes g @ int32_bytes a @ r"
    using drop_advance [OF d2] by (simp add: add.assoc)
  have g: "readInt32LE buffer (offset + 20) = Inr g" by (rule read_int32_at [OF d3 i(2)])
  have d4: "drop (offset + 24) buffer = int32_bytes a @ r"
    using drop_advance [OF d3] by (simp add: add.assoc)
  have a: "readInt32LE buffer (offset + 24) = Inr a" by (rule read_int32_at [OF d4 i(3)])
  show ?thesis by (simp add: parse_object_def x y t g a o)
qed

lemma parse_objects_bytes:
  assumes "drop offset buffer = concat (map object_bytes os) @ r"
    and "list_all valid_object os"
    and "\<And>j. js_less (js_nat j) objectCount \<longleftrightarrow> j < i + length os"
  shows "parse_objects buffer objectCount i offset acc = Inr (acc @ os, offset + 28 * length os)"
  using assms
proof (induction os arbitrary: offset i acc)
  case Nil
  then show ?case by (subst parse_objects.simps) simp
next
  case (Cons object os)
  have d0: "drop offset buffer = object_bytes object @ concat (map object_bytes os) @ r"
    using Cons.prems(1) by simp
  have v: "valid_object object" "list_all valid_object os" using Cons.prems(2) by simp_all
  have p: "parse_object buffer offset = Inr (object, offset + 28)"
    by (rule parse_object_bytes [OF d0 v(1)])
  have d1: "drop (offset + 28) buffer = concat (map object_bytes os) @ r"
    using drop_advance [OF d0] v(1) by simp
  have c: "\<And>j. js_less (js_nat j) objectCount \<longleftrightarrow> j < i + 1 + length os"
    using Cons.prems(3) by simp
  have "parse_objects buffer objectCount (i + 1) (offset + 28) (acc @ [object]) =
      Inr ((acc @ [object]) @ os, offset + 28 + 28 * length os)"
    by (rule Cons.IH [OF d1 v(2) c])
  moreover have "js_less (js_nat i) objectCount" using Cons.prems(3) [of i] by simp
  ultimately show ?case
    by (subst parse_objects.simps) (simp add: p)
qed

lemma parse_picture_bytes:
  assumes "drop offset buffer = picture_bytes picture @ r" and "valid_picture picture"
  shows "parse_picture buffer offset = Inr (picture, offset + 54)"
proof -
  from valid_picture_clip [OF assms(2)] obtain c where
    c: "clip_code (pic_clip picture) = Inr c" and i: "is_int32 c"
    and o: "clip_of_code c = Inr (pic_clip picture)"
    by blast
  have f: "field_string 10 (pic_name picture)" "field_string 10 (pic_texture picture)"
    "field_string 10 (pic_mask picture)" and di: "is_int32 (pic_distance picture)"
    using assms(2) by (simp_all add: valid_picture_def)
  have d0: "drop offset buffer = ascii_bytes (nullpadString (pic_name picture) 10) @
      ascii_bytes (nullpadString (pic_texture picture) 10) @
      ascii_bytes (nullpadString (pic_mask picture) 10) @
      double_bytes (pic_x picture) @ double_bytes (pic_y picture) @
      int32_bytes (pic_distance picture) @ int32_bytes c @ r"
    using assms(1) by (simp add: picture_bytes_def c)
  have n: "trimString (slice buffer offset (offset + 10)) = pic_name picture"
    by (rule field_at [OF d0 f(1)])
  have d1: "drop (offset + 10) buffer =
      ascii_bytes (nullpadString (pic_texture picture) 10) @
      ascii_bytes (nullpadString (pic_mask picture) 10) @
      double_bytes (pic_x picture) @ double_bytes (pic_y picture) @
      int32_bytes (pic_distance picture) @ int32_bytes c @ r"
    using drop_advance [OF d0] by simp
  have t: "trimString (slice buffer (offset + 10) (offset + 20)) = pic_texture picture"
    using field_at [OF d1 f(2)] by (simp add: add.assoc)
  have d2: "drop (offset + 20) buffer =
      ascii_bytes (nullpadString (pic_mask picture) 10) @
      double_bytes (pic_x picture) @ double_bytes (pic_y picture) @
      int32_bytes (pic_distance picture) @ int32_bytes c @ r"
    using drop_advance [OF d1] by (simp add: add.assoc)
  have k: "trimString (slice buffer (offset + 20) (offset + 30)) = pic_mask picture"
    using field_at [OF d2 f(3)] by (simp add: add.assoc)
  have d3: "drop (offset + 30) buffer =
      double_bytes (pic_x picture) @ double_bytes (pic_y picture) @
      int32_bytes (pic_distance picture) @ int32_bytes c @ r"
    using drop_advance [OF d2] by (simp add: add.assoc)
  have x: "readDoubleLE buffer (offset + 30) = Inr (pic_x picture)" by (rule read_double_at [OF d3])
  have d4: "drop (offset + 38) buffer = double_bytes (pic_y picture) @
      int32_bytes (pic_distance picture) @ int32_bytes c @ r"
    using drop_advance [OF d3] by (simp add: add.assoc)
  have y: "readDoubleLE buffer (offset + 38) = Inr (pic_y picture)" by (rule read_double_at [OF d4])
  have d5: "drop (offset + 46) buffer = int32_bytes (pic_distance picture) @ int32_bytes c @ r"
    using drop_advance [OF d4] by (simp add: add.assoc)
  have ds: "readInt32LE buffer (offset + 46) = Inr (pic_distance picture)"
    by (rule read_int32_at [OF d5 di])
  have d6: "drop (offset + 50) buffer = int32_bytes c @ r"
    using drop_advance [OF d5] by (simp add: add.assoc)
  have cl: "readInt32LE buffer (offset + 50) = Inr c" by (rule read_int32_at [OF d6 i])
  have "\<lparr>pic_name = pic_name picture, pic_texture = pic_texture picture,
         pic_mask = pic_mask picture, pic_x = pic_x picture, pic_y = pic_y picture,
         pic_distance = pic_distance picture, pic_clip = pic_clip picture\<rparr> = picture" by simp
  then show ?thesis
    by (simp add: parse_picture_def Let_def x y ds cl o n t k)
qed

lemma parse_pictures_bytes:
  assumes "drop offset buffer = concat (map picture_bytes ps) @ r"
    and "list_all valid_picture ps"
    and "\<And>j. js_less (js_nat j) picCount \<longleftrightarrow> j < i + length ps"
  shows "parse_pictures buffer picCount i offset acc = Inr (acc @ ps, offset + 54 * length ps)"
  using assms
proof (induction ps arbitrary: offset i acc)
  case Nil
  then show ?case by (subst parse_pictures.simps) simp
next
  case (Cons picture ps)
  have d0: "drop offset buffer = picture_bytes picture @ concat (map picture_bytes ps) @ r"
    using Cons.prems(1) by simp
  have v: "valid_picture picture" "list_all valid_picture ps" using Cons.prems(2) by simp_all
  have p: "parse_picture buffer offset = Inr (picture, offset + 54)"
    by (rule parse_picture_bytes [OF d0 v(1)])
  have d1: "drop (offset + 54) buffer = concat (map picture_bytes ps) @ r"
    using drop_advance [OF d0] v(1) by simp
  have c: "\<And>j. js_less (js_nat j) picCount \<longleftrightarrow> j < i + 1 + length ps"
    using Cons.prems(3) by simp
  have "parse_pictures buffer picCount (i + 1) (offset + 54) (acc @ [picture]) =
      Inr ((acc @ [picture]) @ ps, offset + 54 + 54 * length ps)"
    by (rule Cons.IH [OF d1 v(2) c])
  moreover have "js_less (js_nat i) picCount" using Cons.prems(3) [of i] by simp
  ultimately show ?case
    by (subst parse_pictures.simps) (simp add: p)
qed





subsection \<open>The whole file\<close>

lemma length_data_bytes:
  assumes "valid_level this" and "length (lev_integrity this) = 4"
  shows "length (data_bytes K this) =
    138 + length (concat (map polygon_bytes (lev_polygons this))) + 8 +
    28 * length (lev_objects this) + 8 + 54 * length (lev_pictures this) + 4"
  using assms
  by (simp add: data_bytes_def length_header_bytes length_objects_bytes length_pictures_bytes
      valid_level_def)

lemma decode_file_bytes:
  assumes v: "valid_level this" and s: "valid_scores (lev_top10 this)"
    and K: "valid_markers K" and c: "length (lev_integrity this) = 4"
    and g1: "\<And>j. js_less (js_nat j) (js_sub (double_value c1) bias_polygons) \<longleftrightarrow>
                j < length (lev_polygons this)"
    and g2: "\<And>j. js_less (js_nat j) (js_sub (double_value c2) bias_polygons) \<longleftrightarrow>
                j < length (lev_objects this)"
    and g3: "\<And>j. js_less (js_nat j) (js_sub (double_value c3) bias_pictures) \<longleftrightarrow>
                j < length (lev_pictures this)"
  shows "\<exists>d. parse_top10_block (file_bytes K this c1 c2 c3) (length (data_bytes K this)) = Inr d \<and>
           decode K (file_bytes K this c1 c2 c3) = Inr (this\<lparr>lev_top10 := d\<rparr>)"
proof -
  define B where "B = file_bytes K this c1 c2 c3"
  define Pg where "Pg = concat (map polygon_bytes (lev_polygons this))"
  define Ob where "Ob = concat (map object_bytes (lev_objects this))"
  define Pc where "Pc = concat (map picture_bytes (lev_pictures this))"
  define Tl where "Tl = score_block (lev_top10 this) @ int32_bytes (EOF_MARKER K)"
  have vl: "0 \<le> lev_link this" "lev_link this \<le> 0xFFFFFFFF"
    and vn: "field_string 51 (lev_name this)" "field_string 16 (lev_lgr this)"
      "field_string 10 (lev_ground this)" "field_string 10 (lev_sky this)"
    and np: "length (lev_polygons this) < 2 ^ 31" and vp: "list_all valid_polygon (lev_polygons this)"
    and no: "length (lev_objects this) < 2 ^ 31" and vo: "list_all valid_object (lev_objects this)"
    and ni: "length (lev_pictures this) < 2 ^ 31" and vi: "list_all valid_picture (lev_pictures this)"
    and ver: "lev_version this = ''Elma''"
    using v by (simp_all add: valid_level_def)
  have K1: "is_int32 (EOD_MARKER K)" and K2: "is_int32 (EOF_MARKER K)"
    using K by (simp_all add: valid_markers_def)
  from c obtain i0 i1 i2 i3 where ig: "lev_integrity this = [i0, i1, i2, i3]"
    by (auto simp add: length_Suc_conv eval_nat_numeral)
  have lOb: "length Ob = 28 * length (lev_objects this)"
    unfolding Ob_def by (rule length_objects_bytes [OF vo])
  have lPc: "length Pc = 54 * length (lev_pictures this)"
    unfolding Pc_def by (rule length_pictures_bytes [OF vi])
  define tg where "tg = ascii_bytes ''POT14''"
  have ltg: "length tg = 5" by (simp add: tg_def)
  have d0: "drop 0 B = tg @ le_bytes 2 (js_and (lev_link this) 0xFFFF) @
      le_bytes 4 (lev_link this) @ double_bytes i0 @ double_bytes i1 @ double_bytes i2 @
      double_bytes i3 @ ascii_bytes (nullpadString (lev_name this) 51) @
      ascii_bytes (nullpadString (lev_lgr this) 16) @
      ascii_bytes (nullpadString (lev_ground this) 10) @
      ascii_bytes (nullpadString (lev_sky this) 10) @
      double_bytes c1 @ Pg @ double_bytes c2 @ Ob @ double_bytes c3 @ Pc @
      int32_bytes (EOD_MARKER K) @ Tl"
    by (simp add: B_def file_bytes_def header_bytes_def ig Pg_def Ob_def Pc_def Tl_def tg_def)
  have tag: "ascii_string (slice B 0 5) = ''POT14''"
  proof -
    have "slice B 0 (0 + 5) = tg" by (rule slice_at [OF d0 ltg])
    then have "slice B 0 5 = ascii_bytes ''POT14''" by (simp add: tg_def)
    moreover have "ascii_string (ascii_bytes ''POT14'') = ''POT14''"
      by (rule ascii_string_ascii_bytes) simp
    ultimately show ?thesis by simp
  qed
  note d5 = drop_advance [OF d0]
  note d7 = drop_advance [OF d5]
  have link: "readUInt32LE B 7 = Inr (lev_link this)"
    using read_uint32_at [OF d7 vl] by (simp add: ltg)
  note d11 = drop_advance [OF d7]
  have r0: "readDoubleLE B 11 = Inr i0" using read_double_at [OF d11] by (simp add: ltg)
  note d19 = drop_advance [OF d11]
  have r1: "readDoubleLE B 19 = Inr i1" using read_double_at [OF d19] by (simp add: ltg)
  note d27 = drop_advance [OF d19]
  have r2: "readDoubleLE B 27 = Inr i2" using read_double_at [OF d27] by (simp add: ltg)
  note d35 = drop_advance [OF d27]
  have r3: "readDoubleLE B 35 = Inr i3" using read_double_at [OF d35] by (simp add: ltg)
  note d43 = drop_advance [OF d35]
  have name: "trimString (slice B 43 94) = lev_name this" using field_at [OF d43 vn(1)] by (simp add: ltg)
  note d94 = drop_advance [OF d43]
  have lgr: "trimString (slice B 94 110) = lev_lgr this" using field_at [OF d94 vn(2)] by (simp add: ltg)
  note d110 = drop_advance [OF d94]
  have ground: "trimString (slice B 110 120) = lev_ground this" using field_at [OF d110 vn(3)] by (simp add: ltg)
  note d120 = drop_advance [OF d110]
  have sky: "trimString (slice B 120 130) = lev_sky this" using field_at [OF d120 vn(4)] by (simp add: ltg)
  note d130 = drop_advance [OF d120]
  have rc1: "readDoubleLE B 130 = Inr c1" using read_double_at [OF d130] by (simp add: ltg)
  have d138: "drop 138 B = Pg @ double_bytes c2 @ Ob @ double_bytes c3 @ Pc @
      int32_bytes (EOD_MARKER K) @ Tl"
    using drop_advance [OF d130] by (simp add: ltg)
  define o1 where "o1 = 138 + length Pg"
  have polys: "parse_polygons B (js_sub (double_value c1) bias_polygons) 0 138 [] =
      Inr (lev_polygons this, o1)"
    using parse_polygons_bytes [OF d138 [unfolded Pg_def] vp, of "js_sub (double_value c1) bias_polygons" 0 "[]"]
      g1
    by (simp add: o1_def Pg_def)
  have do1: "drop o1 B = double_bytes c2 @ Ob @ double_bytes c3 @ Pc @ int32_bytes (EOD_MARKER K) @ Tl"
    unfolding o1_def by (rule drop_advance [OF d138])
  have rc2: "readDoubleLE B o1 = Inr c2" by (rule read_double_at [OF do1])
  have do1': "drop (o1 + 8) B = Ob @ double_bytes c3 @ Pc @ int32_bytes (EOD_MARKER K) @ Tl"
    using drop_advance [OF do1] by simp
  define o2 where "o2 = o1 + 8 + 28 * length (lev_objects this)"
  have objs: "parse_objects B (js_sub (double_value c2) bias_polygons) 0 (o1 + 8) [] =
      Inr (lev_objects this, o2)"
    using parse_objects_bytes [OF do1' [unfolded Ob_def] vo, of "js_sub (double_value c2) bias_polygons" 0 "[]"]
      g2
    by (simp add: o2_def)
  have do2: "drop o2 B = double_bytes c3 @ Pc @ int32_bytes (EOD_MARKER K) @ Tl"
    using drop_advance [OF do1'] by (simp add: o2_def lOb)
  have rc3: "readDoubleLE B o2 = Inr c3" by (rule read_double_at [OF do2])
  have do2': "drop (o2 + 8) B = Pc @ int32_bytes (EOD_MARKER K) @ Tl"
    using drop_advance [OF do2] by simp
  define o3 where "o3 = o2 + 8 + 54 * length (lev_pictures this)"
  have pics: "parse_pictures B (js_sub (double_value c3) bias_pictures) 0 (o2 + 8) [] =
      Inr (lev_pictures this, o3)"
    using parse_pictures_bytes [OF do2' [unfolded Pc_def] vi, of "js_sub (double_value c3) bias_pictures" 0 "[]"]
      g3
    by (simp add: o3_def)
  have do3: "drop o3 B = int32_bytes (EOD_MARKER K) @ Tl"
    using drop_advance [OF do2'] by (simp add: o3_def lPc)
  have eod: "readInt32LE B o3 = Inr (EOD_MARKER K)" by (rule read_int32_at [OF do3 K1])
  have lD: "length (data_bytes K this) = o3 + 4"
    by (simp add: length_data_bytes [OF v c] o3_def o2_def o1_def Pg_def)
  have dt: "drop (o3 + 4) B = score_block (lev_top10 this) @ int32_bytes (EOF_MARKER K) @ []"
    using drop_advance [OF do3] by (simp add: Tl_def)
  have "o3 + 4 \<le> length B" using drop_length [OF do3] by simp
  then have lpre: "length (take (o3 + 4) B) = o3 + 4" by simp
  have "take (o3 + 4) B @ drop (o3 + 4) B = B" by (rule append_take_drop_id)
  then have BD: "take (o3 + 4) B @ score_block (lev_top10 this) @ int32_bytes (EOF_MARKER K) = B"
    by (simp add: dt)
  from score_block_times(3) [OF s, of "take (o3 + 4) B" "int32_bytes (EOF_MARKER K)"]
  obtain d where d: "parse_top10_block B (o3 + 4) = Inr d"
    unfolding BD lpre by blast
  from drop_advance [OF dt] have "drop (o3 + 4 + 688) B = int32_bytes (EOF_MARKER K) @ []"
    by (simp add: score_block_times(2) [OF s])
  then have eof: "readInt32LE B (o3 + 4 + 688) = Inr (EOF_MARKER K)"
    by (rule read_int32_at [OF _ K2])
  have "parseFile K level_for_load B =
      Inr (level_for_load\<lparr>lev_version := ''Elma'',
                          lev_link := lev_link this,
                          lev_integrity := [i0, i1, i2, i3] @ drop 4 (lev_integrity level_for_load),
                          lev_name := lev_name this,
                          lev_lgr := lev_lgr this,
                          lev_ground := lev_ground this,
                          lev_sky := lev_sky this,
                          lev_polygons := lev_polygons this,
                          lev_objects := lev_objects this,
                          lev_pictures := lev_pictures this,
                          lev_top10 := d\<rparr>)"
    using tag link r0 r1 r2 r3 rc1 polys rc2 objs rc3 pics eod d eof name lgr ground sky
    by (simp add: parseFile_def Let_def level_for_load_def)
  also have "\<dots> = Inr (this\<lparr>lev_top10 := d\<rparr>)"
    using ver ig by (simp add: level_for_load_def)
  finally have "decode K B = Inr (this\<lparr>lev_top10 := d\<rparr>)" by (simp add: decode_def)
  then show ?thesis using d unfolding B_def lD by blast
qed

lemma level_bytes_file:
  "level_bytes K this =
     file_bytes K this
       (double_bits (js_add (js_nat (length (lev_polygons this))) bias_polygons))
       (double_bits (js_add (js_nat (length (lev_objects this))) bias_polygons))
       (double_bits (js_add (js_nat (length (lev_pictures this))) bias_pictures))"
  by (simp add: level_bytes_def file_bytes_def count_bytes_def)

lemma decode_level_bytes:
  assumes v: "valid_level this" and s: "valid_scores (lev_top10 this)"
    and K: "valid_markers K" and c: "length (lev_integrity this) = 4"
  shows "\<exists>d. parse_top10_block (level_bytes K this) (length (data_bytes K this)) = Inr d \<and>
           decode K (level_bytes K this) = Inr (this\<lparr>lev_top10 := d\<rparr>)"
proof -
  have n: "length (lev_polygons this) < 2 ^ 31" "length (lev_objects this) < 2 ^ 31"
    "length (lev_pictures this) < 2 ^ 31"
    using v by (simp_all add: valid_level_def)
  show ?thesis
    unfolding level_bytes_file
    by (rule decode_file_bytes [OF v s K c])
      (simp_all add: polygon_count_field [OF n(1)] polygon_count_field [OF n(2)]
        picture_count_field [OF n(3)])
qed



section \<open>Encoding and decoding again\<close>

text \<open>
  A valid level whose score times fit is encoded, and the bytes decode to the level with
  the new checksums and the score tables that the decoder makes of the score block: the
  kept times read as signed integers, and with names that fit their fields the kept
  entries with their times read as signed integers.
\<close>

lemma decode_encode:
  assumes v: "valid_level this" and s: "valid_scores (lev_top10 this)"
    and K: "valid_markers K" and c: "length checksums = 4"
  shows "\<exists>d. update K checksums this =
      (this\<lparr>lev_integrity := checksums,
            lev_top10 := (lev_top10 this)\<lparr>
              top10_single := sort_by_time (top10_single (lev_top10 this)),
              top10_multi := sort_by_time (top10_multi (lev_top10 this))\<rparr>\<rparr>,
       Inr (level_bytes K (this\<lparr>lev_integrity := checksums\<rparr>))) \<and>
    and_then (encode K checksums this) (decode K) = Inr (this\<lparr>lev_integrity := checksums, lev_top10 := d\<rparr>) \<and>
    map entry_time (top10_single d) =
      map (\<lambda>e. to_int32 (entry_time e)) (take 10 (sort_by_time (top10_single (lev_top10 this)))) \<and>
    map entry_time (top10_multi d) =
      map (\<lambda>e. to_int32 (entry_time e)) (take 10 (sort_by_time (top10_multi (lev_top10 this)))) \<and>
    (list_all score_entry (top10_single (lev_top10 this)) \<and>
     list_all score_entry (top10_multi (lev_top10 this)) \<longrightarrow>
       d = \<lparr>top10_single = map read_back (take 10 (sort_by_time (top10_single (lev_top10 this)))),
            top10_multi = map read_back (take 10 (sort_by_time (top10_multi (lev_top10 this))))\<rparr>)"
proof -
  define this' where "this' = this\<lparr>lev_integrity := checksums\<rparr>"
  have v': "valid_level this'" using v by (simp add: this'_def valid_level_def)
  have s': "valid_scores (lev_top10 this')" using s by (simp add: this'_def)
  have c': "length (lev_integrity this') = 4" using c by (simp add: this'_def)
  have t': "lev_top10 this' = lev_top10 this" by (simp add: this'_def)
  note u = update_bytes [OF v s K c, folded this'_def]
  then have e: "encode K checksums this = Inr (level_bytes K this')" by (simp add: encode_def)
  from decode_level_bytes [OF v' s' K c'] obtain d where
    p: "parse_top10_block (level_bytes K this') (length (data_bytes K this')) = Inr d"
    and d: "decode K (level_bytes K this') = Inr (this'\<lparr>lev_top10 := d\<rparr>)" by blast
  have B: "level_bytes K this' =
      data_bytes K this' @ score_block (lev_top10 this) @ int32_bytes (EOF_MARKER K)"
    by (simp add: level_bytes_data t')
  from score_block_times(3) [OF s, of "data_bytes K this'" "int32_bytes (EOF_MARKER K)"]
  have times: "map entry_time (top10_single d) =
      map (\<lambda>e. to_int32 (entry_time e)) (take 10 (sort_by_time (top10_single (lev_top10 this))))"
    "map entry_time (top10_multi d) =
      map (\<lambda>e. to_int32 (entry_time e)) (take 10 (sort_by_time (top10_multi (lev_top10 this))))"
    unfolding B [symmetric] p by simp_all
  have entries: "d = \<lparr>top10_single = map read_back (take 10 (sort_by_time (top10_single (lev_top10 this)))),
            top10_multi = map read_back (take 10 (sort_by_time (top10_multi (lev_top10 this))))\<rparr>"
    if "list_all score_entry (top10_single (lev_top10 this))"
      and "list_all score_entry (top10_multi (lev_top10 this))"
    using score_block_entries(2) [OF that, of "data_bytes K this'" "int32_bytes (EOF_MARKER K)"]
    unfolding B [symmetric] p by simp
  have "and_then (encode K checksums this) (decode K) = Inr (this\<lparr>lev_integrity := checksums, lev_top10 := d\<rparr>)"
    unfolding e and_then_Inr d by (simp add: this'_def)
  then show ?thesis using u times entries by (intro exI [of _ d]) (simp add: this'_def)
qed

lemma to_int32_cases:
  assumes "0 \<le> t" and "t \<le> 0xFFFFFFFF"
  shows "t < 2 ^ 31 \<Longrightarrow> to_int32 t = t"
    and "2 ^ 31 \<le> t \<Longrightarrow> to_int32 t = t - 2 ^ 32 \<and> to_int32 t < 0"
  using assms by (simp_all add: to_int32_def)

lemma valid_sample_level: "valid_level (sample_level single multi)"
  by (simp add: valid_level_def sample_level_def field_string_def valid_polygon_def
      valid_object_def valid_picture_def is_int32_def)

lemma valid_sample_markers: "valid_markers sample_markers"
  by (simp add: valid_markers_def sample_markers_def is_int32_def)

lemma length_sample_checksums: "length sample_checksums = 4"
  by (simp add: sample_checksums_def)



text \<open>The two clear-text tables inside the score block hold the kept times unsigned.\<close>

lemma slice_append_left:
  "y \<le> length a \<Longrightarrow> slice (a @ b) x y = slice a x y"
  by (simp add: slice_def)

lemma slice_append_right:
  "length a \<le> x \<Longrightarrow> slice (a @ b) x y = slice b (x - length a) (y - length a)"
  by (simp add: slice_def)

lemma score_block_tables:
  assumes "valid_scores t"
  shows "\<exists>ts tm. cryptTop10 (score_block t) = ts @ tm \<and> length ts = 344 \<and> length tm = 344 \<and>
     (\<forall>j < min (length (top10_single t)) 10.
        slice ts (4 + j * 4) (4 + j * 4 + 4) = le_bytes 4 (entry_time (sort_by_time (top10_single t) ! j))) \<and>
     (\<forall>j < min (length (top10_multi t)) 10.
        slice tm (4 + j * 4) (4 + j * 4 + 4) = le_bytes 4 (entry_time (sort_by_time (top10_multi t) ! j)))"
proof -
  let ?s = "sort_by_time (top10_single t)" and ?m = "sort_by_time (top10_multi t)"
  have v: "list_all score_time ?s" "list_all score_time ?m"
    using assms by (simp_all add: valid_scores_def score_times_sorted)
  have l: "length ?s = length (top10_single t)" "length ?m = length (top10_multi t)"
    by (simp_all add: sort_by_time_def)
  from top10_table_times [OF v(1)] obtain ts where
    ts: "top10_table ?s = Inr ts" "length ts = 344"
      "\<forall>j < min (length ?s) 10. slice ts (4 + j * 4) (4 + j * 4 + 4) = le_bytes 4 (entry_time (?s ! j))"
    by blast
  from top10_table_times [OF v(2)] obtain tm where
    tm: "top10_table ?m = Inr tm" "length tm = 344"
      "\<forall>j < min (length ?m) 10. slice tm (4 + j * 4) (4 + j * 4 + 4) = le_bytes 4 (entry_time (?m ! j))"
    by blast
  have "top10ToBuffer t =
      (t\<lparr>top10_single := ?s, top10_multi := ?m\<rparr>, Inr (cryptTop10 (ts @ tm)))"
    by (simp add: top10ToBuffer_def Let_def ts(1,2) tm(1,2) Buffer_concat_two)
  then have "cryptTop10 (score_block t) = ts @ tm"
    by (simp add: score_block_def cryptTop10_twice)
  then show ?thesis using ts(2,3) tm(2,3) unfolding l by blast
qed



subsection \<open>Files that begin like the file of a level\<close>

lemma header_decoded:
  assumes d0: "drop 0 B = header_bytes this @ r"
    and v: "valid_level this" and c: "length (lev_integrity this) = 4"
  shows "ascii_string (slice B 0 5) = ''POT14''"
    and "readUInt32LE B 7 = Inr (lev_link this)"
    and "readDoubleLE B 11 = Inr (lev_integrity this ! 0)"
    and "readDoubleLE B 19 = Inr (lev_integrity this ! 1)"
    and "readDoubleLE B 27 = Inr (lev_integrity this ! 2)"
    and "readDoubleLE B 35 = Inr (lev_integrity this ! 3)"
    and "trimString (slice B 43 94) = lev_name this"
    and "trimString (slice B 94 110) = lev_lgr this"
    and "trimString (slice B 110 120) = lev_ground this"
    and "trimString (slice B 120 130) = lev_sky this"
    and "drop 130 B = r"
proof -
  have vl: "0 \<le> lev_link this" "lev_link this \<le> 0xFFFFFFFF"
    and vn: "field_string 51 (lev_name this)" "field_string 16 (lev_lgr this)"
      "field_string 10 (lev_ground this)" "field_string 10 (lev_sky this)"
    using v by (simp_all add: valid_level_def)
  from c obtain i0 i1 i2 i3 where ig: "lev_integrity this = [i0, i1, i2, i3]"
    by (auto simp add: length_Suc_conv eval_nat_numeral)
  define tg where "tg = ascii_bytes ''POT14''"
  have ltg: "length tg = 5" by (simp add: tg_def)
  have d0: "drop 0 B = tg @ le_bytes 2 (js_and (lev_link this) 0xFFFF) @
      le_bytes 4 (lev_link this) @ double_bytes i0 @ double_bytes i1 @ double_bytes i2 @
      double_bytes i3 @ ascii_bytes (nullpadString (lev_name this) 51) @
      ascii_bytes (nullpadString (lev_lgr this) 16) @
      ascii_bytes (nullpadString (lev_ground this) 10) @
      ascii_bytes (nullpadString (lev_sky this) 10) @ r"
    using d0 by (simp add: header_bytes_def ig tg_def)
  show "ascii_string (slice B 0 5) = ''POT14''"
  proof -
    have "slice B 0 (0 + 5) = tg" by (rule slice_at [OF d0 ltg])
    then have "slice B 0 5 = ascii_bytes ''POT14''" by (simp add: tg_def)
    moreover have "ascii_string (ascii_bytes ''POT14'') = ''POT14''"
      by (rule ascii_string_ascii_bytes) simp
    ultimately show ?thesis by simp
  qed
  note d5 = drop_advance [OF d0]
  note d7 = drop_advance [OF d5]
  show "readUInt32LE B 7 = Inr (lev_link this)"
    using read_uint32_at [OF d7 vl] by (simp add: ltg)
  note d11 = drop_advance [OF d7]
  show "readDoubleLE B 11 = Inr (lev_integrity this ! 0)"
    using read_double_at [OF d11] by (simp add: ltg ig)
  note d19 = drop_advance [OF d11]
  show "readDoubleLE B 19 = Inr (lev_integrity this ! 1)"
    using read_double_at [OF d19] by (simp add: ltg ig)
  note d27 = drop_advance [OF d19]
  show "readDoubleLE B 27 = Inr (lev_integrity this ! 2)"
    using read_double_at [OF d27] by (simp add: ltg ig)
  note d35 = drop_advance [OF d27]
  show "readDoubleLE B 35 = Inr (lev_integrity this ! 3)"
    using read_double_at [OF d35] by (simp add: ltg ig)
  note d43 = drop_advance [OF d35]
  show "trimString (slice B 43 94) = lev_name this" using field_at [OF d43 vn(1)] by (simp add: ltg)
  note d94 = drop_advance [OF d43]
  show "trimString (slice B 94 110) = lev_lgr this" using field_at [OF d94 vn(2)] by (simp add: ltg)
  note d110 = drop_advance [OF d94]
  show "trimString (slice B 110 120) = lev_ground this" using field_at [OF d110 vn(3)] by (simp add: ltg)
  note d120 = drop_advance [OF d110]
  show "trimString (slice B 120 130) = lev_sky this" using field_at [OF d120 vn(4)] by (simp add: ltg)
  show "drop 130 B = r" using drop_advance [OF d120] by (simp add: ltg)
qed

text \<open>The polygons and the objects of a level after its header, and what follows them.\<close>

lemma polygons_decoded:
  assumes "drop 0 B = header_bytes this @ count_bytes (length (lev_polygons this)) bias_polygons @
      concat (map polygon_bytes (lev_polygons this)) @ r"
    and v: "valid_level this" and c: "length (lev_integrity this) = 4"
  shows "readDoubleLE B 130 =
      Inr (double_bits (js_add (js_nat (length (lev_polygons this))) bias_polygons))"
    and "parse_polygons B
      (js_sub (double_value (double_bits (js_add (js_nat (length (lev_polygons this))) bias_polygons)))
         bias_polygons) 0 138 [] =
      Inr (lev_polygons this, 138 + length (concat (map polygon_bytes (lev_polygons this))))"
    and "drop (138 + length (concat (map polygon_bytes (lev_polygons this)))) B = r"
proof -
  have np: "length (lev_polygons this) < 2 ^ 31" and vp: "list_all valid_polygon (lev_polygons this)"
    using v by (simp_all add: valid_level_def)
  let ?c = "double_bits (js_add (js_nat (length (lev_polygons this))) bias_polygons)"
  have d130: "drop 130 B = double_bytes ?c @ concat (map polygon_bytes (lev_polygons this)) @ r"
    using header_decoded(11) [OF assms(1) v c] by (simp add: count_bytes_def)
  show "readDoubleLE B 130 = Inr ?c" by (rule read_double_at [OF d130])
  have d138: "drop 138 B = concat (map polygon_bytes (lev_polygons this)) @ r"
    using drop_advance [OF d130] by simp
  show "parse_polygons B (js_sub (double_value ?c) bias_polygons) 0 138 [] =
      Inr (lev_polygons this, 138 + length (concat (map polygon_bytes (lev_polygons this))))"
    using parse_polygons_bytes [OF d138 vp, of "js_sub (double_value ?c) bias_polygons" 0 "[]"]
      polygon_count_field [OF np]
    by simp
  show "drop (138 + length (concat (map polygon_bytes (lev_polygons this)))) B = r"
    by (rule drop_advance [OF d138])
qed


subsection \<open>The first record that is rejected\<close>

text \<open>
  When the first \<open>k\<close> records of a list are read and the count says that there is a
  further record, which is rejected, the loop ends with that rejection.
\<close>

lemma parse_objects_rejected:
  assumes "parse_objects buffer c i offset acc = Inr (objects, offk)"
    and "c = js_nat k" and "i \<le> k"
    and "js_less (js_nat k) n" and "parse_object buffer offk = Inl e"
  shows "parse_objects buffer n i offset acc = Inl e"
  using assms
proof (induction buffer c i offset acc rule: parse_objects.induct)
  case (1 buffer c i offset acc)
  show ?case
  proof (cases "i < k")
    case True
    then have g: "js_less (js_nat i) c" by (simp add: "1.prems"(2) js_nat_def)
    have gn: "js_less (js_nat i) n"
      using "1.prems"(4) by (rule js_less_nat_mono) (use True in simp)
    from "1.prems"(1) g obtain object offset' where
      p: "parse_object buffer offset = Inr (object, offset')"
      and r: "parse_objects buffer c (i + 1) offset' (acc @ [object]) = Inr (objects, offk)"
      by (subst (asm) parse_objects.simps) (auto split: sum.splits)
    have "parse_objects buffer n (i + 1) offset' (acc @ [object]) = Inl e"
      using g p r "1.prems"(2,4,5) True by (intro "1.IH") simp_all
    then show ?thesis using gn p by (subst parse_objects.simps) simp
  next
    case False
    then have ik: "i = k" using "1.prems"(3) by simp
    have "\<not> js_less (js_nat i) c" by (simp add: "1.prems"(2) ik js_nat_def)
    then have "offk = offset" using "1.prems"(1) by (subst (asm) parse_objects.simps) simp
    then show ?thesis
      using "1.prems"(4,5) ik by (subst parse_objects.simps) simp
  qed
qed

lemma parse_pictures_rejected:
  assumes "parse_pictures buffer c i offset acc = Inr (pictures, offk)"
    and "c = js_nat k" and "i \<le> k"
    and "js_less (js_nat k) n" and "parse_picture buffer offk = Inl e"
  shows "parse_pictures buffer n i offset acc = Inl e"
  using assms
proof (induction buffer c i offset acc rule: parse_pictures.induct)
  case (1 buffer c i offset acc)
  show ?case
  proof (cases "i < k")
    case True
    then have g: "js_less (js_nat i) c" by (simp add: "1.prems"(2) js_nat_def)
    have gn: "js_less (js_nat i) n"
      using "1.prems"(4) by (rule js_less_nat_mono) (use True in simp)
    from "1.prems"(1) g obtain picture offset' where
      p: "parse_picture buffer offset = Inr (picture, offset')"
      and r: "parse_pictures buffer c (i + 1) offset' (acc @ [picture]) = Inr (pictures, offk)"
      by (subst (asm) parse_pictures.simps) (auto split: sum.splits)
    have "parse_pictures buffer n (i + 1) offset' (acc @ [picture]) = Inl e"
      using g p r "1.prems"(2,4,5) True by (intro "1.IH") simp_all
    then show ?thesis using gn p by (subst parse_pictures.simps) simp
  next
    case False
    then have ik: "i = k" using "1.prems"(3) by simp
    have "\<not> js_less (js_nat i) c" by (simp add: "1.prems"(2) ik js_nat_def)
    then have "offk = offset" using "1.prems"(1) by (subst (asm) parse_pictures.simps) simp
    then show ?thesis
      using "1.prems"(4,5) ik by (subst parse_pictures.simps) simp
  qed
qed

text \<open>The header is read when the first count is.\<close>

lemma header_read:
  assumes "readDoubleLE buffer 130 = Inr d"
  shows "\<exists>vlink i0 i1 i2 i3. readUInt32LE buffer 7 = Inr vlink \<and>
    readDoubleLE buffer 11 = Inr i0 \<and> readDoubleLE buffer 19 = Inr i1 \<and>
    readDoubleLE buffer 27 = Inr i2 \<and> readDoubleLE buffer 35 = Inr i3"
proof -
  have "138 \<le> length buffer" using readDoubleLE_bound [OF assms] by simp
  then show ?thesis by (simp add: readUInt32LE_def readDoubleLE_def)
qed


lemma file_with_object_rejected:
  assumes t: "is_int32 objType" and g: "is_int32 gravity"
  shows "\<exists>d1 polygons off1 d2 objects offk.
    ascii_string (slice (file_with_object objType gravity) 0 5) = ''POT14'' \<and>
    readDoubleLE (file_with_object objType gravity) 130 = Inr d1 \<and>
    parse_polygons (file_with_object objType gravity) (js_sub (double_value d1) bias_polygons) 0 138 [] =
      Inr (polygons, off1) \<and>
    readDoubleLE (file_with_object objType gravity) off1 = Inr d2 \<and>
    parse_objects (file_with_object objType gravity) (js_nat 3) 0 (off1 + 8) [] = Inr (objects, offk) \<and>
    js_less (js_nat 3) (js_sub (double_value d2) bias_polygons) \<and>
    offk + 28 \<le> length (file_with_object objType gravity) \<and>
    readInt32LE (file_with_object objType gravity) (offk + 16) = Inr objType \<and>
    readInt32LE (file_with_object objType gravity) (offk + 20) = Inr gravity"
proof -
  define L where "L = sample_level [] []"
  define B where "B = file_with_object objType gravity"
  define c2 where "c2 = double_bits (js_add (js_nat (length (lev_objects L) + 1)) bias_polygons)"
  define rec where "rec = double_bytes 0x4000000000000000 @ double_bytes 0x4008000000000000 @
         int32_bytes objType @ int32_bytes gravity @ int32_bytes 0"
  define o1 where "o1 = 138 + length (concat (map polygon_bytes (lev_polygons L)))"
  have v: "valid_level L" unfolding L_def by (rule valid_sample_level)
  have c: "length (lev_integrity L) = 4" by (simp add: L_def sample_level_def)
  have vo: "list_all valid_object (lev_objects L)" using v by (simp add: valid_level_def)
  have no: "length (lev_objects L) = 3" by (simp add: L_def sample_level_def)
  have d0: "drop 0 B = header_bytes L @ count_bytes (length (lev_polygons L)) bias_polygons @
      concat (map polygon_bytes (lev_polygons L)) @
      (double_bytes c2 @ concat (map object_bytes (lev_objects L)) @ rec @ [])"
    by (simp add: B_def file_with_object_def Let_def L_def [symmetric] c2_def count_bytes_def rec_def)
  note tag = header_decoded(1) [OF d0 v c]
  note p = polygons_decoded [OF d0 v c, folded o1_def]
  have r2: "readDoubleLE B o1 = Inr c2" by (rule read_double_at [OF p(3)])
  have d1: "drop (o1 + 8) B = concat (map object_bytes (lev_objects L)) @ rec @ []"
    using drop_advance [OF p(3)] by simp
  have os: "parse_objects B (js_nat 3) 0 (o1 + 8) [] =
      Inr ([] @ lev_objects L, o1 + 8 + 28 * length (lev_objects L))"
    using parse_objects_bytes [OF d1 vo, of "js_nat 3" 0 "[]"] by (simp add: js_nat_def no)
  have gd: "js_less (js_nat 3) (js_sub (double_value c2) bias_polygons)"
    unfolding c2_def using polygon_count_field [of "length (lev_objects L) + 1" 3] by (simp add: no)
  define ok where "ok = o1 + 8 + 28 * length (lev_objects L)"
  have dk: "drop ok B = rec @ []"
    using drop_advance [OF d1] by (simp add: ok_def length_objects_bytes [OF vo])
  have lr: "length rec = 28" by (simp add: rec_def)
  have len: "ok + 28 \<le> length B" using drop_length [OF dk] lr by simp
  have dk0: "drop ok B = double_bytes 0x4000000000000000 @ double_bytes 0x4008000000000000 @
         int32_bytes objType @ int32_bytes gravity @ int32_bytes 0"
    using dk by (simp add: rec_def)
  note dk8 = drop_advance [OF dk0]
  note dk16 = drop_advance [OF dk8]
  have rt: "readInt32LE B (ok + 16) = Inr objType"
    using read_int32_at [OF dk16 t] by (simp add: add.assoc)
  note dk20 = drop_advance [OF dk16]
  have rg: "readInt32LE B (ok + 20) = Inr gravity"
    using read_int32_at [OF dk20 g] by (simp add: add.assoc)
  show ?thesis
    unfolding B_def [symmetric]
    using tag p(1,2) r2 os [folded ok_def] gd len rt rg by (simp del: append_Nil)
qed


lemma file_with_picture_rejected:
  assumes t: "is_int32 clip"
  shows "\<exists>d1 polygons off1 d2 objects off2 d3 pictures offk.
    ascii_string (slice (file_with_picture clip) 0 5) = ''POT14'' \<and>
    readDoubleLE (file_with_picture clip) 130 = Inr d1 \<and>
    parse_polygons (file_with_picture clip) (js_sub (double_value d1) bias_polygons) 0 138 [] =
      Inr (polygons, off1) \<and>
    readDoubleLE (file_with_picture clip) off1 = Inr d2 \<and>
    parse_objects (file_with_picture clip) (js_sub (double_value d2) bias_polygons) 0 (off1 + 8) [] =
      Inr (objects, off2) \<and>
    readDoubleLE (file_with_picture clip) off2 = Inr d3 \<and>
    parse_pictures (file_with_picture clip) (js_nat 1) 0 (off2 + 8) [] = Inr (pictures, offk) \<and>
    js_less (js_nat 1) (js_sub (double_value d3) bias_pictures) \<and>
    offk + 54 \<le> length (file_with_picture clip) \<and>
    readInt32LE (file_with_picture clip) (offk + 50) = Inr clip"
proof -
  define L where "L = sample_level [] []"
  define B where "B = file_with_picture clip"
  define c2 where "c2 = double_bits (js_add (js_nat (length (lev_objects L))) bias_polygons)"
  define c3 where "c3 = double_bits (js_add (js_nat (length (lev_pictures L) + 1)) bias_pictures)"
  define rec where "rec = ascii_bytes (nullpadString ''barrel'' 10) @ ascii_bytes (nullpadString [] 10) @
         ascii_bytes (nullpadString [] 10) @
         double_bytes 0x4000000000000000 @ double_bytes 0x4008000000000000 @
         int32_bytes 380 @ int32_bytes clip"
  define o1 where "o1 = 138 + length (concat (map polygon_bytes (lev_polygons L)))"
  have v: "valid_level L" unfolding L_def by (rule valid_sample_level)
  have c: "length (lev_integrity L) = 4" by (simp add: L_def sample_level_def)
  have vo: "list_all valid_object (lev_objects L)" and vi: "list_all valid_picture (lev_pictures L)"
    and no: "length (lev_objects L) < 2 ^ 31"
    using v by (simp_all add: valid_level_def)
  have ni: "length (lev_pictures L) = 1" by (simp add: L_def sample_level_def)
  have d0: "drop 0 B = header_bytes L @ count_bytes (length (lev_polygons L)) bias_polygons @
      concat (map polygon_bytes (lev_polygons L)) @
      (double_bytes c2 @ concat (map object_bytes (lev_objects L)) @
       double_bytes c3 @ concat (map picture_bytes (lev_pictures L)) @ rec @ [])"
    by (simp add: B_def file_with_picture_def Let_def L_def [symmetric] c2_def c3_def
        count_bytes_def rec_def)
  note tag = header_decoded(1) [OF d0 v c]
  note p = polygons_decoded [OF d0 v c, folded o1_def]
  have r2: "readDoubleLE B o1 = Inr c2" by (rule read_double_at [OF p(3)])
  have d1: "drop (o1 + 8) B = concat (map object_bytes (lev_objects L)) @
       double_bytes c3 @ concat (map picture_bytes (lev_pictures L)) @ rec @ []"
    using drop_advance [OF p(3)] by simp
  define o2 where "o2 = o1 + 8 + 28 * length (lev_objects L)"
  have os: "parse_objects B (js_sub (double_value c2) bias_polygons) 0 (o1 + 8) [] =
      Inr (lev_objects L, o2)"
    using parse_objects_bytes [OF d1 vo, of "js_sub (double_value c2) bias_polygons" 0 "[]"]
      polygon_count_field [OF no]
    by (simp add: c2_def o2_def)
  have d2: "drop o2 B = double_bytes c3 @ concat (map picture_bytes (lev_pictures L)) @ rec @ []"
    using drop_advance [OF d1] by (simp add: o2_def length_objects_bytes [OF vo])
  have r3: "readDoubleLE B o2 = Inr c3" by (rule read_double_at [OF d2])
  have d3: "drop (o2 + 8) B = concat (map picture_bytes (lev_pictures L)) @ rec @ []"
    using drop_advance [OF d2] by simp
  define ok where "ok = o2 + 8 + 54 * length (lev_pictures L)"
  have ps: "parse_pictures B (js_nat 1) 0 (o2 + 8) [] = Inr (lev_pictures L, ok)"
    using parse_pictures_bytes [OF d3 vi, of "js_nat 1" 0 "[]"] by (simp add: js_nat_def ni ok_def)
  have gd: "js_less (js_nat 1) (js_sub (double_value c3) bias_pictures)"
    unfolding c3_def using picture_count_field [of "length (lev_pictures L) + 1" 1] by (simp add: ni)
  have dk: "drop ok B = rec @ []"
    using drop_advance [OF d3] by (simp add: ok_def length_pictures_bytes [OF vi])
  have lr: "length rec = 54" by (simp add: rec_def)
  have len: "ok + 54 \<le> length B" using drop_length [OF dk] lr by simp
  define names where "names = ascii_bytes (nullpadString ''barrel'' 10) @ ascii_bytes (nullpadString [] 10) @
         ascii_bytes (nullpadString [] 10) @
         double_bytes 0x4000000000000000 @ double_bytes 0x4008000000000000 @
         int32_bytes 380"
  have ln: "length names = 50" by (simp add: names_def)
  have dk0: "drop ok B = names @ int32_bytes clip @ []"
    using dk by (simp add: rec_def names_def)
  have rc: "readInt32LE B (ok + 50) = Inr clip"
    using read_int32_at [OF drop_advance [OF dk0] t] by (simp add: ln)
  show ?thesis
    unfolding B_def [symmetric]
    using tag p(1,2) r2 os r3 ps gd len rc by (simp del: append_Nil)
qed




subsection \<open>What a loop that returns has read\<close>

lemma parse_vertices_consumed:
  "parse_vertices buffer vertexCount j offset acc = Inr (vs, offset') \<Longrightarrow>
   \<exists>new. vs = acc @ new \<and> offset' = offset + 16 * length new"
proof (induction buffer vertexCount j offset acc rule: parse_vertices.induct)
  case (1 buffer vertexCount j offset vertices)
  show ?case
  proof (cases "int j < vertexCount")
    case True
    with "1.prems" obtain vx vy where
      rx: "readDoubleLE buffer offset = Inr vx" and ry: "readDoubleLE buffer (offset + 8) = Inr vy"
      and rest: "parse_vertices buffer vertexCount (j + 1) (offset + 16)
          (vertices @ [\<lparr>vertex_x = vx, vertex_y = vy\<rparr>]) = Inr (vs, offset')"
      by (subst (asm) parse_vertices.simps) (auto simp add: and_then_eq_Inr)
    from "1.IH" [OF True rest] obtain new where
      "vs = (vertices @ [\<lparr>vertex_x = vx, vertex_y = vy\<rparr>]) @ new"
      "offset' = offset + 16 + 16 * length new" by blast
    then have "vs = vertices @ (\<lparr>vertex_x = vx, vertex_y = vy\<rparr> # new) \<and>
        offset' = offset + 16 * length (\<lparr>vertex_x = vx, vertex_y = vy\<rparr> # new)" by simp
    then show ?thesis by blast
  next
    case False
    with "1.prems" show ?thesis by (subst (asm) parse_vertices.simps) simp
  qed
qed

lemma parse_polygon_consumed:
  assumes "parse_polygon buffer offset = Inr (p, offset')"
  shows "offset' = offset + (8 + 16 * length (poly_vertices p))"
proof -
  from assms obtain c vs where
    vs: "parse_vertices buffer c 0 (offset + 8) [] = Inr (vs, offset')"
    and p: "poly_vertices p = vs"
    by (auto simp add: parse_polygon_def and_then_eq_Inr)
  from parse_vertices_consumed [OF vs] show ?thesis by (simp add: p)
qed


lemma parse_polygons_run:
  "parse_polygons buffer c i offset acc = Inr (ps, offset') \<Longrightarrow>
   \<exists>new. ps = acc @ new \<and> offset' = offset + polygons_size new \<and>
     (\<forall>j. i \<le> j \<and> j < i + length new \<longrightarrow> js_less (js_nat j) c) \<and>
     \<not> js_less (js_nat (i + length new)) c"
proof (induction buffer c i offset acc rule: parse_polygons.induct)
  case (1 buffer c i offset acc)
  show ?case
  proof (cases "js_less (js_nat i) c")
    case True
    with "1.prems" obtain p off1 where
      p: "parse_polygon buffer offset = Inr (p, off1)"
      and r: "parse_polygons buffer c (i + 1) off1 (acc @ [p]) = Inr (ps, offset')"
      by (subst (asm) parse_polygons.simps) (auto split: sum.splits)
    from "1.IH" [OF True p refl r] obtain new where
      n: "ps = (acc @ [p]) @ new" "offset' = off1 + polygons_size new"
      "\<forall>j. i + 1 \<le> j \<and> j < i + 1 + length new \<longrightarrow> js_less (js_nat j) c"
      "\<not> js_less (js_nat (i + 1 + length new)) c" by blast
    have g: "\<forall>j. i \<le> j \<and> j < i + length (p # new) \<longrightarrow> js_less (js_nat j) c"
    proof (intro allI impI)
      fix j assume j: "i \<le> j \<and> j < i + length (p # new)"
      show "js_less (js_nat j) c"
      proof (cases "j = i")
        case True
        then show ?thesis using \<open>js_less (js_nat i) c\<close> by simp
      next
        case False
        then have "i + 1 \<le> j \<and> j < i + 1 + length new" using j by simp
        then show ?thesis using n(3) by blast
      qed
    qed
    have "ps = acc @ (p # new) \<and> offset' = offset + polygons_size (p # new) \<and>
        \<not> js_less (js_nat (i + length (p # new))) c"
      using n(1,2,4) parse_polygon_consumed [OF p] by (simp add: polygons_size_def)
    then show ?thesis using g by blast
  next
    case False
    with "1.prems" have "ps = acc" "offset' = offset"
      by (subst (asm) parse_polygons.simps, simp)+
    then show ?thesis using False by (intro exI [of _ "[]"]) (auto simp add: polygons_size_def)
  qed
qed

lemma parse_object_consumed:
  "parse_object buffer offset = Inr (object, offset') \<Longrightarrow> offset' = offset + 28"
  by (auto simp add: parse_object_def and_then_eq_Inr)

lemma parse_picture_consumed:
  "parse_picture buffer offset = Inr (picture, offset') \<Longrightarrow> offset' = offset + 54"
  by (auto simp add: parse_picture_def Let_def and_then_eq_Inr)

lemma parse_objects_run:
  "parse_objects buffer c i offset acc = Inr (os, offset') \<Longrightarrow>
   \<exists>new. os = acc @ new \<and> offset' = offset + 28 * length new \<and>
     (\<forall>j. i \<le> j \<and> j < i + length new \<longrightarrow> js_less (js_nat j) c) \<and>
     \<not> js_less (js_nat (i + length new)) c"
proof (induction buffer c i offset acc rule: parse_objects.induct)
  case (1 buffer c i offset acc)
  show ?case
  proof (cases "js_less (js_nat i) c")
    case True
    with "1.prems" obtain p off1 where
      p: "parse_object buffer offset = Inr (p, off1)"
      and r: "parse_objects buffer c (i + 1) off1 (acc @ [p]) = Inr (os, offset')"
      by (subst (asm) parse_objects.simps) (auto split: sum.splits)
    from "1.IH" [OF True p refl r] obtain new where
      n: "os = (acc @ [p]) @ new" "offset' = off1 + 28 * length new"
      "\<forall>j. i + 1 \<le> j \<and> j < i + 1 + length new \<longrightarrow> js_less (js_nat j) c"
      "\<not> js_less (js_nat (i + 1 + length new)) c" by blast
    have g: "\<forall>j. i \<le> j \<and> j < i + length (p # new) \<longrightarrow> js_less (js_nat j) c"
    proof (intro allI impI)
      fix j assume j: "i \<le> j \<and> j < i + length (p # new)"
      show "js_less (js_nat j) c"
      proof (cases "j = i")
        case True
        then show ?thesis using \<open>js_less (js_nat i) c\<close> by simp
      next
        case False
        then have "i + 1 \<le> j \<and> j < i + 1 + length new" using j by simp
        then show ?thesis using n(3) by blast
      qed
    qed
    have "os = acc @ (p # new) \<and> offset' = offset + 28 * length (p # new) \<and>
        \<not> js_less (js_nat (i + length (p # new))) c"
      using n(1,2,4) parse_object_consumed [OF p] by simp
    then show ?thesis using g by blast
  next
    case False
    with "1.prems" have "os = acc" "offset' = offset"
      by (subst (asm) parse_objects.simps, simp)+
    then show ?thesis using False by (intro exI [of _ "[]"]) auto
  qed
qed

lemma parse_pictures_run:
  "parse_pictures buffer c i offset acc = Inr (ps, offset') \<Longrightarrow>
   \<exists>new. ps = acc @ new \<and> offset' = offset + 54 * length new \<and>
     (\<forall>j. i \<le> j \<and> j < i + length new \<longrightarrow> js_less (js_nat j) c) \<and>
     \<not> js_less (js_nat (i + length new)) c"
proof (induction buffer c i offset acc rule: parse_pictures.induct)
  case (1 buffer c i offset acc)
  show ?case
  proof (cases "js_less (js_nat i) c")
    case True
    with "1.prems" obtain p off1 where
      p: "parse_picture buffer offset = Inr (p, off1)"
      and r: "parse_pictures buffer c (i + 1) off1 (acc @ [p]) = Inr (ps, offset')"
      by (subst (asm) parse_pictures.simps) (auto split: sum.splits)
    from "1.IH" [OF True p refl r] obtain new where
      n: "ps = (acc @ [p]) @ new" "offset' = off1 + 54 * length new"
      "\<forall>j. i + 1 \<le> j \<and> j < i + 1 + length new \<longrightarrow> js_less (js_nat j) c"
      "\<not> js_less (js_nat (i + 1 + length new)) c" by blast
    have g: "\<forall>j. i \<le> j \<and> j < i + length (p # new) \<longrightarrow> js_less (js_nat j) c"
    proof (intro allI impI)
      fix j assume j: "i \<le> j \<and> j < i + length (p # new)"
      show "js_less (js_nat j) c"
      proof (cases "j = i")
        case True
        then show ?thesis using \<open>js_less (js_nat i) c\<close> by simp
      next
        case False
        then have "i + 1 \<le> j \<and> j < i + 1 + length new" using j by simp
        then show ?thesis using n(3) by blast
      qed
    qed
    have "ps = acc @ (p # new) \<and> offset' = offset + 54 * length (p # new) \<and>
        \<not> js_less (js_nat (i + length (p # new))) c"
      using n(1,2,4) parse_picture_consumed [OF p] by simp
    then show ?thesis using g by blast
  next
    case False
    with "1.prems" have "ps = acc" "offset' = offset"
      by (subst (asm) parse_pictures.simps, simp)+
    then show ?thesis using False by (intro exI [of _ "[]"]) auto
  qed
qed

text \<open>A loop from 0 that returns \<open>n\<close> records ran for exactly the \<open>i\<close> below the count.\<close>

lemma loop_count:
  assumes "\<forall>j. 0 \<le> j \<and> j < 0 + n \<longrightarrow> js_less (js_nat j) c" and "\<not> js_less (js_nat (0 + n)) c"
  shows "js_less (js_nat i) c \<longleftrightarrow> i < n"
proof
  assume a: "js_less (js_nat i) c"
  show "i < n"
  proof (rule ccontr)
    assume "\<not> i < n"
    then have "n \<le> i" by simp
    from js_less_nat_mono [OF a this] assms(2) show False by simp
  qed
next
  assume "i < n"
  then show "js_less (js_nat i) c" using assms(1) by simp
qed



subsection \<open>What a successful decoding has read\<close>

lemma decode_Inr:
  assumes "decode K buffer = Inr lvl"
  shows "\<exists>vlink i0 i1 i2 i3 d1 d2 d3 off1 off2 off3 t.
    ascii_string (slice buffer 0 5) = ''POT14'' \<and>
    readUInt32LE buffer 7 = Inr vlink \<and>
    readDoubleLE buffer 11 = Inr i0 \<and> readDoubleLE buffer 19 = Inr i1 \<and>
    readDoubleLE buffer 27 = Inr i2 \<and> readDoubleLE buffer 35 = Inr i3 \<and>
    readDoubleLE buffer 130 = Inr d1 \<and>
    parse_polygons buffer (js_sub (double_value d1) bias_polygons) 0 138 [] =
      Inr (lev_polygons lvl, off1) \<and>
    readDoubleLE buffer off1 = Inr d2 \<and>
    parse_objects buffer (js_sub (double_value d2) bias_polygons) 0 (off1 + 8) [] =
      Inr (lev_objects lvl, off2) \<and>
    readDoubleLE buffer off2 = Inr d3 \<and>
    parse_pictures buffer (js_sub (double_value d3) bias_pictures) 0 (off2 + 8) [] =
      Inr (lev_pictures lvl, off3) \<and>
    readInt32LE buffer off3 = Inr (EOD_MARKER K) \<and>
    parse_top10_block buffer (off3 + 4) = Inr t \<and>
    readInt32LE buffer (off3 + 4 + 688) = Inr (EOF_MARKER K) \<and>
    lev_top10 lvl = t"
  using assms unfolding decode_def parseFile_def Let_def
  by (auto simp add: and_then_eq_Inr level_for_load_def split: if_splits)


section \<open>The claims about whole files\<close>

text \<open>
  C10. A level that the format can hold, with score times from \<open>0\<close> to \<open>2\<^sup>3\<^sup>2 - 1\<close> and any
  names, is encoded without an error. In the file, the score block (the 688 bytes before
  the end-of-bytes marker, decrypted) holds each kept time as an unsigned little-endian
  32-bit integer in its slot. Decoding the file succeeds and gives each kept time read
  as a signed 32-bit integer: a time below \<open>2\<^sup>3\<^sup>1\<close> comes back unchanged, a time of at
  least \<open>2\<^sup>3\<^sup>1\<close> comes back as the negative number \<open>time - 2\<^sup>3\<^sup>2\<close>.
\<close>

theorem score_time_read_signed:
  assumes "valid_level this" and "valid_scores (lev_top10 this)"
    and "valid_markers K" and "length checksums = 4"
  shows "\<exists>bytes lvl.
    encode K checksums this = Inr bytes \<and> decode K bytes = Inr lvl \<and>
    (\<forall>j < min (length (top10_single (lev_top10 this))) 10.
       slice (cryptTop10 (slice bytes (length bytes - 692) (length bytes - 4))) (4 + j * 4) (4 + j * 4 + 4) =
         le_bytes 4 (entry_time (sort_by_time (top10_single (lev_top10 this)) ! j))) \<and>
    (\<forall>j < min (length (top10_multi (lev_top10 this))) 10.
       slice (cryptTop10 (slice bytes (length bytes - 692) (length bytes - 4))) (348 + j * 4) (348 + j * 4 + 4) =
         le_bytes 4 (entry_time (sort_by_time (top10_multi (lev_top10 this)) ! j))) \<and>
    map entry_time (top10_single (lev_top10 lvl)) =
      map (\<lambda>e. to_int32 (entry_time e)) (take 10 (sort_by_time (top10_single (lev_top10 this)))) \<and>
    map entry_time (top10_multi (lev_top10 lvl)) =
      map (\<lambda>e. to_int32 (entry_time e)) (take 10 (sort_by_time (top10_multi (lev_top10 this)))) \<and>
    (\<forall>e \<in> set (top10_single (lev_top10 this)) \<union> set (top10_multi (lev_top10 this)).
       (entry_time e < 2 ^ 31 \<longrightarrow> to_int32 (entry_time e) = entry_time e) \<and>
       (2 ^ 31 \<le> entry_time e \<longrightarrow>
          to_int32 (entry_time e) = entry_time e - 2 ^ 32 \<and> to_int32 (entry_time e) < 0))"
proof -
  define this' where "this' = this\<lparr>lev_integrity := checksums\<rparr>"
  define bytes where "bytes = level_bytes K this'"
  from decode_encode [OF assms] obtain d where
    u: "update K checksums this =
      (this\<lparr>lev_integrity := checksums,
            lev_top10 := (lev_top10 this)\<lparr>
              top10_single := sort_by_time (top10_single (lev_top10 this)),
              top10_multi := sort_by_time (top10_multi (lev_top10 this))\<rparr>\<rparr>,
       Inr bytes)"
    and r: "and_then (encode K checksums this) (decode K) =
      Inr (this\<lparr>lev_integrity := checksums, lev_top10 := d\<rparr>)"
    and t: "map entry_time (top10_single d) =
      map (\<lambda>e. to_int32 (entry_time e)) (take 10 (sort_by_time (top10_single (lev_top10 this))))"
      "map entry_time (top10_multi d) =
      map (\<lambda>e. to_int32 (entry_time e)) (take 10 (sort_by_time (top10_multi (lev_top10 this))))"
    unfolding bytes_def this'_def by blast
  have e: "encode K checksums this = Inr bytes" using u by (simp add: encode_def)
  have dec: "decode K bytes = Inr (this\<lparr>lev_integrity := checksums, lev_top10 := d\<rparr>)"
    using r unfolding e by simp
  let ?D = "data_bytes K this'" and ?B = "score_block (lev_top10 this)"
  have f: "bytes = ?D @ ?B @ int32_bytes (EOF_MARKER K)"
    by (simp add: bytes_def level_bytes_data this'_def)
  have lB: "length ?B = 688" by (rule score_block_times(2) [OF assms(2)])
  have "slice bytes (length bytes - 692) (length bytes - 4) = ?B"
    unfolding f using lB by (simp add: slice_def)
  moreover from score_block_tables [OF assms(2)] obtain ts tm where
    tb: "cryptTop10 ?B = ts @ tm" "length ts = 344" "length tm = 344"
    and s1: "\<forall>j < min (length (top10_single (lev_top10 this))) 10.
        slice ts (4 + j * 4) (4 + j * 4 + 4) =
          le_bytes 4 (entry_time (sort_by_time (top10_single (lev_top10 this)) ! j))"
    and s2: "\<forall>j < min (length (top10_multi (lev_top10 this))) 10.
        slice tm (4 + j * 4) (4 + j * 4 + 4) =
          le_bytes 4 (entry_time (sort_by_time (top10_multi (lev_top10 this)) ! j))"
    by blast
  ultimately have c: "cryptTop10 (slice bytes (length bytes - 692) (length bytes - 4)) = ts @ tm"
    by simp
  have w1: "slice (ts @ tm) (4 + j * 4) (4 + j * 4 + 4) =
      le_bytes 4 (entry_time (sort_by_time (top10_single (lev_top10 this)) ! j))"
    if "j < min (length (top10_single (lev_top10 this))) 10" for j
  proof -
    have "4 + j * 4 + 4 \<le> length ts" using that tb(2) by simp
    then have "slice (ts @ tm) (4 + j * 4) (4 + j * 4 + 4) = slice ts (4 + j * 4) (4 + j * 4 + 4)"
      by (rule slice_append_left)
    then show ?thesis using s1 that by simp
  qed
  have w2: "slice (ts @ tm) (348 + j * 4) (348 + j * 4 + 4) =
      le_bytes 4 (entry_time (sort_by_time (top10_multi (lev_top10 this)) ! j))"
    if "j < min (length (top10_multi (lev_top10 this))) 10" for j
  proof -
    have "length ts \<le> 348 + j * 4" using tb(2) by simp
    then have "slice (ts @ tm) (348 + j * 4) (348 + j * 4 + 4) =
        slice tm (348 + j * 4 - length ts) (348 + j * 4 + 4 - length ts)"
      by (rule slice_append_right)
    also have "\<dots> = slice tm (4 + j * 4) (4 + j * 4 + 4)" by (simp add: tb(2))
    finally show ?thesis using s2 that by simp
  qed
  have n: "(entry_time e < 2 ^ 31 \<longrightarrow> to_int32 (entry_time e) = entry_time e) \<and>
       (2 ^ 31 \<le> entry_time e \<longrightarrow>
          to_int32 (entry_time e) = entry_time e - 2 ^ 32 \<and> to_int32 (entry_time e) < 0)"
    if "e \<in> set (top10_single (lev_top10 this)) \<union> set (top10_multi (lev_top10 this))" for e
  proof -
    have "score_time e" using that assms(2) by (auto simp add: valid_scores_def list_all_iff)
    then show ?thesis by (simp add: score_time_def to_int32_def)
  qed
  show ?thesis
  proof (intro exI conjI)
    show "encode K checksums this = Inr bytes" by (rule e)
    show "decode K bytes = Inr (this\<lparr>lev_integrity := checksums, lev_top10 := d\<rparr>)" by (rule dec)
    show "\<forall>j < min (length (top10_single (lev_top10 this))) 10.
       slice (cryptTop10 (slice bytes (length bytes - 692) (length bytes - 4))) (4 + j * 4) (4 + j * 4 + 4) =
         le_bytes 4 (entry_time (sort_by_time (top10_single (lev_top10 this)) ! j))"
      unfolding c using w1 by blast
    show "\<forall>j < min (length (top10_multi (lev_top10 this))) 10.
       slice (cryptTop10 (slice bytes (length bytes - 692) (length bytes - 4))) (348 + j * 4) (348 + j * 4 + 4) =
         le_bytes 4 (entry_time (sort_by_time (top10_multi (lev_top10 this)) ! j))"
      unfolding c using w2 by blast
    show "map entry_time (top10_single (lev_top10 (this\<lparr>lev_integrity := checksums, lev_top10 := d\<rparr>))) =
      map (\<lambda>e. to_int32 (entry_time e)) (take 10 (sort_by_time (top10_single (lev_top10 this))))"
      using t(1) by simp
    show "map entry_time (top10_multi (lev_top10 (this\<lparr>lev_integrity := checksums, lev_top10 := d\<rparr>))) =
      map (\<lambda>e. to_int32 (entry_time e)) (take 10 (sort_by_time (top10_multi (lev_top10 this))))"
      using t(2) by simp
    show "\<forall>e \<in> set (top10_single (lev_top10 this)) \<union> set (top10_multi (lev_top10 this)).
       (entry_time e < 2 ^ 31 \<longrightarrow> to_int32 (entry_time e) = entry_time e) \<and>
       (2 ^ 31 \<le> entry_time e \<longrightarrow>
          to_int32 (entry_time e) = entry_time e - 2 ^ 32 \<and> to_int32 (entry_time e) < 0)"
      using n by blast
  qed
qed

theorem score_time_read_signed_witness:
  "valid_level (sample_level [scorer 4294967295 ''b'', scorer 2147483648 ''a''] [scorer 3000000000 ''c'']) \<and>
   valid_scores (lev_top10
     (sample_level [scorer 4294967295 ''b'', scorer 2147483648 ''a''] [scorer 3000000000 ''c''])) \<and>
   valid_markers sample_markers \<and> length sample_checksums = 4 \<and>
   (\<exists>bytes lvl.
      encode sample_markers sample_checksums
        (sample_level [scorer 4294967295 ''b'', scorer 2147483648 ''a''] [scorer 3000000000 ''c'']) =
        Inr bytes \<and>
      decode sample_markers bytes = Inr lvl \<and>
      slice (cryptTop10 (slice bytes (length bytes - 692) (length bytes - 4))) 4 8 = [0, 0, 0, 0x80] \<and>
      slice (cryptTop10 (slice bytes (length bytes - 692) (length bytes - 4))) 8 12 = [0xFF, 0xFF, 0xFF, 0xFF] \<and>
      map entry_time (top10_single (lev_top10 lvl)) = [- 2147483648, - 1] \<and>
      map entry_time (top10_multi (lev_top10 lvl)) = [- 1294967296])"
proof -
  let ?l = "sample_level [scorer 4294967295 ''b'', scorer 2147483648 ''a''] [scorer 3000000000 ''c'']"
  have s: "valid_scores (lev_top10 ?l)"
    by (simp add: valid_scores_def sample_level_def score_time_def scorer_def)
  have st: "sort_by_time [scorer 4294967295 ''b'', scorer 2147483648 ''a''] =
      [scorer 2147483648 ''a'', scorer 4294967295 ''b'']"
    "sort_by_time [scorer 3000000000 ''c''] = [scorer 3000000000 ''c'']"
    by (simp_all add: sort_by_time_def scorer_def)
  have t: "top10_single (lev_top10 ?l) = [scorer 4294967295 ''b'', scorer 2147483648 ''a'']"
    "top10_multi (lev_top10 ?l) = [scorer 3000000000 ''c'']"
    by (simp_all add: sample_level_def)
  have b: "le_bytes 4 2147483648 = [0, 0, 0, 0x80]" "le_bytes 4 4294967295 = [0xFF, 0xFF, 0xFF, 0xFF]"
    by (simp_all add: numeral_eq_Suc)
  from score_time_read_signed [OF valid_sample_level s valid_sample_markers length_sample_checksums]
  obtain bytes lvl where
    e: "encode sample_markers sample_checksums ?l = Inr bytes" and d: "decode sample_markers bytes = Inr lvl"
    and w: "\<forall>j < min (length (top10_single (lev_top10 ?l))) 10.
       slice (cryptTop10 (slice bytes (length bytes - 692) (length bytes - 4))) (4 + j * 4) (4 + j * 4 + 4) =
         le_bytes 4 (entry_time (sort_by_time (top10_single (lev_top10 ?l)) ! j))"
    and m: "map entry_time (top10_single (lev_top10 lvl)) =
      map (\<lambda>e. to_int32 (entry_time e)) (take 10 (sort_by_time (top10_single (lev_top10 ?l))))"
      "map entry_time (top10_multi (lev_top10 lvl)) =
      map (\<lambda>e. to_int32 (entry_time e)) (take 10 (sort_by_time (top10_multi (lev_top10 ?l))))"
    by blast
  have w0: "slice (cryptTop10 (slice bytes (length bytes - 692) (length bytes - 4))) 4 8 = [0, 0, 0, 0x80]"
    using w [rule_format, of 0] unfolding t st by (simp add: scorer_def b)
  have w1: "slice (cryptTop10 (slice bytes (length bytes - 692) (length bytes - 4))) 8 12 = [0xFF, 0xFF, 0xFF, 0xFF]"
    using w [rule_format, of 1] unfolding t st by (simp add: scorer_def b)
  have m1: "map entry_time (top10_single (lev_top10 lvl)) = [- 2147483648, - 1]"
    using m(1) unfolding t st by (simp add: scorer_def to_int32_def)
  have m2: "map entry_time (top10_multi (lev_top10 lvl)) = [- 1294967296]"
    using m(2) unfolding t st by (simp add: scorer_def to_int32_def)
  show ?thesis
    using valid_sample_level [of "[scorer 4294967295 ''b'', scorer 2147483648 ''a'']" "[scorer 3000000000 ''c'']"]
      s valid_sample_markers length_sample_checksums e d w0 w1 m1 m2
    by iprover
qed



text \<open>
  C5. A level with the fifteen single-player entries \<open>fifteen_long_scores\<close>, whose times
  are \<open>2\<^sup>3\<^sup>1 + 1\<close> to \<open>2\<^sup>3\<^sup>1 + 40\<close>, is encoded without an error, and the sort leaves the
  ten lowest times first. Decoding the file gives ten entries, but their times are
  negative: not the ten lowest times of the level.
\<close>

theorem score_cap_long_times:
  "\<exists>bytes lvl.
     encode sample_markers sample_checksums (sample_level fifteen_long_scores []) = Inr bytes \<and>
     decode sample_markers bytes = Inr lvl \<and>
     map entry_time (take 10 (sort_by_time fifteen_long_scores)) =
       [2147483649, 2147483650, 2147483651, 2147483653, 2147483655, 2147483655, 2147483657,
        2147483657, 2147483659, 2147483660] \<and>
     top10_single (lev_top10 lvl) =
       [scorer (- 2147483647) ''e'', scorer (- 2147483646) ''l'', scorer (- 2147483645) ''j'',
        scorer (- 2147483643) ''n'', scorer (- 2147483641) ''b'', scorer (- 2147483641) ''c'',
        scorer (- 2147483639) ''g'', scorer (- 2147483639) ''h'', scorer (- 2147483637) ''o'',
        scorer (- 2147483636) ''f'']"
proof -
  let ?l = "sample_level fifteen_long_scores []"
  have t: "top10_single (lev_top10 ?l) = fifteen_long_scores" "top10_multi (lev_top10 ?l) = []"
    by (simp_all add: sample_level_def)
  have v: "list_all score_entry fifteen_long_scores"
    by (simp add: fifteen_long_scores_def fifteen_scores_def score_entry_def scorer_def
        field_string_def)
  then have s: "valid_scores (lev_top10 ?l)"
    unfolding valid_scores_def t by (simp add: list_all_iff score_entry_time)
  have b: "map entry_time (take 10 (sort_by_time fifteen_long_scores)) =
     [2147483649, 2147483650, 2147483651, 2147483653, 2147483655, 2147483655, 2147483657,
      2147483657, 2147483659, 2147483660]"
    by (simp add: sort_by_time_def fifteen_long_scores_def fifteen_scores_def scorer_def)
  have r: "map read_back (take 10 (sort_by_time fifteen_long_scores)) =
     [scorer (- 2147483647) ''e'', scorer (- 2147483646) ''l'', scorer (- 2147483645) ''j'',
      scorer (- 2147483643) ''n'', scorer (- 2147483641) ''b'', scorer (- 2147483641) ''c'',
      scorer (- 2147483639) ''g'', scorer (- 2147483639) ''h'', scorer (- 2147483637) ''o'',
      scorer (- 2147483636) ''f'']"
    by (simp add: sort_by_time_def fifteen_long_scores_def fifteen_scores_def scorer_def
        read_back_def to_int32_def)
  from decode_encode [OF valid_sample_level s valid_sample_markers length_sample_checksums]
  obtain d where
    u: "update sample_markers sample_checksums ?l =
      (?l\<lparr>lev_integrity := sample_checksums,
           lev_top10 := (lev_top10 ?l)\<lparr>
              top10_single := sort_by_time (top10_single (lev_top10 ?l)),
              top10_multi := sort_by_time (top10_multi (lev_top10 ?l))\<rparr>\<rparr>,
       Inr (level_bytes sample_markers (?l\<lparr>lev_integrity := sample_checksums\<rparr>)))"
    and dec: "and_then (encode sample_markers sample_checksums ?l) (decode sample_markers) =
      Inr (?l\<lparr>lev_integrity := sample_checksums, lev_top10 := d\<rparr>)"
    and d: "list_all score_entry (top10_single (lev_top10 ?l)) \<and>
     list_all score_entry (top10_multi (lev_top10 ?l)) \<longrightarrow>
       d = \<lparr>top10_single = map read_back (take 10 (sort_by_time (top10_single (lev_top10 ?l)))),
            top10_multi = map read_back (take 10 (sort_by_time (top10_multi (lev_top10 ?l))))\<rparr>"
    by blast
  define bytes where "bytes = level_bytes sample_markers (?l\<lparr>lev_integrity := sample_checksums\<rparr>)"
  have e: "encode sample_markers sample_checksums ?l = Inr bytes"
    using u by (simp add: encode_def bytes_def)
  have dd: "decode sample_markers bytes = Inr (?l\<lparr>lev_integrity := sample_checksums, lev_top10 := d\<rparr>)"
    using dec unfolding e by simp
  have "top10_single d = map read_back (take 10 (sort_by_time fifteen_long_scores))"
    using d v unfolding t by simp
  then have "top10_single (lev_top10 (?l\<lparr>lev_integrity := sample_checksums, lev_top10 := d\<rparr>)) =
     [scorer (- 2147483647) ''e'', scorer (- 2147483646) ''l'', scorer (- 2147483645) ''j'',
      scorer (- 2147483643) ''n'', scorer (- 2147483641) ''b'', scorer (- 2147483641) ''c'',
      scorer (- 2147483639) ''g'', scorer (- 2147483639) ''h'', scorer (- 2147483637) ''o'',
      scorer (- 2147483636) ''f'']"
    unfolding r by simp
  then show ?thesis using e dd b by iprover
qed



text \<open>
  C1. A level that the format can hold, whose score entries have names that fit their
  fields, and whose two score tables are already as the encoder stores them (in
  ascending order of time, at most ten entries) with times below \<open>2\<^sup>3\<^sup>1\<close>, is encoded, and
  decoding the file gives the level back with every field as it was (polygons, objects
  with the gravity and the animation number of an apple, pictures, strings, link, both
  score tables, and the version, which is the standard one), except that the integrity
  holds the four new checksums.
\<close>

theorem decode_encode_roundtrip:
  assumes "valid_level this" and "valid_markers K" and "length checksums = 4"
    and "list_all score_entry (top10_single (lev_top10 this))"
    and "list_all score_entry (top10_multi (lev_top10 this))"
    and "stored_scores (top10_single (lev_top10 this))"
    and "stored_scores (top10_multi (lev_top10 this))"
  shows "and_then (encode K checksums this) (decode K) = Inr (this\<lparr>lev_integrity := checksums\<rparr>)"
proof -
  have s: "valid_scores (lev_top10 this)"
    using assms(4,5) by (simp add: valid_scores_def list_all_iff score_entry_time)
  have keep: "map read_back (take 10 (sort_by_time list)) = list"
    if "list_all score_entry list" and "stored_scores list" for list
  proof -
    have "sort_by_time list = list"
      using that(2) by (simp add: sort_by_time_def stored_scores_def sort_key_id_if_sorted)
    moreover have "take 10 list = list" using that(2) by (simp add: stored_scores_def)
    moreover have "\<forall>e \<in> set list. 0 \<le> entry_time e \<and> entry_time e < 2 ^ 31"
      using that by (simp add: stored_scores_def list_all_iff score_entry_def)
    then have "map read_back list = list" by (rule map_read_back_id)
    ultimately show ?thesis by simp
  qed
  from decode_encode [OF assms(1) s assms(2,3)] obtain d where
    r: "and_then (encode K checksums this) (decode K) =
      Inr (this\<lparr>lev_integrity := checksums, lev_top10 := d\<rparr>)"
    and d: "list_all score_entry (top10_single (lev_top10 this)) \<and>
     list_all score_entry (top10_multi (lev_top10 this)) \<longrightarrow>
       d = \<lparr>top10_single = map read_back (take 10 (sort_by_time (top10_single (lev_top10 this)))),
            top10_multi = map read_back (take 10 (sort_by_time (top10_multi (lev_top10 this))))\<rparr>"
    by blast
  have "d = \<lparr>top10_single = top10_single (lev_top10 this), top10_multi = top10_multi (lev_top10 this)\<rparr>"
    using d assms(4,5) keep [OF assms(4,6)] keep [OF assms(5,7)] by simp
  then have "d = lev_top10 this" by simp
  then show ?thesis using r by simp
qed

theorem decode_encode_roundtrip_witness:
  "valid_level (sample_level [scorer 10 ''a'', scorer 20 ''b''] [\<lparr>entry_time = 5, entry_name1 = ''c'', entry_name2 = ''d''\<rparr>]) \<and>
   valid_markers sample_markers \<and> length sample_checksums = 4 \<and>
   list_all score_entry [scorer 10 ''a'', scorer 20 ''b''] \<and>
   list_all score_entry [\<lparr>entry_time = 5, entry_name1 = ''c'', entry_name2 = ''d''\<rparr>] \<and>
   stored_scores [scorer 10 ''a'', scorer 20 ''b''] \<and>
   stored_scores [\<lparr>entry_time = 5, entry_name1 = ''c'', entry_name2 = ''d''\<rparr>] \<and>
   and_then
     (encode sample_markers sample_checksums
        (sample_level [scorer 10 ''a'', scorer 20 ''b''] [\<lparr>entry_time = 5, entry_name1 = ''c'', entry_name2 = ''d''\<rparr>]))
     (decode sample_markers) =
   Inr ((sample_level [scorer 10 ''a'', scorer 20 ''b''] [\<lparr>entry_time = 5, entry_name1 = ''c'', entry_name2 = ''d''\<rparr>])
          \<lparr>lev_integrity := sample_checksums\<rparr>)"
proof -
  let ?s = "[scorer 10 ''a'', scorer 20 ''b'']"
  let ?m = "[\<lparr>entry_time = 5, entry_name1 = ''c'', entry_name2 = ''d''\<rparr>]"
  have t: "top10_single (lev_top10 (sample_level ?s ?m)) = ?s"
    "top10_multi (lev_top10 (sample_level ?s ?m)) = ?m"
    by (simp_all add: sample_level_def)
  have e: "list_all score_entry ?s" "list_all score_entry ?m"
    by (simp_all add: score_entry_def scorer_def field_string_def)
  have o: "stored_scores ?s" "stored_scores ?m"
    by (simp_all add: stored_scores_def scorer_def)
  have "and_then (encode sample_markers sample_checksums (sample_level ?s ?m)) (decode sample_markers) =
      Inr ((sample_level ?s ?m)\<lparr>lev_integrity := sample_checksums\<rparr>)"
    by (rule decode_encode_roundtrip [OF valid_sample_level valid_sample_markers length_sample_checksums])
      (simp_all only: t e o)
  then show ?thesis
    using valid_sample_level [of ?s ?m] valid_sample_markers length_sample_checksums e o by iprover
qed

theorem roundtrip_unsorted_scores_counterexample:
  "\<exists>bytes lvl.
     encode sample_markers sample_checksums (sample_level [scorer 20 ''b'', scorer 10 ''a''] []) = Inr bytes \<and>
     decode sample_markers bytes = Inr lvl \<and>
     top10_single (lev_top10 (sample_level [scorer 20 ''b'', scorer 10 ''a''] [])) =
       [scorer 20 ''b'', scorer 10 ''a''] \<and>
     top10_single (lev_top10 lvl) = [scorer 10 ''a'', scorer 20 ''b''] \<and>
     lvl \<noteq> (sample_level [scorer 20 ''b'', scorer 10 ''a''] [])\<lparr>lev_integrity := lev_integrity lvl\<rparr>"
proof -
  let ?s = "[scorer 20 ''b'', scorer 10 ''a'']"
  let ?l = "sample_level ?s []"
  have t: "top10_single (lev_top10 ?l) = ?s" "top10_multi (lev_top10 ?l) = []"
    by (simp_all add: sample_level_def)
  have v: "list_all score_entry ?s" by (simp add: score_entry_def scorer_def field_string_def)
  have s: "valid_scores (lev_top10 ?l)"
    unfolding valid_scores_def t by (simp add: score_time_def scorer_def)
  have r: "map read_back (take 10 (sort_by_time ?s)) = [scorer 10 ''a'', scorer 20 ''b'']"
    by (simp add: sort_by_time_def scorer_def read_back_def to_int32_def)
  from decode_encode [OF valid_sample_level s valid_sample_markers length_sample_checksums]
  obtain d where
    u: "update sample_markers sample_checksums ?l =
      (?l\<lparr>lev_integrity := sample_checksums,
           lev_top10 := (lev_top10 ?l)\<lparr>
              top10_single := sort_by_time (top10_single (lev_top10 ?l)),
              top10_multi := sort_by_time (top10_multi (lev_top10 ?l))\<rparr>\<rparr>,
       Inr (level_bytes sample_markers (?l\<lparr>lev_integrity := sample_checksums\<rparr>)))"
    and dec: "and_then (encode sample_markers sample_checksums ?l) (decode sample_markers) =
      Inr (?l\<lparr>lev_integrity := sample_checksums, lev_top10 := d\<rparr>)"
    and d: "list_all score_entry (top10_single (lev_top10 ?l)) \<and>
     list_all score_entry (top10_multi (lev_top10 ?l)) \<longrightarrow>
       d = \<lparr>top10_single = map read_back (take 10 (sort_by_time (top10_single (lev_top10 ?l)))),
            top10_multi = map read_back (take 10 (sort_by_time (top10_multi (lev_top10 ?l))))\<rparr>"
    by blast
  define bytes where "bytes = level_bytes sample_markers (?l\<lparr>lev_integrity := sample_checksums\<rparr>)"
  define lvl where "lvl = ?l\<lparr>lev_integrity := sample_checksums, lev_top10 := d\<rparr>"
  have e: "encode sample_markers sample_checksums ?l = Inr bytes"
    using u by (simp add: encode_def bytes_def)
  have dd: "decode sample_markers bytes = Inr lvl"
    using dec unfolding e lvl_def by simp
  have "top10_single d = map read_back (take 10 (sort_by_time ?s))"
    using d v unfolding t by simp
  then have k: "top10_single (lev_top10 lvl) = [scorer 10 ''a'', scorer 20 ''b'']"
    unfolding r by (simp add: lvl_def)
  have "top10_single (lev_top10 (?l\<lparr>lev_integrity := lev_integrity lvl\<rparr>)) = ?s"
    by (simp add: sample_level_def)
  then have "top10_single (lev_top10 lvl) \<noteq> top10_single (lev_top10 (?l\<lparr>lev_integrity := lev_integrity lvl\<rparr>))"
    unfolding k by (simp add: scorer_def)
  then have n: "lvl \<noteq> ?l\<lparr>lev_integrity := lev_integrity lvl\<rparr>"
    using arg_cong [where f = "\<lambda>x. top10_single (lev_top10 x)" and x = lvl
        and y = "?l\<lparr>lev_integrity := lev_integrity lvl\<rparr>"]
    by blast
  show ?thesis using e dd t(1) k n by iprover
qed



text \<open>
  C7. \<open>_update\<close> leaves the version, the link, the strings, the polygons, the objects and
  the pictures of the level as they were, whatever the level is and however the call
  ends; the integrity holds the new checksums. The entries of both score lists are kept,
  but their order is not: \<open>_top10ToBuffer\<close> sorts each list in place, so a list is left
  as it was or sorted by time (entries with the same time in their old order), and when
  the promise resolves both lists are sorted.
\<close>

theorem update_frame:
  "lev_version (fst (update K checksums this)) = lev_version this \<and>
   lev_link (fst (update K checksums this)) = lev_link this \<and>
   lev_name (fst (update K checksums this)) = lev_name this \<and>
   lev_lgr (fst (update K checksums this)) = lev_lgr this \<and>
   lev_ground (fst (update K checksums this)) = lev_ground this \<and>
   lev_sky (fst (update K checksums this)) = lev_sky this \<and>
   lev_polygons (fst (update K checksums this)) = lev_polygons this \<and>
   lev_objects (fst (update K checksums this)) = lev_objects this \<and>
   lev_pictures (fst (update K checksums this)) = lev_pictures this \<and>
   lev_integrity (fst (update K checksums this)) = checksums \<and>
   top10_single (lev_top10 (fst (update K checksums this))) \<in>
     {top10_single (lev_top10 this), sort_by_time (top10_single (lev_top10 this))} \<and>
   top10_multi (lev_top10 (fst (update K checksums this))) \<in>
     {top10_multi (lev_top10 this), sort_by_time (top10_multi (lev_top10 this))} \<and>
   (\<forall>bytes. snd (update K checksums this) = Inr bytes \<longrightarrow>
      top10_single (lev_top10 (fst (update K checksums this))) =
        sort_by_time (top10_single (lev_top10 this)) \<and>
      top10_multi (lev_top10 (fst (update K checksums this))) =
        sort_by_time (top10_multi (lev_top10 this))) \<and>
   sorted (map entry_time (sort_by_time (top10_single (lev_top10 this)))) \<and>
   sorted (map entry_time (sort_by_time (top10_multi (lev_top10 this)))) \<and>
   (\<forall>k. filter (\<lambda>e. entry_time e = k) (sort_by_time (top10_single (lev_top10 this))) =
        filter (\<lambda>e. entry_time e = k) (top10_single (lev_top10 this))) \<and>
   (\<forall>k. filter (\<lambda>e. entry_time e = k) (sort_by_time (top10_multi (lev_top10 this))) =
        filter (\<lambda>e. entry_time e = k) (top10_multi (lev_top10 this)))"
proof -
  define this' where "this' = this\<lparr>lev_integrity := checksums\<rparr>"
  define t where "t = lev_top10 this"
  have cases: "fst (update K checksums this) = this' \<and> (\<forall>bytes. snd (update K checksums this) \<noteq> Inr bytes) \<or>
    fst (update K checksums this) = this'\<lparr>lev_top10 := t\<lparr>top10_single := sort_by_time (top10_single t)\<rparr>\<rparr> \<and>
      (\<forall>bytes. snd (update K checksums this) \<noteq> Inr bytes) \<or>
    fst (update K checksums this) =
      this'\<lparr>lev_top10 := t\<lparr>top10_single := sort_by_time (top10_single t),
                                top10_multi := sort_by_time (top10_multi t)\<rparr>\<rparr>"
    by (auto simp add: update_def Let_def top10ToBuffer_def this'_def t_def
        split: sum.splits prod.splits option.splits if_splits)
  have srt: "sorted (map entry_time (sort_by_time list))"
    "filter (\<lambda>e. entry_time e = k) (sort_by_time list) = filter (\<lambda>e. entry_time e = k) list"
    for list k
    by (simp_all add: sort_by_time_facts)
  from cases show ?thesis
  proof (elim disjE conjE)
    assume a: "fst (update K checksums this) = this'"
      and b: "\<forall>bytes. snd (update K checksums this) \<noteq> Inr bytes"
    show ?thesis unfolding a using b srt by (simp add: this'_def)
  next
    assume a: "fst (update K checksums this) =
        this'\<lparr>lev_top10 := t\<lparr>top10_single := sort_by_time (top10_single t)\<rparr>\<rparr>"
      and b: "\<forall>bytes. snd (update K checksums this) \<noteq> Inr bytes"
    show ?thesis unfolding a using b srt by (simp add: this'_def t_def)
  next
    assume a: "fst (update K checksums this) =
      this'\<lparr>lev_top10 := t\<lparr>top10_single := sort_by_time (top10_single t),
                                top10_multi := sort_by_time (top10_multi t)\<rparr>\<rparr>"
    show ?thesis unfolding a using srt by (simp add: this'_def t_def)
  qed
qed



theorem update_frame_witness:
  "(\<exists>bytes. snd (update sample_markers sample_checksums
       (sample_level [scorer 20 ''b'', scorer 10 ''a''] [scorer 7 ''c''])) = Inr bytes) \<and>
   top10_single (lev_top10 (fst (update sample_markers sample_checksums
       (sample_level [scorer 20 ''b'', scorer 10 ''a''] [scorer 7 ''c''])))) =
     [scorer 10 ''a'', scorer 20 ''b''] \<and>
   top10_multi (lev_top10 (fst (update sample_markers sample_checksums
       (sample_level [scorer 20 ''b'', scorer 10 ''a''] [scorer 7 ''c''])))) = [scorer 7 ''c''] \<and>
   lev_polygons (fst (update sample_markers sample_checksums
       (sample_level [scorer 20 ''b'', scorer 10 ''a''] [scorer 7 ''c'']))) =
     lev_polygons (sample_level [scorer 20 ''b'', scorer 10 ''a''] [scorer 7 ''c'']) \<and>
   lev_integrity (fst (update sample_markers sample_checksums
       (sample_level [scorer 20 ''b'', scorer 10 ''a''] [scorer 7 ''c'']))) = sample_checksums"
proof -
  let ?s = "[scorer 20 ''b'', scorer 10 ''a'']" and ?m = "[scorer 7 ''c'']"
  let ?l = "sample_level ?s ?m"
  have t: "top10_single (lev_top10 ?l) = ?s" "top10_multi (lev_top10 ?l) = ?m"
    by (simp_all add: sample_level_def)
  have s: "valid_scores (lev_top10 ?l)"
    unfolding valid_scores_def t by (simp add: score_time_def scorer_def)
  have st: "sort_by_time ?s = [scorer 10 ''a'', scorer 20 ''b'']" "sort_by_time ?m = ?m"
    by (simp_all add: sort_by_time_def scorer_def)
  have ok: "snd (update sample_markers sample_checksums ?l) =
      Inr (level_bytes sample_markers (?l\<lparr>lev_integrity := sample_checksums\<rparr>))"
    unfolding update_bytes [OF valid_sample_level s valid_sample_markers length_sample_checksums]
    by simp
  note f = update_frame [of sample_markers sample_checksums ?l]
  from f have r: "\<forall>bytes. snd (update sample_markers sample_checksums ?l) = Inr bytes \<longrightarrow>
      top10_single (lev_top10 (fst (update sample_markers sample_checksums ?l))) =
        sort_by_time (top10_single (lev_top10 ?l)) \<and>
      top10_multi (lev_top10 (fst (update sample_markers sample_checksums ?l))) =
        sort_by_time (top10_multi (lev_top10 ?l))"
    by blast
  from r ok have a: "top10_single (lev_top10 (fst (update sample_markers sample_checksums ?l))) =
        sort_by_time (top10_single (lev_top10 ?l))"
    and b: "top10_multi (lev_top10 (fst (update sample_markers sample_checksums ?l))) =
        sort_by_time (top10_multi (lev_top10 ?l))"
    by blast+
  from f have p: "lev_polygons (fst (update sample_markers sample_checksums ?l)) = lev_polygons ?l"
    and i: "lev_integrity (fst (update sample_markers sample_checksums ?l)) = sample_checksums"
    by blast+
  show ?thesis
    using ok a [unfolded t st] b [unfolded t st] p i by iprover
qed

theorem update_sorts_scores_counterexample:
  "top10_single (lev_top10 (sample_level [scorer 20 ''b'', scorer 10 ''a''] [])) =
     [scorer 20 ''b'', scorer 10 ''a''] \<and>
   top10_single (lev_top10 (fst (update sample_markers sample_checksums
       (sample_level [scorer 20 ''b'', scorer 10 ''a''] [])))) =
     [scorer 10 ''a'', scorer 20 ''b''] \<and>
   [scorer 10 ''a'', scorer 20 ''b''] \<noteq> [scorer 20 ''b'', scorer 10 ''a'']"
proof -
  let ?s = "[scorer 20 ''b'', scorer 10 ''a'']"
  let ?l = "sample_level ?s []"
  have t: "top10_single (lev_top10 ?l) = ?s" "top10_multi (lev_top10 ?l) = []"
    by (simp_all add: sample_level_def)
  have s: "valid_scores (lev_top10 ?l)"
    unfolding valid_scores_def t by (simp add: score_time_def scorer_def)
  have st: "sort_by_time ?s = [scorer 10 ''a'', scorer 20 ''b'']"
    by (simp add: sort_by_time_def scorer_def)
  have "top10_single (lev_top10 (fst (update sample_markers sample_checksums ?l))) =
      sort_by_time (top10_single (lev_top10 ?l))"
    unfolding update_bytes [OF valid_sample_level s valid_sample_markers length_sample_checksums]
    by simp
  then have a: "top10_single (lev_top10 (fst (update sample_markers sample_checksums ?l))) =
      [scorer 10 ''a'', scorer 20 ''b'']"
    unfolding t st .
  have n: "[scorer 10 ''a'', scorer 20 ''b''] \<noteq> [scorer 20 ''b'', scorer 10 ''a'']"
    by (simp add: scorer_def)
  show ?thesis using t(1) a n by iprover
qed


text \<open>
  C9. In a file whose tag is \<open>POT14\<close> and whose polygons have been read:
  \<^item> when the first \<open>k\<close> object records have been read, the object count says that there is
    a further record, and the record lies in the file with a type code other than 1, 2,
    3, 4, decoding fails with \<open>InvalidObjectType\<close>; with the type code 2 (an apple) and a
    gravity code other than 0, 1, 2, 3, 4 it fails with \<open>InvalidGravityValue\<close>;
  \<^item> when all objects and the first \<open>k\<close> picture records have been read, the picture count
    says that there is a further record, and the record lies in the file with a clip
    code other than 0, 1, 2, decoding fails with \<open>InvalidClipValue\<close>.
  The result is the error: no level is returned, with a default in the field or otherwise.
\<close>

theorem enum_codes_rejected:
  assumes "ascii_string (slice buffer 0 5) = ''POT14''"
    and "readDoubleLE buffer 130 = Inr d1"
    and "parse_polygons buffer (js_sub (double_value d1) bias_polygons) 0 138 [] = Inr (polygons, off1)"
    and "readDoubleLE buffer off1 = Inr d2"
  shows "(\<forall>k objects offk objType gravity.
       parse_objects buffer (js_nat k) 0 (off1 + 8) [] = Inr (objects, offk) \<and>
       js_less (js_nat k) (js_sub (double_value d2) bias_polygons) \<and>
       offk + 28 \<le> length buffer \<and>
       readInt32LE buffer (offk + 16) = Inr objType \<and>
       readInt32LE buffer (offk + 20) = Inr gravity \<longrightarrow>
       (objType \<notin> {1, 2, 3, 4} \<longrightarrow> decode K buffer = Inl InvalidObjectType) \<and>
       (objType = 2 \<and> gravity \<notin> {0, 1, 2, 3, 4} \<longrightarrow> decode K buffer = Inl InvalidGravityValue)) \<and>
    (\<forall>objects off2 d3 k pictures offk clip.
       parse_objects buffer (js_sub (double_value d2) bias_polygons) 0 (off1 + 8) [] =
         Inr (objects, off2) \<and>
       readDoubleLE buffer off2 = Inr d3 \<and>
       parse_pictures buffer (js_nat k) 0 (off2 + 8) [] = Inr (pictures, offk) \<and>
       js_less (js_nat k) (js_sub (double_value d3) bias_pictures) \<and>
       offk + 54 \<le> length buffer \<and>
       readInt32LE buffer (offk + 50) = Inr clip \<and> clip \<notin> {0, 1, 2} \<longrightarrow>
       decode K buffer = Inl InvalidClipValue)"
proof -
  from header_read [OF assms(2)] obtain vlink i0 i1 i2 i3 where
    h: "readUInt32LE buffer 7 = Inr vlink" "readDoubleLE buffer 11 = Inr i0"
      "readDoubleLE buffer 19 = Inr i1" "readDoubleLE buffer 27 = Inr i2"
      "readDoubleLE buffer 35 = Inr i3"
    by blast
  have obj: "decode K buffer = Inl e"
    if "parse_objects buffer (js_sub (double_value d2) bias_polygons) 0 (off1 + 8) [] = Inl e" for e
    using assms h that by (simp add: decode_def parseFile_def Let_def level_for_load_def)
  have pic: "decode K buffer = Inl e"
    if "parse_objects buffer (js_sub (double_value d2) bias_polygons) 0 (off1 + 8) [] =
          Inr (objects, off2)"
      and "readDoubleLE buffer off2 = Inr d3"
      and "parse_pictures buffer (js_sub (double_value d3) bias_pictures) 0 (off2 + 8) [] = Inl e"
    for e objects off2 d3
    using assms h that by (simp add: decode_def parseFile_def Let_def level_for_load_def)
  have a: "(objType \<notin> {1, 2, 3, 4} \<longrightarrow> decode K buffer = Inl InvalidObjectType) \<and>
       (objType = 2 \<and> gravity \<notin> {0, 1, 2, 3, 4} \<longrightarrow> decode K buffer = Inl InvalidGravityValue)"
    if p: "parse_objects buffer (js_nat k) 0 (off1 + 8) [] = Inr (objects, offk)"
      and g: "js_less (js_nat k) (js_sub (double_value d2) bias_polygons)"
      and l: "offk + 28 \<le> length buffer"
      and t: "readInt32LE buffer (offk + 16) = Inr objType"
      and gr: "readInt32LE buffer (offk + 20) = Inr gravity"
    for k objects offk objType gravity
  proof -
    from parse_object_codes [OF l t gr] obtain ox oy animation where
      po: "parse_object buffer offk =
        and_then (object_of_codes ox oy objType gravity animation) (\<lambda>object. Inr (object, offk + 28))"
      by blast
    have "decode K buffer = Inl InvalidObjectType" if "objType \<notin> {1, 2, 3, 4}"
    proof -
      have "parse_object buffer offk = Inl InvalidObjectType"
        unfolding po by (simp add: object_of_codes_rejects(1) [OF that])
      from parse_objects_rejected [OF p refl _ g this] show ?thesis by (intro obj) simp
    qed
    moreover have "decode K buffer = Inl InvalidGravityValue"
      if "objType = 2" and "gravity \<notin> {0, 1, 2, 3, 4}"
    proof -
      have "parse_object buffer offk = Inl InvalidGravityValue"
        unfolding po by (simp add: object_of_codes_rejects(2) [OF that])
      from parse_objects_rejected [OF p refl _ g this] show ?thesis by (intro obj) simp
    qed
    ultimately show ?thesis by blast
  qed
  have b: "decode K buffer = Inl InvalidClipValue"
    if o: "parse_objects buffer (js_sub (double_value d2) bias_polygons) 0 (off1 + 8) [] =
         Inr (objects, off2)"
      and c: "readDoubleLE buffer off2 = Inr d3"
      and p: "parse_pictures buffer (js_nat k) 0 (off2 + 8) [] = Inr (pictures, offk)"
      and g: "js_less (js_nat k) (js_sub (double_value d3) bias_pictures)"
      and l: "offk + 54 \<le> length buffer"
      and cl: "readInt32LE buffer (offk + 50) = Inr clip" and n: "clip \<notin> {0, 1, 2}"
    for objects off2 d3 k pictures offk clip
  proof -
    have "parse_picture buffer offk = Inl InvalidClipValue"
      by (rule parse_picture_clip [OF l cl n])
    from parse_pictures_rejected [OF p refl _ g this] show ?thesis by (intro pic [OF o c]) simp
  qed
  show ?thesis using a b by blast
qed

theorem enum_codes_rejected_witness:
  "ascii_string (slice (file_with_object 9 0) 0 5) = ''POT14'' \<and>
   decode sample_markers (file_with_object 9 0) = Inl InvalidObjectType \<and>
   ascii_string (slice (file_with_object 2 7) 0 5) = ''POT14'' \<and>
   decode sample_markers (file_with_object 2 7) = Inl InvalidGravityValue \<and>
   ascii_string (slice (file_with_picture 7) 0 5) = ''POT14'' \<and>
   decode sample_markers (file_with_picture 7) = Inl InvalidClipValue"
proof -
  have i: "is_int32 9" "is_int32 0" "is_int32 2" "is_int32 7" by (simp_all add: is_int32_def)
  from file_with_object_rejected [OF i(1,2)] obtain d1 polygons off1 d2 objects offk where
    tag: "ascii_string (slice (file_with_object 9 0) 0 5) = ''POT14''"
    and r1: "readDoubleLE (file_with_object 9 0) 130 = Inr d1"
    and ps: "parse_polygons (file_with_object 9 0) (js_sub (double_value d1) bias_polygons) 0 138 [] =
      Inr (polygons, off1)"
    and r2: "readDoubleLE (file_with_object 9 0) off1 = Inr d2"
    and os: "parse_objects (file_with_object 9 0) (js_nat 3) 0 (off1 + 8) [] = Inr (objects, offk)"
    and gd: "js_less (js_nat 3) (js_sub (double_value d2) bias_polygons)"
    and len: "offk + 28 \<le> length (file_with_object 9 0)"
    and rt: "readInt32LE (file_with_object 9 0) (offk + 16) = Inr 9"
    and rg: "readInt32LE (file_with_object 9 0) (offk + 20) = Inr 0"
    by blast
  from enum_codes_rejected [OF tag r1 ps r2, of sample_markers] os gd len rt rg
  have "(9::int) \<notin> {1, 2, 3, 4} \<longrightarrow>
      decode sample_markers (file_with_object 9 0) = Inl InvalidObjectType"
    by blast
  then have a: "decode sample_markers (file_with_object 9 0) = Inl InvalidObjectType" by simp
  from file_with_object_rejected [OF i(3,4)] obtain d1' polygons' off1' d2' objects' offk' where
    tag': "ascii_string (slice (file_with_object 2 7) 0 5) = ''POT14''"
    and r1': "readDoubleLE (file_with_object 2 7) 130 = Inr d1'"
    and ps': "parse_polygons (file_with_object 2 7) (js_sub (double_value d1') bias_polygons) 0 138 [] =
      Inr (polygons', off1')"
    and r2': "readDoubleLE (file_with_object 2 7) off1' = Inr d2'"
    and os': "parse_objects (file_with_object 2 7) (js_nat 3) 0 (off1' + 8) [] = Inr (objects', offk')"
    and gd': "js_less (js_nat 3) (js_sub (double_value d2') bias_polygons)"
    and len': "offk' + 28 \<le> length (file_with_object 2 7)"
    and rt': "readInt32LE (file_with_object 2 7) (offk' + 16) = Inr 2"
    and rg': "readInt32LE (file_with_object 2 7) (offk' + 20) = Inr 7"
    by blast
  from enum_codes_rejected [OF tag' r1' ps' r2', of sample_markers] os' gd' len' rt' rg'
  have "(2::int) = 2 \<and> (7::int) \<notin> {0, 1, 2, 3, 4} \<longrightarrow>
      decode sample_markers (file_with_object 2 7) = Inl InvalidGravityValue"
    by blast
  then have b: "decode sample_markers (file_with_object 2 7) = Inl InvalidGravityValue" by simp
  from file_with_picture_rejected [OF i(4)] obtain e1 pg f1 e2 ob f2 e3 pc fk where
    tag'': "ascii_string (slice (file_with_picture 7) 0 5) = ''POT14''"
    and q1: "readDoubleLE (file_with_picture 7) 130 = Inr e1"
    and qs: "parse_polygons (file_with_picture 7) (js_sub (double_value e1) bias_polygons) 0 138 [] =
      Inr (pg, f1)"
    and q2: "readDoubleLE (file_with_picture 7) f1 = Inr e2"
    and qo: "parse_objects (file_with_picture 7) (js_sub (double_value e2) bias_polygons) 0 (f1 + 8) [] =
      Inr (ob, f2)"
    and q3: "readDoubleLE (file_with_picture 7) f2 = Inr e3"
    and qp: "parse_pictures (file_with_picture 7) (js_nat 1) 0 (f2 + 8) [] = Inr (pc, fk)"
    and qg: "js_less (js_nat 1) (js_sub (double_value e3) bias_pictures)"
    and ql: "fk + 54 \<le> length (file_with_picture 7)"
    and qc: "readInt32LE (file_with_picture 7) (fk + 50) = Inr 7"
    by blast
  have n: "(7::int) \<notin> {0, 1, 2}" by simp
  from enum_codes_rejected [OF tag'' q1 qs q2, of sample_markers] qo q3 qp qg ql qc n
  have c: "decode sample_markers (file_with_picture 7) = Inl InvalidClipValue"
    by blast
  show ?thesis using tag a tag' b tag'' c by iprover
qed



text \<open>
  C4. Whenever decoding succeeds, the three count fields were read as little-endian
  doubles (at offset 130, after the polygon records, and after the object records), and
  no count was rounded: a loop read the record of index \<open>i\<close> exactly when \<open>i\<close> was less
  than the field less its bias, in floating point (the polygon bias for polygons and
  objects, the picture bias for pictures). When a field is the double \<open>n + bias\<close> for a
  count \<open>n\<close> below \<open>2\<^sup>3\<^sup>1\<close>, exactly \<open>n\<close> records are read; in particular the polygon field
  \<open>3 + 0.4643643\<close> gives 3 polygons.
\<close>

theorem count_fields_bound_loops:
  assumes "decode K buffer = Inr lvl"
  shows "\<exists>d1 d2 d3.
    readDoubleLE buffer 130 = Inr d1 \<and>
    readDoubleLE buffer (138 + polygons_size (lev_polygons lvl)) = Inr d2 \<and>
    readDoubleLE buffer (138 + polygons_size (lev_polygons lvl) + 8 + 28 * length (lev_objects lvl)) =
      Inr d3 \<and>
    (\<forall>i. i < length (lev_polygons lvl) \<longleftrightarrow>
       js_less (js_nat i) (js_sub (double_value d1) bias_polygons)) \<and>
    (\<forall>i. i < length (lev_objects lvl) \<longleftrightarrow>
       js_less (js_nat i) (js_sub (double_value d2) bias_polygons)) \<and>
    (\<forall>i. i < length (lev_pictures lvl) \<longleftrightarrow>
       js_less (js_nat i) (js_sub (double_value d3) bias_pictures)) \<and>
    (\<forall>n < 2 ^ 31. d1 = double_bits (js_add (js_nat n) bias_polygons) \<longrightarrow>
       length (lev_polygons lvl) = n) \<and>
    (\<forall>n < 2 ^ 31. d2 = double_bits (js_add (js_nat n) bias_polygons) \<longrightarrow>
       length (lev_objects lvl) = n) \<and>
    (\<forall>n < 2 ^ 31. d3 = double_bits (js_add (js_nat n) bias_pictures) \<longrightarrow>
       length (lev_pictures lvl) = n)"
proof -
  from decode_Inr [OF assms] obtain d1 d2 d3 off1 off2 off3 where
    r1: "readDoubleLE buffer 130 = Inr d1"
    and ps: "parse_polygons buffer (js_sub (double_value d1) bias_polygons) 0 138 [] =
      Inr (lev_polygons lvl, off1)"
    and r2: "readDoubleLE buffer off1 = Inr d2"
    and os: "parse_objects buffer (js_sub (double_value d2) bias_polygons) 0 (off1 + 8) [] =
      Inr (lev_objects lvl, off2)"
    and r3: "readDoubleLE buffer off2 = Inr d3"
    and cs: "parse_pictures buffer (js_sub (double_value d3) bias_pictures) 0 (off2 + 8) [] =
      Inr (lev_pictures lvl, off3)"
    by blast
  from parse_polygons_run [OF ps] have
    o1: "off1 = 138 + polygons_size (lev_polygons lvl)"
    and g1: "\<forall>j. 0 \<le> j \<and> j < 0 + length (lev_polygons lvl) \<longrightarrow>
        js_less (js_nat j) (js_sub (double_value d1) bias_polygons)"
      "\<not> js_less (js_nat (0 + length (lev_polygons lvl))) (js_sub (double_value d1) bias_polygons)"
    by auto
  from parse_objects_run [OF os] have
    o2: "off2 = off1 + 8 + 28 * length (lev_objects lvl)"
    and g2: "\<forall>j. 0 \<le> j \<and> j < 0 + length (lev_objects lvl) \<longrightarrow>
        js_less (js_nat j) (js_sub (double_value d2) bias_polygons)"
      "\<not> js_less (js_nat (0 + length (lev_objects lvl))) (js_sub (double_value d2) bias_polygons)"
    by auto
  from parse_pictures_run [OF cs] have
    g3: "\<forall>j. 0 \<le> j \<and> j < 0 + length (lev_pictures lvl) \<longrightarrow>
        js_less (js_nat j) (js_sub (double_value d3) bias_pictures)"
      "\<not> js_less (js_nat (0 + length (lev_pictures lvl))) (js_sub (double_value d3) bias_pictures)"
    by auto
  note l1 = loop_count [OF g1] and l2 = loop_count [OF g2] and l3 = loop_count [OF g3]
  have c1: "length (lev_polygons lvl) = n"
    if "n < 2 ^ 31" "d1 = double_bits (js_add (js_nat n) bias_polygons)" for n
  proof -
    have "i < n \<longleftrightarrow> i < length (lev_polygons lvl)" for i
      using polygon_count_field [OF that(1), of i] l1 [of i] that(2) by simp
    then show ?thesis by (metis nat_neq_iff)
  qed
  have c2: "length (lev_objects lvl) = n"
    if "n < 2 ^ 31" "d2 = double_bits (js_add (js_nat n) bias_polygons)" for n
  proof -
    have "i < n \<longleftrightarrow> i < length (lev_objects lvl)" for i
      using polygon_count_field [OF that(1), of i] l2 [of i] that(2) by simp
    then show ?thesis by (metis nat_neq_iff)
  qed
  have c3: "length (lev_pictures lvl) = n"
    if "n < 2 ^ 31" "d3 = double_bits (js_add (js_nat n) bias_pictures)" for n
  proof -
    have "i < n \<longleftrightarrow> i < length (lev_pictures lvl)" for i
      using picture_count_field [OF that(1), of i] l3 [of i] that(2) by simp
    then show ?thesis by (metis nat_neq_iff)
  qed
  show ?thesis
  proof (intro exI conjI)
    show "readDoubleLE buffer 130 = Inr d1" by (rule r1)
    show "readDoubleLE buffer (138 + polygons_size (lev_polygons lvl)) = Inr d2"
      using r2 by (simp add: o1)
    show "readDoubleLE buffer
        (138 + polygons_size (lev_polygons lvl) + 8 + 28 * length (lev_objects lvl)) = Inr d3"
      using r3 by (simp add: o1 o2)
    show "\<forall>i. i < length (lev_polygons lvl) \<longleftrightarrow>
       js_less (js_nat i) (js_sub (double_value d1) bias_polygons)" using l1 by simp
    show "\<forall>i. i < length (lev_objects lvl) \<longleftrightarrow>
       js_less (js_nat i) (js_sub (double_value d2) bias_polygons)" using l2 by simp
    show "\<forall>i. i < length (lev_pictures lvl) \<longleftrightarrow>
       js_less (js_nat i) (js_sub (double_value d3) bias_pictures)" using l3 by simp
    show "\<forall>n < 2 ^ 31. d1 = double_bits (js_add (js_nat n) bias_polygons) \<longrightarrow>
       length (lev_polygons lvl) = n" using c1 by blast
    show "\<forall>n < 2 ^ 31. d2 = double_bits (js_add (js_nat n) bias_polygons) \<longrightarrow>
       length (lev_objects lvl) = n" using c2 by blast
    show "\<forall>n < 2 ^ 31. d3 = double_bits (js_add (js_nat n) bias_pictures) \<longrightarrow>
       length (lev_pictures lvl) = n" using c3 by blast
  qed
qed

text \<open>
  The sample level, encoded: the polygon field of the file is the double
  \<open>3 + 0.4643643\<close>, and decoding the file gives 3 polygons, 3 objects and 1 picture.
\<close>

theorem count_fields_bound_loops_witness:
  "\<exists>bytes lvl.
     encode sample_markers sample_checksums (sample_level [] []) = Inr bytes \<and>
     decode sample_markers bytes = Inr lvl \<and>
     readDoubleLE bytes 130 = Inr (double_bits (js_add (js_nat 3) bias_polygons)) \<and>
     length (lev_polygons lvl) = 3"
proof -
  define this' where "this' = (sample_level [] [])\<lparr>lev_integrity := sample_checksums\<rparr>"
  have vs: "valid_scores (lev_top10 (sample_level [] []))"
    by (simp add: valid_scores_def sample_level_def)
  have v': "valid_level this'" using valid_sample_level [of "[]" "[]"]
    by (simp add: this'_def valid_level_def)
  have c': "length (lev_integrity this') = 4" by (simp add: this'_def sample_checksums_def)
  have n3: "length (lev_polygons this') = 3" by (simp add: this'_def sample_level_def)
  from update_bytes [OF valid_sample_level vs valid_sample_markers length_sample_checksums]
  have e: "encode sample_markers sample_checksums (sample_level [] []) =
      Inr (level_bytes sample_markers this')"
    by (simp add: encode_def this'_def)
  have vs': "valid_scores (lev_top10 this')" using vs by (simp add: this'_def)
  from decode_level_bytes [OF v' vs' valid_sample_markers c'] obtain d where
    dec: "decode sample_markers (level_bytes sample_markers this') = Inr (this'\<lparr>lev_top10 := d\<rparr>)"
    by blast
  have d0: "drop 0 (level_bytes sample_markers this') =
      header_bytes this' @ count_bytes (length (lev_polygons this')) bias_polygons @
      concat (map polygon_bytes (lev_polygons this')) @
      drop (130 + 8 + length (concat (map polygon_bytes (lev_polygons this'))))
        (level_bytes sample_markers this')"
    by (simp add: level_bytes_def length_header_bytes [OF c'] length_count_bytes)
  have r: "readDoubleLE (level_bytes sample_markers this') 130 =
      Inr (double_bits (js_add (js_nat 3) bias_polygons))"
    using polygons_decoded(1) [OF d0 v' c'] by (simp add: n3)
  from count_fields_bound_loops [OF dec] obtain d1 where
    r1: "readDoubleLE (level_bytes sample_markers this') 130 = Inr d1"
    and c1: "\<forall>n < 2 ^ 31. d1 = double_bits (js_add (js_nat n) bias_polygons) \<longrightarrow>
       length (lev_polygons (this'\<lparr>lev_top10 := d\<rparr>)) = n"
    by blast
  from r r1 have "d1 = double_bits (js_add (js_nat 3) bias_polygons)" by simp
  with c1 have "length (lev_polygons (this'\<lparr>lev_top10 := d\<rparr>)) = 3" by simp
  with e dec r show ?thesis by blast
qed

text \<open>
  A file whose polygon field is the number 3.5 and which holds four polygons: the
  field less the bias is a number between 3 and 3.5, its nearest integer is 3, and
  decoding succeeds with 4 polygons.
\<close>

theorem count_not_rounded_counterexample:
  "\<exists>lvl. readDoubleLE half_count_file 130 = Inr 0x400C000000000000 \<and>
     double_value 0x400C000000000000 = Finite (7 / 2) \<and>
     spec_rounded_count 0x400C000000000000 bias_polygons = Some 3 \<and>
     decode sample_markers half_count_file = Inr lvl \<and>
     length (lev_polygons lvl) = 4"
proof -
  have v: "valid_level four_polygons"
    by (simp add: four_polygons_def valid_level_def sample_level_def field_string_def
        valid_polygon_def valid_object_def valid_picture_def is_int32_def)
  have s: "valid_scores (lev_top10 four_polygons)"
    by (simp add: valid_scores_def four_polygons_def sample_level_def)
  have c: "length (lev_integrity four_polygons) = 4"
    by (simp add: four_polygons_def sample_level_def)
  have n: "length (lev_polygons four_polygons) = 4" "length (lev_objects four_polygons) = 3"
    "length (lev_pictures four_polygons) = 1"
    by (simp_all add: four_polygons_def sample_level_def)
  have g1: "js_less (js_nat j) (js_sub (double_value 0x400C000000000000) bias_polygons) \<longleftrightarrow>
      j < length (lev_polygons four_polygons)" for j
    unfolding n by (rule three_and_a_half_loop)
  have g2: "js_less (js_nat j)
      (js_sub (double_value (double_bits (js_add (js_nat 3) bias_polygons))) bias_polygons) \<longleftrightarrow>
      j < length (lev_objects four_polygons)" for j
    unfolding n by (rule polygon_count_field) simp
  have g3: "js_less (js_nat j)
      (js_sub (double_value (double_bits (js_add (js_nat 1) bias_pictures))) bias_pictures) \<longleftrightarrow>
      j < length (lev_pictures four_polygons)" for j
    unfolding n by (rule picture_count_field) simp
  from decode_file_bytes [OF v s valid_sample_markers c g1 g2 g3] obtain d where
    dec: "decode sample_markers half_count_file = Inr (four_polygons\<lparr>lev_top10 := d\<rparr>)"
    unfolding half_count_file_def by blast
  have d0: "drop 0 half_count_file = header_bytes four_polygons @
      double_bytes 0x400C000000000000 @ drop 138 half_count_file"
    by (simp add: half_count_file_def file_bytes_def length_header_bytes [OF c])
  have r: "readDoubleLE half_count_file 130 = Inr 0x400C000000000000"
    by (rule read_double_at [OF header_decoded(11) [OF d0 v c]])
  have "round (6835643903676287 / 2 ^ 51 :: rat) = 3"
    by (simp add: round_def floor_eq_iff)
  then have sp: "spec_rounded_count 0x400C000000000000 bias_polygons = Some 3"
    by (simp add: spec_rounded_count_def three_and_a_half_less_bias)
  have "length (lev_polygons (four_polygons\<lparr>lev_top10 := d\<rparr>)) = 4" using n by simp
  with r three_and_a_half sp dec show ?thesis by blast
qed


end
